(* ===== verification/Prelude.thy ===== *)
theory Prelude
  imports Main "HOL-Library.Word" "HOL-Library.Signed_Division" "HOL-Library.Monad_Syntax"
begin

text \<open>
  Shared vocabulary of the AdamOS development: the machine types of
  \<^verbatim>\<open>shared/types.h\<close>, the arithmetic of C where it differs from HOL's, the generic
  lemmas on lists and words that the component theories share, and one locale for
  invariants of step relations.

  A computation that the C code performs on memory it may not own is modelled with type
  \<open>'a option\<close>: \<open>None\<close> is a fault (an access outside the object, a null dereference, or
  a loop that never ends), \<open>Some\<close> a normal return.
\<close>

unbundle bit_operations_syntax

section \<open>Machine types\<close>

type_synonym u8 = "8 word"
type_synonym u16 = "16 word"
type_synonym u32 = "32 word"

text \<open>
  The register frame that the interrupt stubs push (\<^verbatim>\<open>registers_t\<close> of
  \<^verbatim>\<open>shared/types.h\<close>), in its order; the prefix only keeps the names apart.
\<close>

record registers =
  r_gs :: u32
  r_fs :: u32
  r_es :: u32
  r_ds :: u32
  r_edi :: u32
  r_esi :: u32
  r_ebp :: u32
  r_esp :: u32
  r_ebx :: u32
  r_edx :: u32
  r_ecx :: u32
  r_eax :: u32
  r_int_no :: u32
  r_err_code :: u32
  r_eip :: u32
  r_cs :: u32
  r_eflags :: u32
  r_useresp :: u32
  r_ss :: u32

definition zero_registers :: registers where
  "zero_registers =
     \<lparr>r_gs = 0, r_fs = 0, r_es = 0, r_ds = 0, r_edi = 0, r_esi = 0, r_ebp = 0, r_esp = 0,
      r_ebx = 0, r_edx = 0, r_ecx = 0, r_eax = 0, r_int_no = 0, r_err_code = 0, r_eip = 0,
      r_cs = 0, r_eflags = 0, r_useresp = 0, r_ss = 0\<rparr>"

named_theorems fault_free
  \<open>facts of the form: under the invariant this operation returns\<close>

named_theorems inv_kept
  \<open>facts of the form: this operation keeps its component's invariant\<close>

section \<open>C arithmetic\<close>

text \<open>
  \<^verbatim>\<open>shared/math.c\<close>: the integer helpers. A C \<open>int\<close> is a 32-bit word read
  with \<open>sint\<close>; where a caller's values are known to be small the model uses \<open>int\<close>.
\<close>

definition c_int :: "int \<Rightarrow> bool" where
  "c_int x \<longleftrightarrow> - 2147483648 \<le> x \<and> x < 2147483648"

definition c_max :: "int \<Rightarrow> int \<Rightarrow> int" where
  "c_max x y = (if x > y then x else y)"

definition c_min :: "int \<Rightarrow> int \<Rightarrow> int" where
  "c_min x y = (if x < y then x else y)"

definition c_ceil :: "int \<Rightarrow> int \<Rightarrow> int" where
  "c_ceil x y = (x + y - 1) sdiv y"

definition c_abs :: "int \<Rightarrow> int" where
  "c_abs x = (if x < 0 then x * -1 else x)"

lemma c_max_eq [simp]: "c_max x y = max x y"
  by (simp add: c_max_def)

lemma c_min_eq [simp]: "c_min x y = min x y"
  by (simp add: c_min_def)

lemma c_abs_eq [simp]: "c_abs x = \<bar>x\<bar>"
  by (simp add: c_abs_def)

lemma c_ceil_pos: "0 \<le> x \<Longrightarrow> 0 < y \<Longrightarrow> c_ceil x y = (x + y - 1) div y"
  by (simp add: c_ceil_def signed_divide_int_def sgn_if)

text \<open>\<open>c_ceil\<close> is the least number of blocks of size \<open>y\<close> that hold \<open>x\<close> bytes.\<close>

lemma c_ceil_covers:
  assumes "0 \<le> x" "0 < y"
  shows "x \<le> c_ceil x y * y" and "c_ceil x y * y < x + y"
proof -
  have eq: "(x + y - 1) = c_ceil x y * y + (x + y - 1) mod y"
    using assms by (simp add: c_ceil_pos)
  have "0 \<le> (x + y - 1) mod y" and "(x + y - 1) mod y < y"
    using assms by simp_all
  with eq show "x \<le> c_ceil x y * y" and "c_ceil x y * y < x + y" by linarith+
qed

section \<open>Words\<close>

lemma unat_of_nat32 [simp]: "n < 2 ^ 32 \<Longrightarrow> unat (of_nat n :: u32) = n"
  by (simp add: unat_of_nat take_bit_nat_eq_self_iff)

lemma unat_plus32: "unat (a::u32) + unat b < 2 ^ 32 \<Longrightarrow> unat (a + b) = unat a + unat b"
  using unat_add_lem [of a b] by simp

lemma unat_times32: "unat (a::u32) * unat b < 2 ^ 32 \<Longrightarrow> unat (a * b) = unat a * unat b"
  using unat_mult_lem [of a b] by simp

lemma sint_char: "unat (c::u8) < 128 \<Longrightarrow> sint c = int (unat c)"
proof -
  assume "unat c < 128"
  then have "int (unat c) < 128" by linarith
  then have lt: "uint c < 2 ^ 7" by simp
  have ge: "- (2 ^ 7) \<le> uint c" by (rule order_trans [OF _ uint_ge_0]) simp
  have "sint c = signed_take_bit 7 (uint c)" by (simp add: sint_uint)
  also have "\<dots> = uint c" by (rule signed_take_bit_int_eq_self [OF ge lt])
  finally show ?thesis by simp
qed

lemma sint_small: "unat (w::u32) < 2 ^ 31 \<Longrightarrow> sint w = int (unat w)"
proof -
  assume "unat w < 2 ^ 31"
  then have "unat w < 2147483648" by simp
  then have "int (unat w) < 2147483648" by linarith
  then have lt: "uint w < 2 ^ 31" by simp
  have ge: "- (2 ^ 31) \<le> uint w" by (rule order_trans [OF _ uint_ge_0]) simp
  have "sint w = signed_take_bit 31 (uint w)" by (simp add: sint_uint)
  also have "\<dots> = uint w" by (rule signed_take_bit_int_eq_self [OF ge lt])
  finally show ?thesis by simp
qed

lemma unat_u32_of: "0 \<le> x \<Longrightarrow> x < 2 ^ 32 \<Longrightarrow> unat (word_of_int x :: u32) = nat x"
  unfolding unat_eq_nat_uint by (simp add: uint_word_of_int)

lemma unat_minus32: "b \<le> a \<Longrightarrow> unat (a - b :: u32) = unat a - unat b"
  by (rule unat_sub)

lemma unat_lt32: "unat (a::u32) < 4294967296"
  using unsigned_less [of a] by simp

section \<open>Lists\<close>

lemma nth_list_update_if:
  "i < length xs \<Longrightarrow> xs[i := v] ! j = (if i = j then v else xs ! j)"
  by (simp add: nth_list_update)

lemma nth_splice:
  assumes "off + length zs \<le> length xs" "i < length xs"
  shows "(take off xs @ zs @ drop (off + length zs) xs) ! i
     = (if off \<le> i \<and> i < off + length zs then zs ! (i - off) else xs ! i)"
  using assms by (auto simp: nth_append min_absorb2)

lemma map_idI_on: "(\<And>x. x \<in> set xs \<Longrightarrow> f x = x) \<Longrightarrow> map f xs = xs"
  by (induction xs) auto

section \<open>Loops over a list\<close>

text \<open>
  A C \<^verbatim>\<open>for\<close> loop whose counter runs through a known list of values and whose body
  may fault.
\<close>

fun foldM :: "('a \<Rightarrow> 's \<Rightarrow> 's option) \<Rightarrow> 'a list \<Rightarrow> 's \<Rightarrow> 's option" where
  "foldM f [] s = Some s"
| "foldM f (x # xs) s = do { s \<leftarrow> f x s; foldM f xs s }"

lemma foldM_append [simp]: "foldM f (xs @ ys) s = do { s \<leftarrow> foldM f xs s; foldM f ys s }"
  by (induction xs arbitrary: s) (auto split: bind_splits)

lemma foldM_concat: "foldM (foldM f) xss s = foldM f (concat xss) s"
  by (induction xss arbitrary: s) (auto split: bind_splits)

lemma foldM_map: "foldM f (map g xs) s = foldM (\<lambda>x. f (g x)) xs s"
  by (induction xs arbitrary: s) (auto split: bind_splits)

lemma foldM_skip:
  "foldM (\<lambda>x s. if P x then f x s else Some s) xs s = foldM f (filter P xs) s"
  by (induction xs arbitrary: s) (auto split: bind_splits)

lemma foldM_cong:
  "(\<And>x s. x \<in> set xs \<Longrightarrow> f x s = g x s) \<Longrightarrow> foldM f xs s = foldM g xs s"
proof (induction xs arbitrary: s)
  case (Cons x xs)
  have "foldM f xs = foldM g xs" by (rule ext) (simp add: Cons)
  then show ?case using Cons.prems by simp
qed simp

lemma foldM_total [fault_free]:
  assumes "\<And>x s. x \<in> set xs \<Longrightarrow> I s \<Longrightarrow> \<exists>s'. f x s = Some s' \<and> I s'" and "I s"
  shows "\<exists>s'. foldM f xs s = Some s' \<and> I s'"
  using assms by (induction xs arbitrary: s) fastforce+

section \<open>Invariants of step relations\<close>

text \<open>
  The shared contract of every component that is a state machine: an initial predicate, a
  step relation and a candidate invariant that the steps keep. The conclusion, that every
  reachable state satisfies the invariant, is proved once.
\<close>

inductive reach :: "('s \<Rightarrow> bool) \<Rightarrow> ('s \<Rightarrow> 's \<Rightarrow> bool) \<Rightarrow> 's \<Rightarrow> bool"
  for ini :: "'s \<Rightarrow> bool" and step :: "'s \<Rightarrow> 's \<Rightarrow> bool" where
  reach_init: "ini s \<Longrightarrow> reach ini step s"
| reach_step: "reach ini step s \<Longrightarrow> step s t \<Longrightarrow> reach ini step t"

locale invariant_system =
  fixes ini :: "'s \<Rightarrow> bool"
    and step :: "'s \<Rightarrow> 's \<Rightarrow> bool"
    and inv :: "'s \<Rightarrow> bool"
  assumes inv_init: "ini s \<Longrightarrow> inv s"
    and inv_step: "inv s \<Longrightarrow> step s t \<Longrightarrow> inv t"
begin

lemma reach_inv: "reach ini step s \<Longrightarrow> inv s"
  by (induction rule: reach.induct) (auto intro: inv_init inv_step)

lemma reach_rtranclp: "reach ini step s \<Longrightarrow> step\<^sup>*\<^sup>* s t \<Longrightarrow> inv t"
  by (rotate_tac, induction rule: rtranclp_induct) (auto intro: inv_step reach_inv)

end

end
