(* ===== verification/Strings.thy ===== *)
theory Strings
  imports Prelude
begin

text \<open>
  The C library of the kernel and of the user programs, \<^verbatim>\<open>shared/string.c\<close> and
  \<^verbatim>\<open>shared/mem.c\<close>. A buffer is the list of its bytes; a pointer into a buffer is the
  rest of the list from there, so that \<^verbatim>\<open>*p\<close> is its head and \<^verbatim>\<open>p++\<close> its
  tail. Reading or writing past the end of the buffer is a fault (\<open>None\<close>), and so is a signed
  overflow, which C leaves undefined. The functions on \<^verbatim>\<open>float\<close> are not modelled.
\<close>

section \<open>Model\<close>

definition digits_10 :: "u8 list" where
  "digits_10 = [48, 49, 50, 51, 52, 53, 54, 55, 56, 57]"

definition digits_16 :: "u8 list" where
  "digits_16 = [48, 49, 50, 51, 52, 53, 54, 55, 56, 57, 65, 66, 67, 68, 69, 70]"

text \<open>A signed 32-bit result: undefined when it does not fit.\<close>

definition INT_MIN :: int where "INT_MIN = - 2147483648"

definition chk32 :: "int \<Rightarrow> int option" where
  "chk32 x = (if INT_MIN \<le> x \<and> x < 2147483648 then Some x else None)"

text \<open>A string literal.\<close>

definition cstr :: "string \<Rightarrow> u8 list" where
  "cstr s = map of_char s @ [0]"

definition put :: "'a list \<Rightarrow> nat \<Rightarrow> 'a \<Rightarrow> 'a list option" where
  "put buf i c = (if i < length buf then Some (buf[i := c]) else None)"

definition get :: "'a list \<Rightarrow> nat \<Rightarrow> 'a option" where
  "get buf i = (if i < length buf then Some (buf ! i) else None)"

fun strcmp :: "u8 list \<Rightarrow> u8 list \<Rightarrow> bool option" where
  "strcmp (a # as) (b # bs) = (if a \<noteq> 0 \<and> a = b then strcmp as bs else Some (a = b))"
| "strcmp _ _ = None"

fun strncmp :: "u8 list \<Rightarrow> u8 list \<Rightarrow> nat \<Rightarrow> bool option" where
  "strncmp _ _ 0 = Some True"
| "strncmp (a # as) (b # bs) (Suc n) = (if a \<noteq> b \<or> a = 0 then Some False else strncmp as bs n)"
| "strncmp _ _ (Suc n) = None"

fun strlen :: "u8 list \<Rightarrow> nat option" where
  "strlen [] = None"
| "strlen (c # s) = (if c \<noteq> 0 then map_option Suc (strlen s) else Some 0)"

fun strfind_from :: "int \<Rightarrow> u8 list \<Rightarrow> u8 \<Rightarrow> int option" where
  "strfind_from i [] delim = None"
| "strfind_from i (c # str) delim =
     (if c = 0 then Some (-1) else if c = delim then Some i else strfind_from (i + 1) str delim)"

definition strfind :: "u8 list \<Rightarrow> u8 \<Rightarrow> int option" where
  "strfind str delim = strfind_from 0 str delim"

fun strcpy :: "u8 list \<Rightarrow> u8 list \<Rightarrow> u8 list option" where
  "strcpy (d # dest) (c # src) =
     (if c \<noteq> 0 then map_option ((#) c) (strcpy dest src) else Some (0 # dest))"
| "strcpy _ _ = None"

fun strncpy :: "u8 list \<Rightarrow> u8 list \<Rightarrow> nat \<Rightarrow> u8 list option" where
  "strncpy (d # dest) src 0 = Some (0 # dest)"
| "strncpy (d # dest) (c # src) (Suc n) =
     (if c \<noteq> 0 then map_option ((#) c) (strncpy dest src n) else Some (0 # dest))"
| "strncpy _ _ _ = None"

text \<open>\<^verbatim>\<open>dest + strlen(dest)\<close>: the copy starts at the terminator of \<open>dest\<close>.\<close>

definition strcat :: "u8 list \<Rightarrow> u8 list \<Rightarrow> u8 list option" where
  "strcat dest src =
     do { n \<leftarrow> strlen dest; d \<leftarrow> strcpy (drop n dest) src; Some (take n dest @ d) }"

definition strncat :: "u8 list \<Rightarrow> u8 list \<Rightarrow> nat \<Rightarrow> u8 list option" where
  "strncat dest src k =
     do { n \<leftarrow> strlen dest; d \<leftarrow> strncpy (drop n dest) src k; Some (take n dest @ d) }"

text \<open>The swap loop of \<^verbatim>\<open>strrev\<close> with \<open>k\<close> rounds to go.\<close>

fun strrev_loop :: "nat \<Rightarrow> nat \<Rightarrow> nat \<Rightarrow> u8 list \<Rightarrow> u8 list option" where
  "strrev_loop 0 i len str = Some str"
| "strrev_loop (Suc k) i len str =
     do {
       tmp \<leftarrow> get str i;
       c \<leftarrow> get str (len - 1 - i);
       str \<leftarrow> put str i c;
       str \<leftarrow> put str (len - 1 - i) tmp;
       strrev_loop k (Suc i) len str
     }"

definition strrev :: "u8 list \<Rightarrow> u8 list option" where
  "strrev str = do { len \<leftarrow> strlen str; strrev_loop (len div 2) 0 len str }"

text \<open>The \<^verbatim>\<open>do\<close> loop of \<^verbatim>\<open>itos\<close>; it runs on a non-negative number.\<close>

fun itos_loop :: "nat \<Rightarrow> nat \<Rightarrow> u8 list \<Rightarrow> (nat \<times> u8 list) option" where
  "itos_loop n i result =
     do {
       result \<leftarrow> put result i (48 + of_nat (n mod 10));
       if n div 10 > 0 then itos_loop (n div 10) (Suc i) result else Some (Suc i, result)
     }"

declare itos_loop.simps [simp del]

definition itos :: "u8 list \<Rightarrow> int \<Rightarrow> u8 list option" where
  "itos result n =
     (let negative = n < 0 in do {
        n \<leftarrow> (if negative then chk32 (- n) else Some n);
        (i, result) \<leftarrow> itos_loop (nat n) 0 result;
        (i, result) \<leftarrow> (if negative
            then map_option (\<lambda>r. (Suc i, r)) (put result i 45) else Some (i, result));
        result \<leftarrow> put result i 0;
        strrev result
      })"

text \<open>
  \<^verbatim>\<open>itohs\<close>: \<^verbatim>\<open>n % 16\<close> of C keeps the sign of \<open>n\<close>, so that a negative
  number indexes \<^verbatim>\<open>digits_16\<close> below its start.
\<close>

function itohs_loop :: "int \<Rightarrow> nat \<Rightarrow> u8 list \<Rightarrow> (nat \<times> u8 list) option" where
  "itohs_loop n i hex =
     do {
       c \<leftarrow> (if n smod 16 < 0 then None else get digits_16 (nat (n smod 16)));
       hex \<leftarrow> put hex i c;
       if n sdiv 16 > 0 then itohs_loop (n sdiv 16) (Suc i) hex else Some (Suc i, hex)
     }"
  by pat_completeness auto
termination
  by (relation "measure (\<lambda>(n, i, hex). nat n)")
    (auto simp: signed_divide_int_def sgn_if split: if_splits)

declare itohs_loop.simps [simp del]

definition itohs :: "u8 list \<Rightarrow> int \<Rightarrow> u8 list option" where
  "itohs result n =
     do {
       (i, hex) \<leftarrow> itohs_loop n 0 (replicate 20 0);
       hex \<leftarrow> put hex i 0;
       hex \<leftarrow> strrev hex;
       result \<leftarrow> put result 0 48;
       result \<leftarrow> put result 1 88;
       tl2 \<leftarrow> strcpy (drop 2 result) hex;
       Some (take 2 result @ tl2)
     }"

fun stoi_loop :: "int \<Rightarrow> u8 list \<Rightarrow> int option" where
  "stoi_loop result [] = None"
| "stoi_loop result (c # str) =
     (if 48 \<le> c \<and> c \<le> 57 then
        do { r10 \<leftarrow> chk32 (result * 10); r \<leftarrow> chk32 (r10 + (int (unat c) - 48)); stoi_loop r str }
      else Some result)"

definition stoi :: "u8 list \<Rightarrow> int option" where
  "stoi str =
     do {
       c \<leftarrow> get str 0;
       let (sign, i) = (if c = 45 then (-1, 1) else (1, 0));
       result \<leftarrow> stoi_loop 0 (drop i str);
       chk32 (result * sign)
     }"

text \<open>
  \<^verbatim>\<open>strtok\<close> keeps its position in the global \<^verbatim>\<open>string_token\<close> (\<open>None\<close> is NULL).
  The result is the new buffer, whether the returned pointer is not NULL, and the new position.
\<close>

fun skip_delim :: "u8 \<Rightarrow> u8 list \<Rightarrow> u8 list option" where
  "skip_delim delim [] = None"
| "skip_delim delim (c # s) = (if c = delim then skip_delim delim s else Some (c # s))"

fun copy_token :: "u8 \<Rightarrow> u8 list \<Rightarrow> nat \<Rightarrow> u8 list \<Rightarrow> (nat \<times> u8 list \<times> u8 list) option" where
  "copy_token delim [] i dest = None"
| "copy_token delim (c # s) i dest =
     (if c \<noteq> 0 \<and> c \<noteq> delim then
        do { dest \<leftarrow> put dest i c; copy_token delim s (Suc i) dest }
      else Some (i, dest, c # s))"

definition strtok :: "u8 list \<Rightarrow> u8 list option \<Rightarrow> u8 \<Rightarrow> u8 list option
    \<Rightarrow> (u8 list \<times> bool \<times> u8 list option) option" where
  "strtok dest str delim string_token =
     (let string_token = (if str \<noteq> None then str else string_token) in
      case string_token of
        None \<Rightarrow> do { dest \<leftarrow> put dest 0 0; Some (dest, False, None) }
      | Some s \<Rightarrow> do {
          c \<leftarrow> get s 0;
          if c = 0 then do { dest \<leftarrow> put dest 0 0; Some (dest, False, Some s) }
          else do {
            s \<leftarrow> skip_delim delim s;
            (i, dest, s) \<leftarrow> copy_token delim s 0 dest;
            dest \<leftarrow> put dest i 0;
            c \<leftarrow> get s 0;
            Some (dest, i > 0, Some (if c \<noteq> 0 then drop 1 s else s))
          }
        })"

text \<open>\<^verbatim>\<open>shared/mem.c\<close>\<close>

fun copy_bytes :: "nat \<Rightarrow> u8 list \<Rightarrow> u8 list \<Rightarrow> u8 list option" where
  "copy_bytes 0 d s = Some d"
| "copy_bytes (Suc n) (d # ds) (s # ss) = map_option ((#) s) (copy_bytes n ds ss)"
| "copy_bytes (Suc n) _ _ = None"

fun copy_dwords :: "nat \<Rightarrow> u8 list \<Rightarrow> u8 list \<Rightarrow> u8 list option" where
  "copy_dwords 0 d s = Some d"
| "copy_dwords (Suc n) (d0 # d1 # d2 # d3 # ds) (s0 # s1 # s2 # s3 # ss) =
     map_option (\<lambda>r. s0 # s1 # s2 # s3 # r) (copy_dwords n ds ss)"
| "copy_dwords (Suc n) _ _ = None"

text \<open>\<^verbatim>\<open>rep movsl\<close> advances both pointers past the double words it copied.\<close>

definition memcpy :: "u8 list \<Rightarrow> u8 list \<Rightarrow> nat \<Rightarrow> u8 list option" where
  "memcpy dest src n =
     (let dwords = n div 4; remain = n mod 4 in
      do {
        dest \<leftarrow> copy_dwords dwords dest src;
        d \<leftarrow> copy_bytes remain (drop (4 * dwords) dest) (drop (4 * dwords) src);
        Some (take (4 * dwords) dest @ d)
      })"

fun memset :: "u8 list \<Rightarrow> u8 \<Rightarrow> nat \<Rightarrow> u8 list option" where
  "memset d v 0 = Some d"
| "memset (d # ds) v (Suc n) = map_option ((#) v) (memset ds v n)"
| "memset [] v (Suc n) = None"

fun memcmp :: "u8 list \<Rightarrow> u8 list \<Rightarrow> nat \<Rightarrow> int option" where
  "memcmp p1 p2 0 = Some 0"
| "memcmp (a # p1) (b # p2) (Suc n) = (if a \<noteq> b then Some (-1) else memcmp p1 p2 n)"
| "memcmp _ _ (Suc n) = None"

section \<open>Terminated strings\<close>

text \<open>The text of a buffer is what precedes its first NUL.\<close>

definition terminated :: "u8 list \<Rightarrow> bool" where
  "terminated buf \<longleftrightarrow> 0 \<in> set buf"

definition text_of :: "u8 list \<Rightarrow> u8 list" where
  "text_of buf = takeWhile (\<lambda>c. c \<noteq> 0) buf"

lemma text_of_Cons [simp]: "text_of (c # s) = (if c = 0 then [] else c # text_of s)"
  by (simp add: text_of_def)

lemma text_of_Nil [simp]: "text_of [] = []"
  by (simp add: text_of_def)

lemma terminated_Cons [simp]: "terminated (c # s) \<longleftrightarrow> c = 0 \<or> terminated s"
  by (auto simp: terminated_def)

lemma terminated_Nil [simp]: "\<not> terminated []"
  by (simp add: terminated_def)

lemma text_of_nonzero: "0 \<notin> set (text_of s)"
  unfolding text_of_def by (metis (full_types) set_takeWhileD)

lemma text_of_append [simp]: "0 \<notin> set xs \<Longrightarrow> text_of (xs @ 0 # r) = xs"
  by (induction xs) auto

lemma terminated_split: "terminated s \<Longrightarrow> \<exists>r. s = text_of s @ 0 # r"
  by (induction s) auto

lemma strlen_text [simp]: "terminated s \<Longrightarrow> strlen s = Some (length (text_of s))"
  by (induction s) auto

lemma strlen_fault: "strlen s = None \<longleftrightarrow> \<not> terminated s"
  by (induction s) auto

lemma text_shorter: "terminated s \<Longrightarrow> length (text_of s) < length s"
  by (induction s) auto

section \<open>Comparing and copying\<close>

text \<open>on terminated strings \<^verbatim>\<open>strcmp\<close> answers whether the texts are equal (not
  the three-way result of the C library).\<close>

theorem strcmp_decides_equality:
  assumes "terminated a" "terminated b"
  shows "strcmp a b = Some (text_of a = text_of b)"
  using assms by (induction a b rule: strcmp.induct) auto

theorem strcmp_decides_equality_witness:
  "strcmp [108, 115, 0] [108, 115, 0, 7] = Some True"
  using strcmp_decides_equality [of "[108, 115, 0]" "[108, 115, 0, 7]"] by simp

lemma strncmp_text:
  assumes "terminated a" "terminated b"
  shows "strncmp a b n = Some (n \<le> length (text_of a) \<and> take n (text_of a) = take n (text_of b))"
  using assms by (induction a b n rule: strncmp.induct) (auto split: nat.splits)

lemma strcpy_text:
  assumes "terminated src"
  shows "strcpy dest src =
     (if length (text_of src) < length dest
      then Some (text_of src @ 0 # drop (Suc (length (text_of src))) dest) else None)"
  using assms by (induction dest src rule: strcpy.induct) auto

lemma strncpy_text:
  assumes "terminated src" "n < length dest"
  shows "strncpy dest src n =
     Some (take n (text_of src) @ 0 # drop (Suc (length (take n (text_of src)))) dest)"
  using assms by (induction dest src n rule: strncpy.induct) auto

lemma strcat_text:
  assumes "terminated dest" "terminated src"
  shows "strcat dest src =
     (if length (text_of dest) + length (text_of src) < length dest
      then Some (text_of dest @ text_of src @ 0
        # drop (Suc (length (text_of dest) + length (text_of src))) dest)
      else None)"
proof -
  have "take (length (text_of dest)) dest = text_of dest"
    using terminated_split [OF assms(1)] by (metis append_eq_conv_conj)
  then show ?thesis
    using assms text_shorter [OF assms(1)] by (auto simp: strcat_def strcpy_text add.commute)
qed

text \<open>\<^verbatim>\<open>strcpy\<close> and \<^verbatim>\<open>strcat\<close> leave the copied, respectively the
  concatenated, text in the destination exactly when it fits with its terminator; otherwise
  they write past the end.\<close>

theorem strcpy_strcat_text:
  assumes "terminated src" "terminated dest"
  shows "(length (text_of src) < length dest \<longrightarrow>
            (\<exists>r. strcpy dest src = Some r \<and> length r = length dest \<and> text_of r = text_of src))
       \<and> (length dest \<le> length (text_of src) \<longrightarrow> strcpy dest src = None)
       \<and> (length (text_of dest) + length (text_of src) < length dest \<longrightarrow>
            (\<exists>r. strcat dest src = Some r \<and> length r = length dest
               \<and> text_of r = text_of dest @ text_of src))
       \<and> (length dest \<le> length (text_of dest) + length (text_of src) \<longrightarrow> strcat dest src = None)"
proof -
  have "text_of (text_of dest @ text_of src @ 0 # r) = text_of dest @ text_of src" for r
    using text_of_append [of "text_of dest @ text_of src" r] text_of_nonzero by simp
  then show ?thesis
    using text_of_nonzero [of src] by (auto simp: strcpy_text [OF assms(1)] strcat_text [OF assms(2,1)])
qed

theorem strcpy_strcat_text_witness:
  "\<exists>r. strcat [97, 0, 1, 1] [98, 0] = Some r \<and> text_of r = [97, 98]"
  using strcpy_strcat_text [of "[98, 0]" "[97, 0, 1, 1]"] by auto

section \<open>Reversal\<close>

definition half_reversed :: "nat \<Rightarrow> nat \<Rightarrow> u8 list \<Rightarrow> u8 list" where
  "half_reversed len i s =
     map (\<lambda>j. if j < len \<and> (j < i \<or> len - i \<le> j) then s ! (len - 1 - j) else s ! j) [0..<length s]"

lemma strrev_loop_spec:
  assumes "i + k = len div 2" "len \<le> length s"
  shows "strrev_loop k i len (half_reversed len i s) = Some (half_reversed len (len div 2) s)"
  using assms(1)
proof (induction k arbitrary: i)
  case (Suc k)
  then have i: "i < len - 1 - i" "len - 1 - i < length s" "i < length s" "i < len"
    using assms(2) by auto
  have "(half_reversed len i s)[i := half_reversed len i s ! (len - 1 - i),
            len - 1 - i := half_reversed len i s ! i] = half_reversed len (Suc i) s"
    by (rule nth_equalityI) (use i in \<open>auto simp: half_reversed_def nth_list_update\<close>)
  then show ?case using Suc.IH [of "Suc i"] Suc.prems i
    by (simp add: get_def put_def half_reversed_def Let_def)
qed simp

lemma half_reversed_0: "half_reversed len 0 s = s"
  by (rule nth_equalityI) (auto simp: half_reversed_def)

lemma half_reversed_full:
  assumes "len \<le> length s"
  shows "half_reversed len (len div 2) s = rev (take len s) @ drop len s"
proof (rule nth_equalityI)
  fix j
  assume "j < length (half_reversed len (len div 2) s)"
  then have j: "j < length s" by (simp add: half_reversed_def)
  show "half_reversed len (len div 2) s ! j = (rev (take len s) @ drop len s) ! j"
  proof (cases "j < len")
    case True
    then have "j = len - 1 - j" if "\<not> j < len div 2" "\<not> len - len div 2 \<le> j" using that by linarith
    then have "half_reversed len (len div 2) s ! j = s ! (len - 1 - j)"
      using True j by (auto simp: half_reversed_def)
    then show ?thesis using True assms by (simp add: nth_append rev_nth)
  next
    case False
    then show ?thesis using j assms by (simp add: half_reversed_def nth_append)
  qed
qed (use assms in \<open>simp add: half_reversed_def\<close>)

lemma strrev_text:
  assumes "terminated s"
  shows "strrev s = Some (rev (text_of s) @ drop (length (text_of s)) s)"
proof -
  have len: "length (text_of s) \<le> length s" using text_shorter [OF assms] by simp
  have "take (length (text_of s)) s = text_of s"
    using terminated_split [OF assms] by (metis append_eq_conv_conj)
  then show ?thesis
    using strrev_loop_spec [of 0 "length (text_of s) div 2" "length (text_of s)" s] len assms
    by (simp add: strrev_def half_reversed_0 half_reversed_full)
qed

section \<open>Printing and reading numbers\<close>

text \<open>The digits of \<open>n\<close> in base \<open>b\<close>, most significant first, and their value.\<close>

fun digits :: "nat \<Rightarrow> nat \<Rightarrow> nat list" where
  "digits b n = (if b < 2 \<or> n < b then [n] else digits b (n div b) @ [n mod b])"

declare digits.simps [simp del]

definition value_of :: "nat \<Rightarrow> nat list \<Rightarrow> nat" where
  "value_of b ds = foldl (\<lambda>v d. b * v + d) 0 ds"

lemma value_of_digits: "value_of b (digits b n) = n"
proof (induction b n rule: digits.induct)
  case (1 b n)
  then show ?case by (subst digits.simps) (auto simp: value_of_def)
qed

lemma digits_range: "2 \<le> b \<Longrightarrow> d \<in> set (digits b n) \<Longrightarrow> d < b"
proof (induction b n rule: digits.induct)
  case (1 b n)
  then show ?case by (subst (asm) (2) digits.simps) (auto split: if_splits)
qed

lemma digits_nonempty [simp]: "digits b n \<noteq> []"
  by (subst digits.simps) simp

lemma length_digits: "2 \<le> b \<Longrightarrow> n < b ^ k \<Longrightarrow> 0 < k \<Longrightarrow> length (digits b n) \<le> k"
proof (induction b n arbitrary: k rule: digits.induct)
  case (1 b n)
  show ?case
  proof (cases "n < b")
    case True
    then show ?thesis using "1.prems" by (subst digits.simps) auto
  next
    case False
    then have k: "1 < k" using "1.prems" by (cases k; cases "k - 1") auto
    then have "n div b < b ^ (k - 1)"
      using "1.prems" by (cases k) (auto simp: less_mult_imp_div_less mult.commute)
    then have "length (digits b (n div b)) \<le> k - 1" using "1.IH" "1.prems"(1) False k by simp
    then show ?thesis using False k "1.prems"(1) by (subst digits.simps) simp
  qed
qed

definition dec_digit :: "nat \<Rightarrow> u8" where "dec_digit d = 48 + of_nat d"

definition decimal :: "nat \<Rightarrow> u8 list" where "decimal n = map dec_digit (digits 10 n)"

definition dec_text :: "int \<Rightarrow> u8 list" where
  "dec_text n = (if n < 0 then 45 # decimal (nat (- n)) else decimal (nat n))"

definition hexadecimal :: "nat \<Rightarrow> u8 list" where
  "hexadecimal n = map ((!) digits_16) (digits 16 n)"

lemma unat_dec_digit: "d < 10 \<Longrightarrow> unat (dec_digit d) = 48 + d"
  unfolding dec_digit_def by (subst unat_add_lem [THEN iffD1]) (simp_all add: unat_of_nat)

lemma decimal_chars: "c \<in> set (decimal n) \<Longrightarrow> 48 \<le> unat c \<and> unat c \<le> 57"
  using digits_range [of 10 _ n] by (fastforce simp: decimal_def unat_dec_digit)

lemma decimal_nonzero: "0 \<notin> set (decimal n)"
  using decimal_chars by fastforce

text \<open>The loops store the digits least significant first.\<close>

lemma put_append [simp]: "put (xs @ y # ys) (length xs) v = Some (xs @ v # ys)"
  by (simp add: put_def)

lemma itos_loop_spec:
  assumes "length (digits 10 n) \<le> length r" "length xs = i"
  shows "itos_loop n i (xs @ r) = Some (i + length (digits 10 n),
      xs @ rev (decimal n) @ drop (length (digits 10 n)) r)"
  using assms
proof (induction n arbitrary: i xs r rule: less_induct)
  case (less n)
  obtain c r' where r: "r = c # r'" using less.prems by (cases r) auto
  show ?case
  proof (cases "n < 10")
    case True
    then have "digits 10 n = [n]" by (subst digits.simps) simp
    then show ?thesis using True less.prems
      by (subst itos_loop.simps) (auto simp: r decimal_def dec_digit_def)
  next
    case False
    have d: "digits 10 n = digits 10 (n div 10) @ [n mod 10]" using False by (subst digits.simps) simp
    let ?c = "48 + of_nat (n mod 10) :: u8"
    have "itos_loop (n div 10) (Suc i) ((xs @ [?c]) @ r') = Some (Suc i + length (digits 10 (n div 10)),
        (xs @ [?c]) @ rev (decimal (n div 10)) @ drop (length (digits 10 (n div 10))) r')"
      by (rule less.IH) (use False less.prems d r in auto)
    then show ?thesis using False less.prems
      by (subst itos_loop.simps) (auto simp: r d decimal_def dec_digit_def)
  qed
qed

lemma itos_print:
  assumes n: "INT_MIN < n" "n < 2147483648" and buf: "12 \<le> length buf"
  shows "\<exists>out. itos buf n = Some out \<and> length out = length buf \<and> terminated out
    \<and> text_of out = dec_text n"
proof -
  define m where "m = nat \<bar>n\<bar>"
  let ?ds = "digits 10 m"
  have "m < 10 ^ 10" using n by (simp add: m_def INT_MIN_def)
  then have len: "length ?ds \<le> 10" by (intro length_digits) auto
  have loop: "itos_loop m 0 buf = Some (length ?ds, rev (decimal m) @ drop (length ?ds) buf)"
    using itos_loop_spec [of m buf "[]" 0] len buf by simp
  obtain c c' r where r: "drop (length ?ds) buf = c # c' # r"
    using len buf by (cases "drop (length ?ds) buf"; cases "tl (drop (length ?ds) buf)")
      (auto dest: arg_cong [of _ _ length])
  have ll: "length (rev (decimal m)) = length ?ds" by (simp add: decimal_def)
  have chk: "n < 0 \<Longrightarrow> chk32 (- n) = Some (int m)" using n by (simp add: chk32_def INT_MIN_def m_def)
  have lb: "length ?ds + 2 + length r = length buf"
    using r by (metis add.commute add_2_eq_Suc' add_Suc_shift append_take_drop_id length_Cons length_append length_drop
      le_add_diff_inverse nat_le_linear drop_all list.distinct(1))
  show ?thesis
  proof (cases "n < 0")
    case True
    let ?s = "(rev (decimal m) @ [45]) @ 0 # r"
    have nz: "0 \<notin> set (rev (decimal m) @ [45])" using decimal_nonzero by simp
    have "itos buf n = strrev ?s"
      using True loop ll put_append [of "rev (decimal m)" c "c' # r" 45]
        put_append [of "rev (decimal m) @ [45]" c' r 0]
      by (simp add: itos_def chk r m_def [symmetric])
    moreover have "terminated ?s" by (simp add: terminated_def)
    ultimately have "itos buf n = Some ((45 # decimal m) @ 0 # r)"
      using text_of_append [OF nz, of r] by (simp add: strrev_text ll)
    moreover have "text_of ((45 # decimal m) @ 0 # r) = 45 # decimal m"
      by (rule text_of_append) (simp add: decimal_nonzero)
    ultimately show ?thesis using True ll lb
      by (auto simp: dec_text_def m_def terminated_def decimal_def)
  next
    case False
    let ?s = "rev (decimal m) @ 0 # c' # r"
    have nz: "0 \<notin> set (rev (decimal m))" using decimal_nonzero by simp
    have nm: "nat n = m" using False by (simp add: m_def)
    have "itos buf n = strrev ?s"
      using False loop ll put_append [of "rev (decimal m)" c "c' # r" 0]
      by (simp add: itos_def r nm)
    moreover have "terminated ?s" by (simp add: terminated_def)
    ultimately have "itos buf n = Some (decimal m @ 0 # c' # r)"
      using text_of_append [OF nz, of "c' # r"] by (simp add: strrev_text ll)
    moreover have "text_of (decimal m @ 0 # c' # r) = decimal m"
      by (rule text_of_append) (simp add: decimal_nonzero)
    ultimately show ?thesis using False ll lb
      by (auto simp: dec_text_def m_def terminated_def decimal_def)
  qed
qed

lemma itos_int_min: "itos buf INT_MIN = None"
  by (simp add: itos_def INT_MIN_def chk32_def)

lemma foldl_value: "foldl (\<lambda>v d. b * v + d) r ds = b ^ length ds * r + value_of b ds" for b r :: nat
  unfolding value_of_def
proof (induction ds arbitrary: r)
  case (Cons d ds)
  show ?case unfolding foldl.simps Cons.IH [of "b * r + d"] Cons.IH [of "b * 0 + d"]
    by (simp add: algebra_simps)
qed simp

text \<open>Reading digits back, from an accumulated result \<open>r\<close>.\<close>

lemma stoi_loop_digits:
  assumes "\<forall>d\<in>set ds. d < 10" "foldl (\<lambda>v d. 10 * v + d) r ds < 2147483648"
  shows "stoi_loop (int r) (map dec_digit ds @ t)
     = stoi_loop (int (foldl (\<lambda>v d. 10 * v + d) r ds)) t"
  using assms
proof (induction ds arbitrary: r)
  case (Cons d ds)
  have mono: "v \<le> foldl (\<lambda>v d. 10 * v + d) v ds" for v :: nat
    unfolding foldl_value using mult_le_mono1 [of 1 "10 ^ length ds" v] by (intro trans_le_add1) simp
  have d: "d < 10" using Cons.prems(1) by simp
  have lt: "10 * r + d < 2147483648" using Cons.prems(2) mono [of "10 * r + d"] by simp
  have "(48::u8) \<le> dec_digit d" "dec_digit d \<le> 57"
    using unat_dec_digit [OF d] d by (simp_all add: word_le_nat_alt)
  then have "stoi_loop (int r) (map dec_digit (d # ds) @ t)
      = stoi_loop (int (10 * r + d)) (map dec_digit ds @ t)"
    using lt d by (simp add: unat_dec_digit chk32_def INT_MIN_def algebra_simps)
  then show ?case using Cons.IH [of "10 * r + d"] Cons.prems by simp
qed simp

lemma stoi_reads:
  assumes "terminated s" "text_of s = dec_text n" "INT_MIN < n" "n < 2147483648"
  shows "stoi s = Some n"
proof -
  obtain r where s: "s = dec_text n @ 0 # r" using terminated_split [OF assms(1)] assms(2) by auto
  define m where "m = nat \<bar>n\<bar>"
  have m: "m < 2147483648" using assms(3,4) by (simp add: m_def INT_MIN_def)
  have v: "foldl (\<lambda>v d. 10 * v + d) 0 (digits 10 m) = m"
    using value_of_digits [of 10 m] by (simp add: value_of_def)
  have rd: "stoi_loop 0 (decimal m @ 0 # r) = Some (int m)"
    using stoi_loop_digits [of "digits 10 m" 0 "0 # r"] digits_range [of 10 _ m] m v
    by (simp add: decimal_def)
  show ?thesis
  proof (cases "n < 0")
    case True
    then show ?thesis using rd s m
      by (simp add: stoi_def dec_text_def get_def m_def chk32_def INT_MIN_def)
  next
    case False
    then have nm: "nat n = m" "int m = n" by (simp_all add: m_def)
    obtain c ds where c: "decimal m = c # ds" by (cases "decimal m") (auto simp: decimal_def)
    then have "c \<noteq> 45" using decimal_chars [of c m] by fastforce
    then show ?thesis using rd s m c nm False
      by (simp add: stoi_def dec_text_def get_def chk32_def INT_MIN_def)
  qed
qed

text \<open>\<^verbatim>\<open>itos\<close> into a buffer of 12 bytes prints every \<open>int\<close> except the least
  one in decimal, and \<^verbatim>\<open>stoi\<close> reads the number back; for the least one the negation
  overflows.\<close>

theorem itos_stoi_roundtrip:
  assumes "INT_MIN < n" "n < 2147483648" "12 \<le> length buf"
  shows "\<exists>out. itos buf n = Some out \<and> length out = length buf \<and> text_of out = dec_text n
     \<and> stoi out = Some n \<and> itos buf INT_MIN = None"
  using itos_print [OF assms] stoi_reads assms itos_int_min by blast

theorem itos_stoi_roundtrip_witness:
  "\<exists>out. itos (replicate 12 0) (- 305) = Some out \<and> stoi out = Some (- 305)"
  using itos_stoi_roundtrip [of "- 305" "replicate 12 0"] by (auto simp: INT_MIN_def)

text \<open>Hexadecimal.\<close>

lemma smod16: "0 \<le> n \<Longrightarrow> n smod 16 = n mod 16" "0 \<le> n \<Longrightarrow> n sdiv 16 = n div 16" for n :: int
  by (simp_all add: signed_modulo_int_def signed_divide_int_def sgn_if minus_div_mult_eq_mod)

lemma itohs_loop_spec:
  assumes "length (digits 16 n) \<le> length r" "length xs = i"
  shows "itohs_loop (int n) i (xs @ r) = Some (i + length (digits 16 n),
      xs @ rev (hexadecimal n) @ drop (length (digits 16 n)) r)"
  using assms
proof (induction n arbitrary: i xs r rule: less_induct)
  case (less n)
  obtain c r' where r: "r = c # r'" using less.prems by (cases r) auto
  have m: "int n smod 16 = int (n mod 16)" "int n sdiv 16 = int (n div 16)"
    by (simp_all add: smod16 zmod_int zdiv_int)
  have g: "get digits_16 (n mod 16) = Some (digits_16 ! (n mod 16))"
    by (simp add: get_def digits_16_def)
  show ?case
  proof (cases "n < 16")
    case True
    then have "digits 16 n = [n]" by (subst digits.simps) simp
    then show ?thesis using True less.prems g
      by (subst itohs_loop.simps) (auto simp: r hexadecimal_def m)
  next
    case False
    have d: "digits 16 n = digits 16 (n div 16) @ [n mod 16]" using False by (subst digits.simps) simp
    let ?c = "digits_16 ! (n mod 16)"
    have "itohs_loop (int (n div 16)) (Suc i) ((xs @ [?c]) @ r') = Some (Suc i + length (digits 16 (n div 16)),
        (xs @ [?c]) @ rev (hexadecimal (n div 16)) @ drop (length (digits 16 (n div 16))) r')"
      by (rule less.IH) (use False less.prems d r in auto)
    then show ?thesis using False less.prems g
      by (subst itohs_loop.simps) (auto simp: r d hexadecimal_def m)
  qed
qed

lemma hexadecimal_nonzero: "0 \<notin> set (hexadecimal n)"
proof -
  have "digits_16 ! d \<noteq> 0" if "d < 16" for d
  proof -
    have "digits_16 ! d \<in> set digits_16" using that by (intro nth_mem) (simp add: digits_16_def)
    then show ?thesis by (auto simp: digits_16_def)
  qed
  then show ?thesis using digits_range [of 16 _ n] by (fastforce simp: hexadecimal_def)
qed

lemma itohs_eq:
  assumes "12 \<le> length buf" and n: "0 \<le> n \<and> n < 2147483648"
  shows "itohs buf n = Some ([48, 88] @ hexadecimal (nat n) @ 0 # drop (Suc (length (hexadecimal (nat n)))) (drop 2 buf))"
    "length (hexadecimal (nat n)) \<le> 8"
proof -
  define m where "m = nat n"
  then have "m < 16 ^ 8" using n by (simp add: nat_less_iff)
  then have len: "length (digits 16 m) \<le> 8" by (intro length_digits) auto
  let ?d = "length (digits 16 m)"
  have loop: "itohs_loop n 0 (replicate 20 0)
      = Some (?d, rev (hexadecimal m) @ replicate (20 - ?d) 0)"
    using itohs_loop_spec [of m "replicate 20 0" "[]" 0] len n by (simp add: m_def)
  have ll: "length (rev (hexadecimal m)) = ?d" by (simp add: hexadecimal_def)
  obtain k where k: "20 - ?d = Suc k" using len by (cases "20 - ?d") auto
  have nz: "0 \<notin> set (rev (hexadecimal m))" using hexadecimal_nonzero by simp
  have rv: "strrev (rev (hexadecimal m) @ 0 # replicate k 0) = Some (hexadecimal m @ 0 # replicate k 0)"
    using text_of_append [OF nz, of "replicate k 0"] by (simp add: strrev_text terminated_def ll)
  obtain a b r where b: "buf = a # b # r" "10 \<le> length r"
    using assms by (cases buf; cases "tl buf") auto
  have "text_of (hexadecimal m @ 0 # q) = hexadecimal m" for q
    by (rule text_of_append) (simp add: hexadecimal_nonzero)
  then have "strcpy r (hexadecimal m @ 0 # replicate k 0) = Some (hexadecimal m @ 0 # drop (Suc ?d) r)"
    using len b(2) ll by (simp add: strcpy_text terminated_def)
  moreover have "put (rev (hexadecimal m) @ replicate (20 - ?d) 0) ?d 0
      = Some (rev (hexadecimal m) @ 0 # replicate k 0)"
    using put_append [of "rev (hexadecimal m)" 0 "replicate k 0" 0] ll k by simp
  ultimately have "itohs buf n = Some ([48, 88] @ hexadecimal m @ 0 # drop (Suc ?d) r)"
    using loop rv by (simp add: itohs_def b put_def)
  then show "itohs buf n = Some ([48, 88] @ hexadecimal (nat n) @ 0 # drop (Suc (length (hexadecimal (nat n)))) (drop 2 buf))"
    using ll b(1) by (simp add: m_def)
  show "length (hexadecimal (nat n)) \<le> 8" using len ll by (simp add: m_def)
qed

text \<open>\<^verbatim>\<open>itohs\<close> prints a non-negative \<open>int\<close> as \<open>0X\<close> and its hexadecimal
  digits; for a negative one, as every address above 2 GB is, it reads before the start of the
  digit table unless the number is a multiple of 16.\<close>

theorem itohs_prints:
  assumes "12 \<le> length buf"
  shows "(0 \<le> n \<and> n < 2147483648 \<longrightarrow> (\<exists>out. itohs buf n = Some out
            \<and> text_of out = [48, 88] @ hexadecimal (nat n) \<and> value_of 16 (digits 16 (nat n)) = nat n))
       \<and> (n < 0 \<and> n mod 16 \<noteq> 0 \<longrightarrow> itohs buf n = None)"
proof (intro conjI impI)
  assume n: "0 \<le> n \<and> n < 2147483648"
  have "text_of (([48, 88] @ hexadecimal (nat n)) @ 0 # q) = [48, 88] @ hexadecimal (nat n)" for q
    by (rule text_of_append) (simp add: hexadecimal_nonzero)
  then show "\<exists>out. itohs buf n = Some out \<and> text_of out = [48, 88] @ hexadecimal (nat n)
      \<and> value_of 16 (digits 16 (nat n)) = nat n"
    using itohs_eq [OF assms n] by (simp add: value_of_digits)
next
  assume n: "n < 0 \<and> n mod 16 \<noteq> 0"
  have "n smod 16 = - ((- n) mod 16)"
    using n by (simp add: signed_modulo_int_def signed_divide_int_def sgn_if minus_div_mult_eq_mod
        minus_mod_eq_div_mult [symmetric] algebra_simps)
  moreover have "0 < (- n) mod 16"
    using n by (metis less_le mod_0_imp_dvd dvd_minus_iff dvd_imp_mod_0 pos_mod_sign zero_less_numeral)
  ultimately show "itohs buf n = None" by (simp add: itohs_def itohs_loop.simps)
qed

theorem itohs_prints_witness:
  "itohs (replicate 12 0) (- 1) = None \<and> (\<exists>out. itohs (replicate 12 0) 255 = Some out)"
  using itohs_prints [of "replicate 12 0" "- 1"] itohs_prints [of "replicate 12 0" 255] by auto

section \<open>Tokens\<close>

text \<open>The maximal pieces of a text without the delimiter.\<close>

function pieces :: "u8 \<Rightarrow> u8 list \<Rightarrow> u8 list list" where
  "pieces d xs =
     (let r = dropWhile (\<lambda>c. c = d) xs in
      if r = [] then [] else takeWhile (\<lambda>c. c \<noteq> d) r # pieces d (dropWhile (\<lambda>c. c \<noteq> d) r))"
  by pat_completeness auto
termination
proof (relation "measure (length \<circ> snd)")
  fix d :: u8 and xs r :: "u8 list"
  assume r: "r = dropWhile (\<lambda>c. c = d) xs" "r \<noteq> []"
  then have "hd r \<noteq> d" using hd_dropWhile [of "\<lambda>c. c = d" xs] by auto
  then have "length (dropWhile (\<lambda>c. c \<noteq> d) r) < length r"
    using r(2) by (cases r) (auto intro: le_imp_less_Suc length_dropWhile_le)
  also have "length r \<le> length xs" unfolding r(1) by (rule length_dropWhile_le)
  finally show "((d, dropWhile (\<lambda>c. c \<noteq> d) r), d, xs) \<in> measure (length \<circ> snd)" by simp
qed simp

declare pieces.simps [simp del]

text \<open>The calling pattern of the programs: the first call with the string, the next ones with
  NULL, until NULL comes back; \<open>n\<close> bounds the calls.\<close>

fun strtok_all :: "nat \<Rightarrow> u8 list \<Rightarrow> u8 list option \<Rightarrow> u8 \<Rightarrow> u8 list option \<Rightarrow> u8 list list option" where
  "strtok_all 0 dest str delim tok = None"
| "strtok_all (Suc n) dest str delim tok =
     do {
       (dest, found, tok) \<leftarrow> strtok dest str delim tok;
       if found then map_option ((#) (text_of dest)) (strtok_all n dest None delim tok) else Some []
     }"

lemma skip_delim_text:
  assumes "0 \<notin> set xs" "d \<noteq> 0"
  shows "skip_delim d (xs @ 0 # r) = Some (dropWhile (\<lambda>c. c = d) xs @ 0 # r)"
  using assms by (induction xs) auto

lemma copy_token_text:
  assumes "0 \<notin> set xs" "length pre = i" "length (takeWhile (\<lambda>c. c \<noteq> d) xs) < length q"
  shows "copy_token d (xs @ 0 # r) i (pre @ q) =
     Some (i + length (takeWhile (\<lambda>c. c \<noteq> d) xs),
       pre @ takeWhile (\<lambda>c. c \<noteq> d) xs @ drop (length (takeWhile (\<lambda>c. c \<noteq> d) xs)) q,
       dropWhile (\<lambda>c. c \<noteq> d) xs @ 0 # r)"
  using assms
proof (induction xs arbitrary: i pre q)
  case (Cons c xs)
  obtain a q' where q: "q = a # q'" using Cons.prems(3) by (cases q) (auto split: if_splits)
  show ?case
    using Cons.IH [of "pre @ [c]" "Suc i" q'] Cons.prems q put_append [of pre a q' c] by auto
qed simp

lemma strtok_step:
  assumes "0 \<notin> set xs" "d \<noteq> 0"
    "length (takeWhile (\<lambda>c. c \<noteq> d) (dropWhile (\<lambda>c. c = d) xs)) < length dest"
    and "(case str of Some s \<Rightarrow> Some s | None \<Rightarrow> tok) = Some (xs @ 0 # r)"
  defines "ys \<equiv> dropWhile (\<lambda>c. c = d) xs"
  shows "\<exists>dest'. strtok dest str d tok = Some (dest', ys \<noteq> [],
       Some (drop 1 (dropWhile (\<lambda>c. c \<noteq> d) ys) @ 0 # r))
     \<and> length dest' = length dest \<and> text_of dest' = takeWhile (\<lambda>c. c \<noteq> d) ys"
proof -
  have tk: "(if str \<noteq> None then str else tok) = Some (xs @ 0 # r)" using assms(4) by (cases str) auto
  show ?thesis
  proof (cases "xs = []")
    case True
    obtain a q where "dest = a # q" using assms(3) by (cases dest) auto
    then show ?thesis unfolding strtok_def tk using True
      by (simp add: ys_def get_def put_def)
  next
    case False
    let ?t = "takeWhile (\<lambda>c. c \<noteq> d) ys" and ?u = "dropWhile (\<lambda>c. c \<noteq> d) ys"
    obtain c xs' where xs: "xs = c # xs'" "c \<noteq> 0" using False assms(1) by (cases xs) auto
    have ys: "0 \<notin> set ys" using assms(1) set_dropWhileD [of 0 _ xs] unfolding ys_def by blast
    have lt: "length ?t < length dest" using assms(3) by (simp add: ys_def)
    have ct: "copy_token d (ys @ 0 # r) 0 dest = Some (length ?t, ?t @ drop (length ?t) dest, ?u @ 0 # r)"
      using copy_token_text [of ys "[]" 0 d dest r] ys lt by simp
    obtain a q where q: "drop (length ?t) dest = a # q"
      using lt by (cases "drop (length ?t) dest") auto
    have zt: "0 \<notin> set ?t" using ys set_takeWhileD [of 0 _ ys] by blast
    have zu: "0 \<notin> set ?u" using ys set_dropWhileD [of 0 _ ys] by blast
    have "ys \<noteq> [] \<Longrightarrow> hd ys \<noteq> d"
      using hd_dropWhile [of "\<lambda>c. c = d" xs] unfolding ys_def by blast
    then have nt: "(0 < length ?t) = (ys \<noteq> [])" by (cases ys) auto
    have g: "get (u @ 0 # r) 0 = Some (hd (u @ [0]))" for u by (cases u) (simp_all add: get_def)
    define u where "u = ?u"
    have nx: "(if hd (?u @ [0]) \<noteq> 0 then drop 1 (?u @ 0 # r) else ?u @ 0 # r) = drop 1 ?u @ 0 # r"
      using zu unfolding u_def [symmetric] by (cases u) auto
    have c0: "(hd (xs @ [0]) = 0) = False" using xs by simp
    have sk: "skip_delim d (xs @ 0 # r) = Some (ys @ 0 # r)"
      unfolding ys_def by (rule skip_delim_text [OF assms(1,2)])
    have pt: "put (?t @ drop (length ?t) dest) (length ?t) 0 = Some (?t @ 0 # q)"
      unfolding q by (rule put_append)
    have "strtok dest str d tok = Some (?t @ 0 # q, 0 < length ?t,
        Some (if hd (?u @ [0]) \<noteq> 0 then drop 1 (?u @ 0 # r) else ?u @ 0 # r))"
      unfolding strtok_def tk by (simp only: Let_def option.case c0 sk ct pt g bind.bind_lunit
          Option.bind.simps prod.case if_False)
    then have "strtok dest str d tok = Some (?t @ 0 # q, ys \<noteq> [], Some (drop 1 ?u @ 0 # r))"
      unfolding nt nx .
    moreover have "length (?t @ 0 # q) = length dest"
      using arg_cong [OF q, of length] lt by simp
    ultimately show ?thesis using text_of_append [OF zt] by blast
  qed
qed

lemma pieces_drop1:
  assumes "ys = dropWhile (\<lambda>c. c = d) xs" "ys \<noteq> []"
  shows "pieces d xs = takeWhile (\<lambda>c. c \<noteq> d) ys # pieces d (drop 1 (dropWhile (\<lambda>c. c \<noteq> d) ys))"
proof -
  have delim: "pieces d (d # v) = pieces d v" for v
    by (simp only: pieces.simps [of d "d # v"] pieces.simps [of d v] dropWhile.simps refl if_True)
  define u where "u = dropWhile (\<lambda>c. c \<noteq> d) ys"
  have "u \<noteq> [] \<Longrightarrow> hd u = d" using hd_dropWhile [of "\<lambda>c. c \<noteq> d" ys] by (simp add: u_def)
  then have "pieces d u = pieces d (drop 1 u)" by (cases u) (simp_all add: delim)
  moreover have "pieces d xs = takeWhile (\<lambda>c. c \<noteq> d) ys # pieces d u"
    using assms unfolding u_def by (subst pieces.simps) (simp add: Let_def)
  ultimately show ?thesis by (simp add: u_def)
qed

lemma strtok_all_pieces:
  assumes "0 \<notin> set xs" "d \<noteq> 0" "length xs < length dest" "length xs < n"
    and "(case str of Some s \<Rightarrow> Some s | None \<Rightarrow> tok) = Some (xs @ 0 # r)"
  shows "strtok_all n dest str d tok = Some (pieces d xs)"
  using assms
proof (induction n arbitrary: xs dest str tok)
  case (Suc n)
  let ?ys = "dropWhile (\<lambda>c. c = d) xs"
  let ?v = "drop 1 (dropWhile (\<lambda>c. c \<noteq> d) ?ys)"
  have "length (takeWhile (\<lambda>c. c \<noteq> d) ?ys) < length dest"
    by (rule le_less_trans [OF le_trans [OF length_takeWhile_le length_dropWhile_le] Suc.prems(3)])
  then obtain dest' where st: "strtok dest str d tok = Some (dest', ?ys \<noteq> [], Some (?v @ 0 # r))"
      "length dest' = length dest" "text_of dest' = takeWhile (\<lambda>c. c \<noteq> d) ?ys"
    using strtok_step [OF Suc.prems(1,2) _ Suc.prems(5)] by blast
  show ?case
  proof (cases "?ys = []")
    case True
    have "pieces d xs = []" unfolding pieces.simps [of d xs] Let_def True by simp
    then show ?thesis unfolding strtok_all.simps st(1) True by simp
  next
    case False
    have ne: "xs \<noteq> []" using False by auto
    have l1: "length (dropWhile (\<lambda>c. c \<noteq> d) ?ys) \<le> length xs"
      by (rule le_trans [OF length_dropWhile_le length_dropWhile_le])
    then have lv: "length ?v < length xs"
      unfolding length_drop using ne length_greater_0_conv [of xs] by linarith
    have "0 \<notin> set ?v"
      using Suc.prems(1) by (blast dest: in_set_dropD set_dropWhileD)
    then have "strtok_all n dest' None d (Some (?v @ 0 # r)) = Some (pieces d ?v)"
      by (intro Suc.IH) (use Suc.prems(2,3,4) lv st(2) in simp_all)
    then show ?thesis
      unfolding strtok_all.simps st(1) pieces_drop1 [OF refl False] using False st(3) by simp
  qed
qed simp

text \<open>called with a string and then with NULL until it returns NULL,
  \<^verbatim>\<open>strtok\<close> yields exactly the maximal delimiter-free pieces of the text in order,
  runs of delimiters counting as one.\<close>

theorem strtok_yields_pieces:
  assumes "terminated s" "d \<noteq> 0" "length (text_of s) < length dest"
  shows "strtok_all (Suc (length (text_of s))) dest (Some s) d tok = Some (pieces d (text_of s))"
proof -
  obtain r where s: "s = text_of s @ 0 # r" using terminated_split [OF assms(1)] by blast
  show ?thesis
    by (rule strtok_all_pieces [OF text_of_nonzero assms(2,3)]) (use s in auto)
qed

theorem strtok_yields_pieces_witness:
  "strtok_all 7 (replicate 8 0) (Some [32, 97, 32, 32, 98, 99, 0]) 32 None
     = Some [[97], [98, 99]]"
proof -
  let ?s = "[32, 97, 32, 32, 98, 99, 0] :: u8 list"
  have "strtok_all (Suc (length (text_of ?s))) (replicate 8 0) (Some ?s) 32 None
      = Some (pieces 32 (text_of ?s))"
    by (rule strtok_yields_pieces) simp_all
  moreover have "Suc (length (text_of ?s)) = 7" by simp
  moreover have "pieces 32 (text_of ?s) = [[97], [98, 99]]" by (simp add: pieces.simps)
  ultimately show ?thesis by (simp only:)
qed

section \<open>Memory\<close>

lemma copy_bytes_spec:
  "copy_bytes n d s = (if n \<le> length d \<and> n \<le> length s then Some (take n s @ drop n d) else None)"
  by (induction n d s rule: copy_bytes.induct) auto

lemma copy_dwords_spec:
  "copy_dwords n d s = (if 4 * n \<le> length d \<and> 4 * n \<le> length s
     then Some (take (4 * n) s @ drop (4 * n) d) else None)"
proof (induction n d s rule: copy_dwords.induct)
  case (2 n d0 d1 d2 d3 ds s0 s1 s2 s3 ss)
  have "4 * Suc n = Suc (Suc (Suc (Suc (4 * n))))" by simp
  then show ?case using 2 by (simp only:) auto
qed auto

text \<open>\<^verbatim>\<open>memcpy\<close>, double words first and then the one to three bytes left, copies
  exactly the first \<open>n\<close> bytes, and faults exactly when one of the buffers is shorter.\<close>

theorem memcpy_copies:
  "memcpy dest src n =
     (if n \<le> length dest \<and> n \<le> length src then Some (take n src @ drop n dest) else None)"
proof -
  have "memcpy dest src (4 * q + k)
      = (if 4 * q + k \<le> length dest \<and> 4 * q + k \<le> length src
         then Some (take (4 * q + k) src @ drop (4 * q + k) dest) else None)" if "k < 4" for q k
  proof -
    have "(4 * q + k) div 4 = q" "(4 * q + k) mod 4 = k" using that by simp_all
    then show ?thesis
      by (auto simp: memcpy_def copy_dwords_spec copy_bytes_spec take_add add.commute [of k])
  qed
  from this [of "n mod 4" "n div 4"] show ?thesis by simp
qed

lemma memset_spec:
  "memset d v n = (if n \<le> length d then Some (replicate n v @ drop n d) else None)"
  by (induction d v n rule: memset.induct) auto

lemma memcmp_spec:
  assumes "n \<le> length p1" "n \<le> length p2"
  shows "memcmp p1 p2 n = Some (if take n p1 = take n p2 then 0 else -1)"
  using assms by (induction p1 p2 n rule: memcmp.induct) auto

end
