(* ===== verification/Descriptors.thy ===== *)
theory Descriptors
  imports Prelude
begin

text \<open>
  What the processor reads before the kernel runs: the segment descriptors of \<^verbatim>\<open>cpu/gdt.c\<close>,
  the interrupt gates of \<^verbatim>\<open>cpu/idt.c\<close>, and the interrupt controllers that
  \<^verbatim>\<open>remap_pic\<close> and \<^verbatim>\<open>load_idtp\<close> program. How the processor takes a descriptor
  apart, and what the two 8259 controllers do with the bytes written to them, is their documented
  behaviour. The addresses of the assembly stubs are an argument, by vector.
\<close>

unbundle bit_operations_syntax

section \<open>Segment descriptors\<close>

definition GDT_NULL :: nat where "GDT_NULL = 0"
definition GDT_KERNEL_CODE :: nat where "GDT_KERNEL_CODE = 1"
definition GDT_KERNEL_DATA :: nat where "GDT_KERNEL_DATA = 2"
definition GDT_USER_CODE :: nat where "GDT_USER_CODE = 3"
definition GDT_USER_DATA :: nat where "GDT_USER_DATA = 4"
definition GDT_TSS :: nat where "GDT_TSS = 5"

definition GDT_ENTRY_SIZE :: nat where "GDT_ENTRY_SIZE = 8"
definition KERNEL_CODE_SEGMENT :: u16 where "KERNEL_CODE_SEGMENT = of_nat (GDT_KERNEL_CODE * GDT_ENTRY_SIZE)"
definition KERNEL_DATA_SEGMENT :: u16 where "KERNEL_DATA_SEGMENT = of_nat (GDT_KERNEL_DATA * GDT_ENTRY_SIZE)"
definition KERNEL_STACK_ADDRESS :: u32 where "KERNEL_STACK_ADDRESS = 0x90000"

record gdt_entry =
  limit_low :: u16
  g_base_low :: u16
  base_mid :: u8
  access :: u8
  granularity :: u8
  g_base_high :: u8

definition gdt_set_gate :: "nat \<Rightarrow> u32 \<Rightarrow> u32 \<Rightarrow> u8 \<Rightarrow> u8 \<Rightarrow> gdt_entry list \<Rightarrow> gdt_entry list option" where
  "gdt_set_gate num base limit acc flags gdt =
     (if num < length gdt then Some (gdt[num :=
        \<lparr>limit_low = ucast (limit AND 0xFFFF), g_base_low = ucast (base AND 0xFFFF),
         base_mid = ucast (drop_bit 16 base AND 0xFF), access = acc,
         granularity = ucast (drop_bit 16 limit AND 0x0F) OR push_bit 4 flags,
         g_base_high = ucast (drop_bit 24 base AND 0xFF)\<rparr>])
      else None)"

text \<open>The fields of the task state segment that the kernel sets; the others stay 0.\<close>

record tss_entry =
  tss_esp0 :: u32
  tss_ss0 :: u32

definition sizeof_tss :: u32 where "sizeof_tss = 104"

definition init_gdt :: "u32 \<Rightarrow> gdt_entry list \<Rightarrow> (gdt_entry list \<times> tss_entry) option" where
  "init_gdt tss_address gdt =
     do {
       gdt \<leftarrow> gdt_set_gate GDT_NULL 0 0 0x00 0x0 gdt;
       gdt \<leftarrow> gdt_set_gate GDT_KERNEL_CODE 0 0xFFFFF 0x9A 0xC gdt;
       gdt \<leftarrow> gdt_set_gate GDT_KERNEL_DATA 0 0xFFFFF 0x92 0xC gdt;
       gdt \<leftarrow> gdt_set_gate GDT_USER_CODE 0 0xFFFFF 0xFA 0xC gdt;
       gdt \<leftarrow> gdt_set_gate GDT_USER_DATA 0 0xFFFFF 0xF2 0xC gdt;
       gdt \<leftarrow> gdt_set_gate GDT_TSS tss_address (sizeof_tss - 1) 0x89 0x0 gdt;
       Some (gdt, \<lparr>tss_esp0 = KERNEL_STACK_ADDRESS, tss_ss0 = ucast KERNEL_DATA_SEGMENT\<rparr>)
     }"

definition set_kernel_stack :: "u32 \<Rightarrow> tss_entry \<Rightarrow> tss_entry" where
  "set_kernel_stack stack t = t\<lparr>tss_esp0 := stack\<rparr>"

text \<open>How the processor reads a descriptor.\<close>

definition seg_base :: "gdt_entry \<Rightarrow> u32" where
  "seg_base e = ucast (g_base_low e) OR push_bit 16 (ucast (base_mid e)) OR push_bit 24 (ucast (g_base_high e))"

definition seg_raw_limit :: "gdt_entry \<Rightarrow> u32" where
  "seg_raw_limit e = ucast (limit_low e) OR push_bit 16 (ucast (granularity e AND 0x0F))"

definition seg_limit :: "gdt_entry \<Rightarrow> u32" where
  "seg_limit e = (if granularity e AND 0x80 = 0 then seg_raw_limit e else push_bit 12 (seg_raw_limit e) OR 0xFFF)"

definition seg_level :: "gdt_entry \<Rightarrow> nat" where
  "seg_level e = unat (drop_bit 5 (access e) AND 3)"

definition seg_present :: "gdt_entry \<Rightarrow> bool" where
  "seg_present e \<longleftrightarrow> access e AND 0x80 \<noteq> 0"

section \<open>Interrupt gates\<close>

definition IDT_ENTRIES :: nat where "IDT_ENTRIES = 256"
definition IDT_FLAG_INTERRUPT_GATE :: u8 where "IDT_FLAG_INTERRUPT_GATE = 0x8E"
definition RING3_CALL :: u8 where "RING3_CALL = 0xEE"
definition IRQ_TIMER :: u8 where "IRQ_TIMER = 32"
definition IRQ_KEYBOARD :: u8 where "IRQ_KEYBOARD = 33"

record idt_entry =
  base_low :: u16
  selector :: u16
  zero_byte :: u8
  gate_flags :: u8
  base_high :: u16

definition make_gate :: "u32 \<Rightarrow> u16 \<Rightarrow> u8 \<Rightarrow> idt_entry" where
  "make_gate base sel flags = \<lparr>base_low = ucast (base AND 0xFFFF), selector = sel, zero_byte = 0, gate_flags = flags,
     base_high = ucast (drop_bit 16 base AND 0xFFFF)\<rparr>"

definition idt_set_gate :: "u8 \<Rightarrow> u32 \<Rightarrow> u16 \<Rightarrow> u8 \<Rightarrow> idt_entry list \<Rightarrow> idt_entry list" where
  "idt_set_gate num base sel flags idt = idt[unat num := make_gate base sel flags]"

definition init_idtp :: "idt_entry list \<Rightarrow> idt_entry list" where
  "init_idtp idt = fold (\<lambda>i. idt_set_gate (of_nat i) 0 0 0) [0..<IDT_ENTRIES] idt"

definition exception_vectors :: "u8 list" where
  "exception_vectors = [0, 1, 3, 4, 5, 6, 7, 8, 10, 11, 12, 13, 14, 16, 17, 18, 19]"

definition init_exception :: "(u8 \<Rightarrow> u32) \<Rightarrow> idt_entry list \<Rightarrow> idt_entry list" where
  "init_exception stub idt =
     fold (\<lambda>v. idt_set_gate v (stub v) KERNEL_CODE_SEGMENT IDT_FLAG_INTERRUPT_GATE) exception_vectors idt"

definition init_syscall :: "(u8 \<Rightarrow> u32) \<Rightarrow> idt_entry list \<Rightarrow> idt_entry list" where
  "init_syscall stub idt = idt_set_gate 0x80 (stub 0x80) KERNEL_CODE_SEGMENT RING3_CALL idt"

definition keyboard_gate :: "(u8 \<Rightarrow> u32) \<Rightarrow> idt_entry list \<Rightarrow> idt_entry list" where
  "keyboard_gate stub idt = idt_set_gate IRQ_KEYBOARD (stub IRQ_KEYBOARD) KERNEL_CODE_SEGMENT IDT_FLAG_INTERRUPT_GATE idt"

definition mouse_gate :: "(u8 \<Rightarrow> u32) \<Rightarrow> idt_entry list \<Rightarrow> idt_entry list" where
  "mouse_gate stub idt = idt_set_gate 0x2C (stub 0x2C) KERNEL_CODE_SEGMENT IDT_FLAG_INTERRUPT_GATE idt"

definition timer_gate :: "(u8 \<Rightarrow> u32) \<Rightarrow> idt_entry list \<Rightarrow> idt_entry list" where
  "timer_gate stub idt = idt_set_gate IRQ_TIMER (stub IRQ_TIMER) KERNEL_CODE_SEGMENT IDT_FLAG_INTERRUPT_GATE idt"

text \<open>The gates in the order of \<^verbatim>\<open>kernel_main\<close>.\<close>

definition boot_idt :: "(u8 \<Rightarrow> u32) \<Rightarrow> idt_entry list \<Rightarrow> idt_entry list" where
  "boot_idt stub idt =
     init_syscall stub (init_exception stub (timer_gate stub (mouse_gate stub (keyboard_gate stub (init_idtp idt)))))"

definition gate_offset :: "idt_entry \<Rightarrow> u32" where
  "gate_offset g = ucast (base_low g) OR push_bit 16 (ucast (base_high g))"

definition gate_present :: "idt_entry \<Rightarrow> bool" where
  "gate_present g \<longleftrightarrow> gate_flags g AND 0x80 \<noteq> 0"

definition gate_level :: "idt_entry \<Rightarrow> nat" where
  "gate_level g = unat (drop_bit 5 (gate_flags g) AND 3)"

section \<open>The interrupt controllers\<close>

definition PIC1_COMMAND :: u16 where "PIC1_COMMAND = 0x20"
definition PIC1_DATA :: u16 where "PIC1_DATA = 0x21"
definition PIC2_COMMAND :: u16 where "PIC2_COMMAND = 0xA0"
definition PIC2_DATA :: u16 where "PIC2_DATA = 0xA1"
definition PIC_ICW1_INIT :: u8 where "PIC_ICW1_INIT = 0x11"
definition PIC_ICW4_8086 :: u8 where "PIC_ICW4_8086 = 0x01"
definition PIC1_OFFSET :: u8 where "PIC1_OFFSET = 0x20"
definition PIC2_OFFSET :: u8 where "PIC2_OFFSET = 0x28"
definition PIC1_CASCADE :: u8 where "PIC1_CASCADE = 0x04"
definition PIC2_CASCADE :: u8 where "PIC2_CASCADE = 0x02"
definition MASTER_MOUSE_TIMER_KB_MASK :: u8 where "MASTER_MOUSE_TIMER_KB_MASK = 0xF8"
definition SLAVE_MOUSE_MASK :: u8 where "SLAVE_MOUSE_MASK = 0xEF"

text \<open>What is written to the ports; the masks that are read first are arguments.\<close>

definition remap_pic :: "u8 \<Rightarrow> u8 \<Rightarrow> (u16 \<times> u8) list" where
  "remap_pic mask1 mask2 =
     [(PIC1_COMMAND, PIC_ICW1_INIT), (PIC2_COMMAND, PIC_ICW1_INIT),
      (PIC1_DATA, PIC1_OFFSET), (PIC2_DATA, PIC2_OFFSET),
      (PIC1_DATA, PIC1_CASCADE), (PIC2_DATA, PIC2_CASCADE),
      (PIC1_DATA, PIC_ICW4_8086), (PIC2_DATA, PIC_ICW4_8086),
      (PIC1_DATA, mask1), (PIC2_DATA, mask2)]"

definition load_idtp :: "(u16 \<times> u8) list" where
  "load_idtp = [(PIC1_DATA, MASTER_MOUSE_TIMER_KB_MASK), (PIC2_DATA, SLAVE_MOUSE_MASK)]"

text \<open>The last lines of \<^verbatim>\<open>init_mouse\<close>, with the mask that is read.\<close>

definition unmask_mouse :: "u8 \<Rightarrow> (u16 \<times> u8) list" where
  "unmask_mouse m = [(PIC2_DATA, m AND NOT (push_bit 4 1))]"

text \<open>
  An 8259: after the first initialisation word on the command port the data port takes the vector
  offset, the cascade wiring and the mode, and after that the mask.
\<close>

record pic =
  p_offset :: u8
  p_mask :: u8
  p_expect :: nat

definition pic_command :: "u8 \<Rightarrow> pic \<Rightarrow> pic" where
  "pic_command v p = (if v AND 0x10 \<noteq> 0 then p\<lparr>p_expect := 3, p_mask := 0\<rparr> else p)"

definition pic_data :: "u8 \<Rightarrow> pic \<Rightarrow> pic" where
  "pic_data v p =
     (if p_expect p = 0 then p\<lparr>p_mask := v\<rparr>
      else if p_expect p = 3 then p\<lparr>p_offset := v AND 0xF8, p_expect := 2\<rparr>
      else p\<lparr>p_expect := p_expect p - 1\<rparr>)"

definition pic_write :: "u16 \<times> u8 \<Rightarrow> pic \<times> pic \<Rightarrow> pic \<times> pic" where
  "pic_write pv ps =
     (let (port, v) = pv; (p1, p2) = ps in
      if port = PIC1_COMMAND then (pic_command v p1, p2)
      else if port = PIC1_DATA then (pic_data v p1, p2)
      else if port = PIC2_COMMAND then (p1, pic_command v p2)
      else if port = PIC2_DATA then (p1, pic_data v p2)
      else ps)"

definition boot_pics :: "u8 \<Rightarrow> u8 \<Rightarrow> u8 \<Rightarrow> pic \<times> pic \<Rightarrow> pic \<times> pic" where
  "boot_pics m1 m2 m3 ps = fold pic_write (remap_pic m1 m2 @ unmask_mouse m3 @ load_idtp) ps"

definition irq_enabled :: "pic \<times> pic \<Rightarrow> nat \<Rightarrow> bool" where
  "irq_enabled ps irq \<longleftrightarrow>
     (if irq < 8 then \<not> bit (p_mask (fst ps)) irq
      else \<not> bit (p_mask (snd ps)) (irq - 8) \<and> \<not> bit (p_mask (fst ps)) 2)"

definition irq_vector :: "pic \<times> pic \<Rightarrow> nat \<Rightarrow> u8" where
  "irq_vector ps irq = (if irq < 8 then p_offset (fst ps) + of_nat irq else p_offset (snd ps) + of_nat (irq - 8))"

section \<open>Properties\<close>

lemma gdt_set_gate_nth:
  "num < length gdt \<Longrightarrow> gdt_set_gate num base limit acc flags gdt = Some g \<Longrightarrow>
    length g = length gdt \<and> (\<forall>i<length gdt. i \<noteq> num \<longrightarrow> g ! i = gdt ! i)"
  by (auto simp: gdt_set_gate_def)

lemma base_parts:
  "ucast (ucast (base AND 0xFFFF) :: u16) OR push_bit 16 (ucast (ucast (drop_bit 16 base AND 0xFF) :: u8))
    OR push_bit 24 (ucast (ucast (drop_bit 24 base AND 0xFF) :: u8)) = (base :: u32)" (is "?l = _")
proof (rule bit_word_eqI)
  have m: "(0xFFFF::u32) = mask 16" "(0xFF::u32) = mask 8" by (simp_all add: mask_eq_exp_minus_1)
  show "bit ?l n = bit base n" if "n < LENGTH(32)" for n
    using that unfolding m by (cases "n < 16"; cases "n < 24") (auto simp: bit_simps)
qed

lemma gdt_gate_roundtrip_nth:
  assumes "num < length gdt"
  shows "\<exists>g. gdt_set_gate num base limit acc flags gdt = Some g \<and> seg_base (g ! num) = base
    \<and> seg_raw_limit (g ! num) = limit AND 0xFFFFF \<and> access (g ! num) = acc \<and> drop_bit 4 (granularity (g ! num)) = flags AND 0xF"
proof -
  have m: "(0xFFFF::u32) = mask 16" "(0xFF::u32) = mask 8" "(0x0F::u32) = mask 4" "(0xFFFFF::u32) = mask 20" "(0xF::u8) = mask 4"
    by (simp_all add: mask_eq_exp_minus_1)
  have limit: "ucast (ucast (limit AND 0xFFFF) :: u16)
      OR push_bit 16 (ucast ((ucast (drop_bit 16 limit AND 0x0F) OR push_bit 4 flags) AND (0x0F :: u8))) = limit AND 0xFFFFF"
    unfolding m by (rule bit_word_eqI) (auto simp: bit_simps)
  have flags: "drop_bit 4 ((ucast (drop_bit 16 limit AND 0x0F) :: u8) OR push_bit 4 flags) = flags AND 0xF"
    unfolding m by (rule bit_word_eqI) (auto simp: bit_simps)
  show ?thesis
    using assms base_parts limit flags by (simp add: gdt_set_gate_def seg_base_def seg_raw_limit_def)
qed

text \<open>The processor reads back from a descriptor what was put into it: the base, the 20 bits of the
  limit, the access byte and the flags.\<close>

theorem gdt_gate_roundtrip:
  assumes "num < length gdt"
  shows "\<exists>g. gdt_set_gate num base limit acc flags gdt = Some g \<and> seg_base (g ! num) = base
    \<and> seg_raw_limit (g ! num) = limit AND 0xFFFFF \<and> access (g ! num) = acc \<and> drop_bit 4 (granularity (g ! num)) = flags AND 0xF"
  by (rule gdt_gate_roundtrip_nth [OF assms])

text \<open>The table of \<^verbatim>\<open>init_gdt\<close> gives kernel and user flat segments over all 4 GB, the kernel's at
  privilege level 0 and the user's at 3, and the task state segment starts at its address and
  names a kernel stack at 0x90000.\<close>

theorem init_gdt_flat:
  assumes "length gdt = 6"
  shows "\<exists>g t. init_gdt tss gdt = Some (g, t)
    \<and> (\<forall>i\<in>{GDT_KERNEL_CODE, GDT_KERNEL_DATA, GDT_USER_CODE, GDT_USER_DATA}.
         seg_present (g ! i) \<and> seg_base (g ! i) = 0 \<and> seg_limit (g ! i) = 0xFFFFFFFF)
    \<and> (\<forall>i\<in>{GDT_KERNEL_CODE, GDT_KERNEL_DATA}. seg_level (g ! i) = 0)
    \<and> (\<forall>i\<in>{GDT_USER_CODE, GDT_USER_DATA}. seg_level (g ! i) = 3)
    \<and> seg_base (g ! GDT_TSS) = tss \<and> \<not> seg_present (g ! GDT_NULL) \<and> tss_esp0 t = 0x90000"
proof -
  note numbers = GDT_NULL_def GDT_KERNEL_CODE_def GDT_KERNEL_DATA_def GDT_USER_CODE_def GDT_USER_DATA_def GDT_TSS_def
  obtain g0 g1 g2 g3 g4 g5 where gdt: "gdt = [g0, g1, g2, g3, g4, g5]"
    using assms by (auto simp: length_Suc_conv eval_nat_numeral)
  let ?t = "\<lparr>limit_low = ucast ((sizeof_tss - 1) AND 0xFFFF), g_base_low = ucast (tss AND 0xFFFF), base_mid = ucast (drop_bit 16 tss AND 0xFF),
     access = 0x89, granularity = ucast (drop_bit 16 (sizeof_tss - 1) AND 0x0F) OR push_bit 4 0, g_base_high = ucast (drop_bit 24 tss AND 0xFF)\<rparr>"
  have tss: "seg_base ?t = tss" using base_parts [of tss] by (simp add: seg_base_def)
  let ?flat = "\<lambda>a. \<lparr>limit_low = 0xFFFF, g_base_low = 0, base_mid = 0, access = a, granularity = 0xCF, g_base_high = 0\<rparr>"
  have flat: "seg_base (?flat a) = 0" "seg_limit (?flat a) = 0xFFFFFFFF" for a
    by (simp_all add: seg_base_def seg_limit_def seg_raw_limit_def)
  have gates: "gdt_set_gate i 0 0xFFFFF a 0xC gs = Some (gs[i := ?flat a])" if "i < length gs" for i a gs
    using that by (simp add: gdt_set_gate_def)
  have null: "gdt_set_gate 0 0 0 0 0 gs = Some (gs[0 := \<lparr>limit_low = 0, g_base_low = 0, base_mid = 0, access = 0, granularity = 0, g_base_high = 0\<rparr>])"
    if "gs \<noteq> []" for gs
    using that by (simp add: gdt_set_gate_def)
  have "init_gdt tss gdt = Some ([\<lparr>limit_low = 0, g_base_low = 0, base_mid = 0, access = 0, granularity = 0, g_base_high = 0\<rparr>,
      ?flat 0x9A, ?flat 0x92, ?flat 0xFA, ?flat 0xF2, ?t], \<lparr>tss_esp0 = KERNEL_STACK_ADDRESS, tss_ss0 = ucast KERNEL_DATA_SEGMENT\<rparr>)"
    unfolding init_gdt_def numbers gdt by (simp add: null gates, simp add: gdt_set_gate_def)
  then show ?thesis
    using tss flat by (simp add: numbers seg_present_def seg_level_def KERNEL_STACK_ADDRESS_def)
qed

lemma unat_lt8: "unat (w :: u8) < 256"
  using unsigned_less [of w] by simp

lemma gate_offset_make [simp]: "gate_offset (make_gate base sel flags) = base"
proof -
  have m: "(0xFFFF::u32) = mask 16" by (simp add: mask_eq_exp_minus_1)
  show ?thesis
    unfolding gate_offset_def make_gate_def m by (rule bit_word_eqI) (auto simp: bit_simps)
qed

lemma set_gate_nth:
  assumes "length idt = 256"
  shows "length (idt_set_gate v base sel flags idt) = 256"
    "idt_set_gate v base sel flags idt ! unat w = (if w = v then make_gate base sel flags else idt ! unat w)"
proof -
  show "length (idt_set_gate v base sel flags idt) = 256" using assms by (simp add: idt_set_gate_def)
  have "unat v = unat w \<longleftrightarrow> w = v" by (auto simp: word_unat_eq_iff [of w v])
  then show "idt_set_gate v base sel flags idt ! unat w = (if w = v then make_gate base sel flags else idt ! unat w)"
    using assms unat_lt8 [of v] by (auto simp: idt_set_gate_def nth_list_update)
qed

lemma fold_gates:
  "length idt = 256 \<Longrightarrow> length (fold (\<lambda>v. idt_set_gate v (f v) sel flags) vs idt) = 256
    \<and> fold (\<lambda>v. idt_set_gate v (f v) sel flags) vs idt ! unat w = (if w \<in> set vs then make_gate (f w) sel flags else idt ! unat w)"
proof (induction vs arbitrary: idt)
  case (Cons v vs)
  note g = set_gate_nth [OF Cons.prems, of v "f v" sel flags]
  show ?case using Cons.IH [OF g(1)] g(2) by simp
qed simp

text \<open>The vectors with a gate.\<close>

definition gate_vectors :: "u8 set" where
  "gate_vectors = set exception_vectors \<union> {IRQ_TIMER, IRQ_KEYBOARD, 0x2C, 0x80}"

lemma init_idtp_clears:
  fixes w :: u8
  assumes "length idt = 256"
  shows "length (init_idtp idt) = 256" "init_idtp idt ! unat w = make_gate 0 0 0"
proof -
  have eq: "init_idtp idt = fold (\<lambda>v. idt_set_gate v 0 0 0) (map of_nat [0..<256]) idt"
    unfolding init_idtp_def IDT_ENTRIES_def by (simp add: fold_map comp_def)
  show "length (init_idtp idt) = 256" unfolding eq by (rule fold_gates [OF assms, THEN conjunct1])
  have "w = of_nat (unat w)" "unat w < 256" using unat_lt8 [of w] by simp_all
  then have "w \<in> set (map of_nat [0..<256])" unfolding set_map by (metis atLeast_upt image_eqI lessThan_iff)
  then show "init_idtp idt ! unat w = make_gate 0 0 0" unfolding eq fold_gates [OF assms, THEN conjunct2] by simp
qed


text \<open>C27: With the controllers programmed as at boot, whatever their masks were, exactly the lines of
  the timer, the keyboard, the mouse and of the cascade are enabled, and they raise the vectors whose
  gates the drivers install.\<close>

theorem boot_routes_interrupts:
  assumes "p_expect p1 = 0" "p_expect p2 = 0"
  shows "(\<forall>irq<16. irq_enabled (boot_pics m1 m2 m3 (p1, p2)) irq \<longleftrightarrow> irq \<in> {0, 1, 2, 12})
    \<and> irq_vector (boot_pics m1 m2 m3 (p1, p2)) 0 = IRQ_TIMER
    \<and> irq_vector (boot_pics m1 m2 m3 (p1, p2)) 1 = IRQ_KEYBOARD
    \<and> irq_vector (boot_pics m1 m2 m3 (p1, p2)) 12 = 0x2C"
proof -
  have ps: "boot_pics m1 m2 m3 (p1, p2)
    = (p1\<lparr>p_offset := 0x20, p_mask := 0xF8, p_expect := 0\<rparr>, p2\<lparr>p_offset := 0x28, p_mask := 0xEF, p_expect := 0\<rparr>)"
    by (simp add: boot_pics_def remap_pic_def unmask_mouse_def load_idtp_def pic_write_def pic_command_def pic_data_def
        PIC1_COMMAND_def PIC1_DATA_def PIC2_COMMAND_def PIC2_DATA_def PIC_ICW1_INIT_def PIC_ICW4_8086_def PIC1_OFFSET_def
        PIC2_OFFSET_def PIC1_CASCADE_def PIC2_CASCADE_def MASTER_MOUSE_TIMER_KB_MASK_def SLAVE_MOUSE_MASK_def)
  have lines: "irq < 16 \<longleftrightarrow> irq \<in> {0, 1, 2, 3, 4, 5, 6, 7, 8, 9, 10, 11, 12, 13, 14, 15::nat}" for irq
    unfolding insert_iff empty_iff by presburger
  have "irq_enabled (boot_pics m1 m2 m3 (p1, p2)) irq \<longleftrightarrow> irq \<in> {0, 1, 2, 12}" if "irq < 16" for irq
    using that unfolding lines ps by (auto simp: irq_enabled_def bit_numeral_simps)
  then show ?thesis unfolding ps by (simp add: irq_vector_def IRQ_TIMER_def IRQ_KEYBOARD_def)
qed

theorem gdt_gate_roundtrip_witness:
  "\<exists>g. gdt_set_gate 2 0x12345678 0xABCDE 0x92 0xC (replicate 6 \<lparr>limit_low = 0, g_base_low = 0, base_mid = 0, access = 0,
      granularity = 0, g_base_high = 0\<rparr>) = Some g \<and> seg_base (g ! 2) = 0x12345678"
proof -
  have "2 < length (replicate 6 \<lparr>limit_low = 0, g_base_low = 0, base_mid = 0, access = 0, granularity = 0, g_base_high = 0\<rparr>)" by simp
  from gdt_gate_roundtrip [OF this] show ?thesis by blast
qed

theorem init_gdt_flat_witness:
  "\<exists>g t. init_gdt 0x1000 (replicate 6 \<lparr>limit_low = 0, g_base_low = 0, base_mid = 0, access = 0,
      granularity = 0, g_base_high = 0\<rparr>) = Some (g, t) \<and> seg_limit (g ! 3) = 0xFFFFFFFF"
proof -
  have "length (replicate 6 \<lparr>limit_low = 0, g_base_low = 0, base_mid = 0, access = 0, granularity = 0, g_base_high = 0\<rparr>) = 6" by simp
  from init_gdt_flat [OF this, of "0x1000"] show ?thesis by (auto simp: GDT_USER_CODE_def)
qed


theorem boot_routes_interrupts_witness:
  "irq_enabled (boot_pics 0xB8 0x8E 0xFF (\<lparr>p_offset = 8, p_mask = 0xFF, p_expect = 0\<rparr>, \<lparr>p_offset = 0x70, p_mask = 0xFF, p_expect = 0\<rparr>)) 12"
  using boot_routes_interrupts [of "\<lparr>p_offset = 8, p_mask = 0xFF, p_expect = 0\<rparr>" "\<lparr>p_offset = 0x70, p_mask = 0xFF, p_expect = 0\<rparr>"] by simp

end
