(* ===== verification/Frame.thy ===== *)
theory Frame
  imports Prelude
begin

text \<open>
  The physical frame allocator, \<^verbatim>\<open>kernel-space/kernel/frame.c\<close>: a bitmap of 32768
  frames of 4 KB in 1024 words of 32 bits. The bitmap is a list of words; an access outside
  it is a fault (\<open>None\<close>). The abstract view is the set of used frame numbers.
\<close>

section \<open>Model\<close>

definition PAGE_SIZE :: nat where "PAGE_SIZE = 4096"
definition MAX_MEMORY :: nat where "MAX_MEMORY = 128 * 1024 * 1024"
definition NUM_FRAMES :: nat where "NUM_FRAMES = MAX_MEMORY div PAGE_SIZE"

type_synonym bitmap = "u32 list"

definition bitmap_ok :: "bitmap \<Rightarrow> bool" where
  "bitmap_ok bm \<longleftrightarrow> length bm = NUM_FRAMES div 32"

definition clear_frame :: "nat \<Rightarrow> bitmap \<Rightarrow> bitmap option" where
  "clear_frame f bm =
     (if f div 32 < length bm
      then Some (bm[f div 32 := (bm ! (f div 32)) AND NOT (push_bit (f mod 32) 1)])
      else None)"

definition set_frame :: "nat \<Rightarrow> bitmap \<Rightarrow> bitmap option" where
  "set_frame f bm =
     (if f div 32 < length bm
      then Some (bm[f div 32 := (bm ! (f div 32)) OR (push_bit (f mod 32) 1)])
      else None)"

definition test_frame :: "nat \<Rightarrow> bitmap \<Rightarrow> bool option" where
  "test_frame f bm =
     (if f div 32 < length bm
      then Some ((bm ! (f div 32)) AND (push_bit (f mod 32) 1) \<noteq> 0)
      else None)"

text \<open>The loop of \<^verbatim>\<open>init_frames\<close> over \<open>i\<close>, counted down by the frames left.\<close>

fun clear_frames :: "nat \<Rightarrow> nat \<Rightarrow> bitmap \<Rightarrow> bitmap option" where
  "clear_frames i 0 bm = Some bm"
| "clear_frames i (Suc n) bm = do { bm' \<leftarrow> clear_frame i bm; clear_frames (Suc i) n bm' }"

definition init_frames :: "bitmap \<Rightarrow> bitmap option" where
  "init_frames bm = do { bm' \<leftarrow> clear_frames 0 NUM_FRAMES bm; set_frame 0 bm' }"

function allocate_loop :: "nat \<Rightarrow> bitmap \<Rightarrow> (u32 \<times> bitmap) option" where
  "allocate_loop i bm =
     (if i < NUM_FRAMES then
        case test_frame i bm of
          None \<Rightarrow> None
        | Some True \<Rightarrow> allocate_loop (Suc i) bm
        | Some False \<Rightarrow> do { bm' \<leftarrow> set_frame i bm; Some (of_nat (i * PAGE_SIZE), bm') }
      else Some (0, bm))"
  by pat_completeness auto
termination
  by (relation "measure (\<lambda>(i, bm). NUM_FRAMES - i)") auto

declare allocate_loop.simps [simp del]

definition allocate_frame :: "bitmap \<Rightarrow> (u32 \<times> bitmap) option" where
  "allocate_frame bm = allocate_loop 1 bm"

fun set_frames :: "nat \<Rightarrow> nat \<Rightarrow> bitmap \<Rightarrow> bitmap option" where
  "set_frames i 0 bm = Some bm"
| "set_frames i (Suc n) bm = do { bm' \<leftarrow> set_frame i bm; set_frames (Suc i) n bm' }"

definition mark_frames_used :: "u32 \<Rightarrow> u32 \<Rightarrow> bitmap \<Rightarrow> bitmap option" where
  "mark_frames_used start end bm =
     (let s = unat start div PAGE_SIZE; e = unat end div PAGE_SIZE in set_frames s (e - s) bm)"

definition free_frame :: "u32 \<Rightarrow> bitmap \<Rightarrow> bitmap option" where
  "free_frame frame bm =
     (if frame = 0 then Some bm else clear_frame (unat frame div PAGE_SIZE) bm)"

section \<open>The used frames\<close>

definition used :: "bitmap \<Rightarrow> nat set" where
  "used bm = {f. f div 32 < length bm \<and> bit (bm ! (f div 32)) (f mod 32)}"

lemma NUM_FRAMES_eq: "NUM_FRAMES = 32768"
  by (simp add: NUM_FRAMES_def MAX_MEMORY_def PAGE_SIZE_def)

lemma bitmap_ok_length: "bitmap_ok bm \<Longrightarrow> length bm = 1024"
  by (simp add: bitmap_ok_def NUM_FRAMES_eq)

lemma word_index: "f < NUM_FRAMES \<Longrightarrow> bitmap_ok bm \<Longrightarrow> f div 32 < length bm"
  by (simp add: bitmap_ok_length NUM_FRAMES_eq less_mult_imp_div_less)

lemma div_mod_32_eq: "f div 32 = g div 32 \<Longrightarrow> f mod 32 = g mod 32 \<Longrightarrow> f = (g::nat)"
  by (metis div_mult_mod_eq)

lemma bit_flag: "n < 32 \<Longrightarrow> bit (2 ^ n :: u32) m \<longleftrightarrow> m = n"
  by (auto simp: bit_simps)

lemma test_frame_used [simp]:
  assumes "bitmap_ok bm" "f < NUM_FRAMES"
  shows "test_frame f bm = Some (f \<in> used bm)"
proof -
  have "(bm ! (f div 32) AND push_bit (f mod 32) 1 \<noteq> 0) = bit (bm ! (f div 32)) (f mod 32)"
    by (simp add: bit_iff_and_push_bit_not_eq_0)
  then show ?thesis
    using word_index [OF assms(2,1)] by (simp add: test_frame_def used_def)
qed

lemma bitmap_ok_update [simp]: "bitmap_ok (bm[i := w]) = bitmap_ok bm"
  by (simp add: bitmap_ok_def)

lemma set_frame_ok [fault_free]:
  assumes "bitmap_ok bm" "f < NUM_FRAMES"
  obtains bm' where "set_frame f bm = Some bm'" "bitmap_ok bm'" "used bm' = insert f (used bm)"
proof -
  let ?bm' = "bm[f div 32 := (bm ! (f div 32)) OR (push_bit (f mod 32) 1)]"
  have i: "f div 32 < length bm" by (rule word_index [OF assms(2,1)])
  have "g \<in> used ?bm' \<longleftrightarrow> g \<in> insert f (used bm)" for g
  proof (cases "g div 32 = f div 32")
    case True
    then show ?thesis using i div_mod_32_eq [of g f]
      by (cases "g = f") (auto simp: used_def bit_or_iff bit_flag)
  next
    case False
    then show ?thesis using i by (auto simp: used_def)
  qed
  then have "used ?bm' = insert f (used bm)" by blast
  then show ?thesis using that [of ?bm'] i assms(1) by (simp add: set_frame_def)
qed

lemma clear_frame_ok [fault_free]:
  assumes "bitmap_ok bm" "f < NUM_FRAMES"
  obtains bm' where "clear_frame f bm = Some bm'" "bitmap_ok bm'" "used bm' = used bm - {f}"
proof -
  let ?bm' = "bm[f div 32 := (bm ! (f div 32)) AND NOT (push_bit (f mod 32) 1)]"
  have i: "f div 32 < length bm" by (rule word_index [OF assms(2,1)])
  have "g \<in> used ?bm' \<longleftrightarrow> g \<in> used bm - {f}" for g
  proof (cases "g div 32 = f div 32")
    case True
    then show ?thesis using i div_mod_32_eq [of g f]
      by (cases "g = f") (auto simp: used_def bit_and_iff bit_not_iff bit_flag)
  next
    case False
    then show ?thesis using i by (auto simp: used_def)
  qed
  then have "used ?bm' = used bm - {f}" by blast
  then show ?thesis using that [of ?bm'] i assms(1) by (simp add: clear_frame_def)
qed

lemma used_bound: "bitmap_ok bm \<Longrightarrow> f \<in> used bm \<Longrightarrow> f < NUM_FRAMES"
  by (auto simp: used_def bitmap_ok_length NUM_FRAMES_eq)

lemma finite_used: "bitmap_ok bm \<Longrightarrow> finite (used bm)"
  by (rule finite_subset [of _ "{..<NUM_FRAMES}"]) (auto dest: used_bound)

lemma clear_frames_ok:
  "bitmap_ok bm \<Longrightarrow> i + n \<le> NUM_FRAMES \<Longrightarrow>
     \<exists>bm'. clear_frames i n bm = Some bm' \<and> bitmap_ok bm' \<and> used bm' = used bm - {i..<i + n}"
proof (induction n arbitrary: i bm)
  case (Suc n)
  from Suc.prems obtain bm1 where 1: "clear_frame i bm = Some bm1" "bitmap_ok bm1"
      "used bm1 = used bm - {i}"
    by (auto elim: clear_frame_ok [of bm i])
  from Suc.IH [of bm1 "Suc i"] Suc.prems 1 show ?case
    by (auto simp: atLeastLessThan_eq_atLeastAtMost_diff le_less_Suc_eq Suc_le_eq)
qed auto

lemma set_frames_ok:
  "bitmap_ok bm \<Longrightarrow> i + n \<le> NUM_FRAMES \<Longrightarrow>
     \<exists>bm'. set_frames i n bm = Some bm' \<and> bitmap_ok bm' \<and> used bm' = used bm \<union> {i..<i + n}"
proof (induction n arbitrary: i bm)
  case (Suc n)
  from Suc.prems obtain bm1 where 1: "set_frame i bm = Some bm1" "bitmap_ok bm1"
      "used bm1 = insert i (used bm)"
    by (auto elim: set_frame_ok [of bm i])
  from Suc.IH [of bm1 "Suc i"] Suc.prems 1 show ?case
    by (auto simp: Suc_le_eq le_less)
qed auto

lemma init_frames_used:
  "bitmap_ok bm \<Longrightarrow> \<exists>bm'. init_frames bm = Some bm' \<and> bitmap_ok bm' \<and> used bm' = {0}"
proof -
  assume ok: "bitmap_ok bm"
  from clear_frames_ok [OF ok, of 0 NUM_FRAMES] obtain bm1 where
    1: "clear_frames 0 NUM_FRAMES bm = Some bm1" "bitmap_ok bm1" "used bm1 = used bm - {0..<NUM_FRAMES}"
    by auto
  have "used bm1 = {}" using 1(3) used_bound [OF ok] by auto
  moreover obtain bm2 where "set_frame 0 bm1 = Some bm2" "bitmap_ok bm2" "used bm2 = insert 0 (used bm1)"
    by (rule set_frame_ok [OF 1(2), of 0]) (auto simp: NUM_FRAMES_eq)
  ultimately show ?thesis using 1(1) by (simp add: init_frames_def)
qed

section \<open>Allocation\<close>

lemma allocate_loop_used:
  "bitmap_ok bm \<Longrightarrow> i < NUM_FRAMES \<Longrightarrow> i \<in> used bm \<Longrightarrow>
     allocate_loop i bm = allocate_loop (Suc i) bm"
  by (simp add: allocate_loop.simps [of i])

lemma allocate_loop_free:
  assumes "bitmap_ok bm" "i < NUM_FRAMES" "i \<notin> used bm"
  obtains bm' where "allocate_loop i bm = Some (of_nat (i * PAGE_SIZE), bm')"
    "bitmap_ok bm'" "used bm' = insert i (used bm)"
proof -
  obtain bm' where "set_frame i bm = Some bm'" "bitmap_ok bm'" "used bm' = insert i (used bm)"
    by (rule set_frame_ok [OF assms(1,2)])
  with assms that show ?thesis by (simp add: allocate_loop.simps [of i])
qed

lemma allocate_loop_end: "NUM_FRAMES \<le> i \<Longrightarrow> allocate_loop i bm = Some (0, bm)"
  by (simp add: allocate_loop.simps [of i])

text \<open>The loop returns the first unused frame at or above its counter.\<close>

lemma allocate_loop_spec:
  assumes "bitmap_ok bm"
  shows "(\<exists>f bm'. allocate_loop i bm = Some (of_nat (f * PAGE_SIZE), bm') \<and> i \<le> f \<and> f < NUM_FRAMES
            \<and> f \<notin> used bm \<and> {i..<f} \<subseteq> used bm \<and> bitmap_ok bm' \<and> used bm' = insert f (used bm))
       \<or> (allocate_loop i bm = Some (0, bm) \<and> {i..<NUM_FRAMES} \<subseteq> used bm)"
proof (induction "NUM_FRAMES - i" arbitrary: i)
  case 0
  then show ?case by (simp add: allocate_loop_end)
next
  case (Suc n)
  then have lt: "i < NUM_FRAMES" and n: "n = NUM_FRAMES - Suc i" by simp_all
  show ?case
  proof (cases "i \<in> used bm")
    case True
    have cover: "{i..<g} \<subseteq> used bm" if "{Suc i..<g} \<subseteq> used bm" for g
    proof
      fix x assume "x \<in> {i..<g}"
      then show "x \<in> used bm" using that True by (cases "x = i") auto
    qed
    from Suc.hyps(1) [OF n] allocate_loop_used [OF assms lt True] show ?thesis
      by (metis Suc_leD cover)
  next
    case False
    obtain bm' where "allocate_loop i bm = Some (of_nat (i * PAGE_SIZE), bm')"
      "bitmap_ok bm'" "used bm' = insert i (used bm)"
      by (rule allocate_loop_free [OF assms lt False])
    with lt False show ?thesis by (intro disjI1 exI [of _ i] exI [of _ bm']) auto
  qed
qed

lemma frame_addr: "f < NUM_FRAMES \<Longrightarrow> unat (of_nat (f * PAGE_SIZE) :: u32) = f * PAGE_SIZE"
  by (subst unat_of_nat32) (auto simp: NUM_FRAMES_eq PAGE_SIZE_def)

section \<open>The allocator interface\<close>

text \<open>
  What the rest of the kernel relies on: \<open>alloc\<close> returns the address of an unused frame
  and marks it, or 0 when all are used; \<open>free\<close> releases one. Frame 0 is never handed out.
\<close>

locale frame_allocator =
  fixes alloc :: "'s \<Rightarrow> (u32 \<times> 's) option"
    and free :: "u32 \<Rightarrow> 's \<Rightarrow> 's option"
    and inv :: "'s \<Rightarrow> bool"
    and taken :: "'s \<Rightarrow> nat set"
  assumes alloc_spec: "inv s \<Longrightarrow>
      (\<exists>f s'. alloc s = Some (of_nat (f * PAGE_SIZE), s') \<and> 0 < f \<and> f < NUM_FRAMES \<and> f \<notin> taken s
            \<and> inv s' \<and> taken s' = insert f (taken s))
      \<or> (alloc s = Some (0, s) \<and> {1..<NUM_FRAMES} \<subseteq> taken s)"
    and free_spec: "inv s \<Longrightarrow> 0 < f \<Longrightarrow> f < NUM_FRAMES \<Longrightarrow>
      \<exists>s'. free (of_nat (f * PAGE_SIZE)) s = Some s' \<and> inv s' \<and> taken s' = taken s - {f}"
begin

lemma alloc_returns: "inv s \<Longrightarrow> \<exists>a s'. alloc s = Some (a, s') \<and> inv s'"
  using alloc_spec [of s] by blast

lemma alloc_success:
  assumes "inv s" "alloc s = Some (a, s')" "a \<noteq> 0"
  obtains f where "a = of_nat (f * PAGE_SIZE)" "0 < f" "f < NUM_FRAMES" "f \<notin> taken s"
    "inv s'" "taken s' = insert f (taken s)"
  using alloc_spec [OF assms(1)] assms(2,3) by auto

lemma alloc_fails_iff_full:
  assumes "inv s" "alloc s = Some (a, s')"
  shows "a = 0 \<longleftrightarrow> {1..<NUM_FRAMES} \<subseteq> taken s"
proof
  assume "a = 0"
  show "{1..<NUM_FRAMES} \<subseteq> taken s"
  proof (rule ccontr)
    assume "\<not> ?thesis"
    then obtain f where f: "a = of_nat (f * PAGE_SIZE)" "0 < f" "f < NUM_FRAMES"
      using alloc_spec [OF assms(1)] assms(2) by auto
    then have "unat a = f * PAGE_SIZE" using frame_addr by blast
    with f \<open>a = 0\<close> show False by (simp add: PAGE_SIZE_def)
  qed
next
  assume "{1..<NUM_FRAMES} \<subseteq> taken s"
  then have "f \<in> taken s" if "0 < f" "f < NUM_FRAMES" for f
    using that by (auto simp: Suc_le_eq)
  then show "a = 0" using alloc_spec [OF assms(1)] assms(2) by force
qed

text \<open>A frame that was just allocated can be released again, and nothing else changes.\<close>

lemma alloc_then_free:
  assumes "inv s" "alloc s = Some (a, s')" "a \<noteq> 0"
  shows "\<exists>s''. free a s' = Some s'' \<and> inv s'' \<and> taken s'' = taken s"
proof -
  obtain f where f: "a = of_nat (f * PAGE_SIZE)" "0 < f" "f < NUM_FRAMES" "f \<notin> taken s"
    "inv s'" "taken s' = insert f (taken s)"
    by (rule alloc_success [OF assms])
  from free_spec [OF f(5,2,3)] f(1,4,6) show ?thesis by fastforce
qed

end

interpretation fa: frame_allocator allocate_frame free_frame bitmap_ok used
proof unfold_locales
  fix bm
  assume "bitmap_ok bm"
  from allocate_loop_spec [OF this, of 1]
  show "(\<exists>f bm'. allocate_frame bm = Some (of_nat (f * PAGE_SIZE), bm') \<and> 0 < f \<and> f < NUM_FRAMES
            \<and> f \<notin> used bm \<and> bitmap_ok bm' \<and> used bm' = insert f (used bm))
      \<or> (allocate_frame bm = Some (0, bm) \<and> {1..<NUM_FRAMES} \<subseteq> used bm)"
    unfolding allocate_frame_def by fastforce
next
  fix bm f
  assume a: "bitmap_ok bm" "0 < f" "f < NUM_FRAMES"
  have u: "unat (of_nat (f * PAGE_SIZE) :: u32) = f * PAGE_SIZE" by (rule frame_addr [OF a(3)])
  then have "(of_nat (f * PAGE_SIZE) :: u32) \<noteq> 0"
    using a(2) by (metis PAGE_SIZE_def mult_is_0 neq0_conv unat_0 zero_neq_numeral)
  moreover obtain bm' where "clear_frame f bm = Some bm'" "bitmap_ok bm'" "used bm' = used bm - {f}"
    by (rule clear_frame_ok [OF a(1,3)])
  ultimately show "\<exists>s'. free_frame (of_nat (f * PAGE_SIZE)) bm = Some s' \<and> bitmap_ok s'
      \<and> used s' = used bm - {f}"
    unfolding free_frame_def u by (simp add: PAGE_SIZE_def)
qed

section \<open>Boot-time reservation\<close>

text \<open>The loop of \<^verbatim>\<open>kernel_main\<close> that allocates one frame for each page from
  \<open>KERNEL_START\<close> to \<open>HEAP_END\<close>, discarding the addresses: 1024 allocations.\<close>

fun reserve_frames :: "nat \<Rightarrow> bitmap \<Rightarrow> bitmap option" where
  "reserve_frames 0 bm = Some bm"
| "reserve_frames (Suc n) bm = do { (a, bm') \<leftarrow> allocate_frame bm; reserve_frames n bm' }"

lemma allocate_lowest:
  assumes "bitmap_ok bm" "used bm = {0..<f}" "0 < f" "f < NUM_FRAMES"
  shows "\<exists>bm'. allocate_frame bm = Some (of_nat (f * PAGE_SIZE), bm') \<and> bitmap_ok bm' \<and> used bm' = {0..<Suc f}"
proof -
  have "f \<notin> used bm" "1 \<le> f" using assms(2,3) by auto
  then have "\<not> {1..<NUM_FRAMES} \<subseteq> used bm" using assms(4) by auto
  then obtain g bm' where g: "allocate_loop 1 bm = Some (of_nat (g * PAGE_SIZE), bm')" "1 \<le> g"
    "g \<notin> used bm" "{1..<g} \<subseteq> used bm" "bitmap_ok bm'" "used bm' = insert g (used bm)"
    using allocate_loop_spec [OF assms(1), of 1] by blast
  have "\<not> f < g"
  proof
    assume "f < g"
    then have "f \<in> {1..<g}" using assms(3) by simp
    then show False using g(4) \<open>f \<notin> used bm\<close> by blast
  qed
  moreover have "f \<le> g" using g(3) assms(2) by auto
  ultimately have "g = f" by simp
  then have "used bm' = {0..<Suc f}" using g(6) assms(2) by auto
  with g \<open>g = f\<close> show ?thesis unfolding allocate_frame_def by blast
qed

lemma reserve_frames_used:
  "bitmap_ok bm \<Longrightarrow> used bm = {0..<f} \<Longrightarrow> 0 < f \<Longrightarrow> f + n \<le> NUM_FRAMES \<Longrightarrow>
     \<exists>bm'. reserve_frames n bm = Some bm' \<and> bitmap_ok bm' \<and> used bm' = {0..<f + n}"
proof (induction n arbitrary: f bm)
  case (Suc n)
  then obtain bm1 where "allocate_frame bm = Some (of_nat (f * PAGE_SIZE), bm1)" "bitmap_ok bm1"
    "used bm1 = {0..<Suc f}"
    using allocate_lowest [of bm f] by auto
  then show ?case using Suc.IH [of bm1 "Suc f"] Suc.prems by auto
qed auto

section \<open>Properties\<close>

text \<open>\<^verbatim>\<open>allocate_frame\<close> always returns. It hands out the lowest unused frame above
  frame 0 and marks exactly that frame, or returns 0 and changes nothing when every frame is
  used.\<close>

theorem allocate_frame_lowest_unused:
  assumes "bitmap_ok bm"
  shows "\<exists>a bm'. allocate_frame bm = Some (a, bm') \<and> bitmap_ok bm' \<and>
    (if {1..<NUM_FRAMES} \<subseteq> used bm then a = 0 \<and> bm' = bm
     else \<exists>f. unat a = f * PAGE_SIZE \<and> 0 < f \<and> f < NUM_FRAMES \<and> f \<notin> used bm \<and>
            {1..<f} \<subseteq> used bm \<and> used bm' = insert f (used bm))"
proof (cases "{1..<NUM_FRAMES} \<subseteq> used bm")
  case True
  obtain a bm' where a: "allocate_frame bm = Some (a, bm')" using fa.alloc_returns [OF assms] by blast
  then have "a = 0" using fa.alloc_fails_iff_full [OF assms a] True by simp
  moreover have "allocate_frame bm = Some (0, bm)"
    using True allocate_loop_spec [OF assms, of 1] unfolding allocate_frame_def by fastforce
  ultimately show ?thesis using a True assms by simp
next
  case False
  then obtain f bm' where "allocate_frame bm = Some (of_nat (f * PAGE_SIZE), bm')" "1 \<le> f"
    "f < NUM_FRAMES" "f \<notin> used bm" "{1..<f} \<subseteq> used bm" "bitmap_ok bm'" "used bm' = insert f (used bm)"
    using allocate_loop_spec [OF assms, of 1] unfolding allocate_frame_def by blast
  with False show ?thesis using frame_addr [of f]
    by (intro exI [of _ "of_nat (f * PAGE_SIZE)"] exI [of _ bm']) (auto simp del: of_nat_mult)
qed

theorem allocate_frame_lowest_unused_witness:
  "bitmap_ok (replicate 1024 0) \<and> (\<exists>bm'. allocate_frame (replicate 1024 0) = Some (4096, bm'))"
proof -
  have ok: "bitmap_ok (replicate 1024 0)" by (simp add: bitmap_ok_def NUM_FRAMES_eq)
  have "used (replicate 1024 0) = {}" by (auto simp: used_def)
  then obtain a bm' f where a: "allocate_frame (replicate 1024 0) = Some (a, bm')"
    "unat a = f * PAGE_SIZE" "{1..<f} = {}" "0 < f"
    using allocate_frame_lowest_unused [OF ok] by (auto simp: NUM_FRAMES_eq split: if_splits)
  then have "f = 1" by auto
  with a(2) have "unat a = 4096" by (simp add: PAGE_SIZE_def)
  then have "a = 4096" by (simp add: word_unat_eq_iff)
  with a(1) ok show ?thesis by auto
qed

text \<open>C35: after \<^verbatim>\<open>init_frames\<close> and the reservation loop of \<^verbatim>\<open>kernel_main\<close>, exactly the
  frames below physical address 0x401000 are used, so that no later allocation hands out a
  frame of the kernel image or of the kernel heap (which ends at 0x400000).\<close>

theorem boot_reserves_kernel_frames:
  assumes "bitmap_ok bm"
  shows "\<exists>bm0 bm1. init_frames bm = Some bm0 \<and> reserve_frames 1024 bm0 = Some bm1 \<and>
    bitmap_ok bm1 \<and> used bm1 = {0..<1025} \<and>
    (\<forall>a bm2. allocate_frame bm1 = Some (a, bm2) \<longrightarrow> a \<noteq> 0 \<longrightarrow> 0x401000 \<le> unat a)"
proof -
  obtain bm0 where bm0: "init_frames bm = Some bm0" "bitmap_ok bm0" "used bm0 = {0}"
    using init_frames_used [OF assms] by blast
  obtain bm1 where bm1: "reserve_frames 1024 bm0 = Some bm1" "bitmap_ok bm1" "used bm1 = {0..<1025}"
    using reserve_frames_used [OF bm0(2), of 1 1024] bm0(3) by (auto simp: NUM_FRAMES_eq)
  have "0x401000 \<le> unat a" if alloc: "allocate_frame bm1 = Some (a, bm2)" and a: "a \<noteq> 0" for a bm2
  proof -
    obtain f where f: "a = of_nat (f * PAGE_SIZE)" "f < NUM_FRAMES" "f \<notin> used bm1"
      by (rule fa.alloc_success [OF bm1(2) alloc a])
    from f(3) bm1(3) have "1025 \<le> f" by simp
    then show ?thesis using f(1) frame_addr [OF f(2)] by (simp add: PAGE_SIZE_def)
  qed
  with bm0(1) bm1 show ?thesis by blast
qed

theorem boot_reserves_kernel_frames_witness:
  "\<exists>bm0 bm1. init_frames (replicate 1024 7) = Some bm0 \<and> reserve_frames 1024 bm0 = Some bm1 \<and>
     used bm1 = {0..<1025}"
proof -
  have "bitmap_ok (replicate 1024 7)" by (simp add: bitmap_ok_def NUM_FRAMES_eq)
  from boot_reserves_kernel_frames [OF this] show ?thesis by blast
qed

text \<open>releasing a frame that was just allocated returns and restores the set of used
  frames; the frame allocator loses nothing.\<close>

theorem frame_alloc_free_roundtrip:
  assumes "bitmap_ok bm" "allocate_frame bm = Some (a, bm')" "a \<noteq> 0"
  shows "\<exists>bm''. free_frame a bm' = Some bm'' \<and> used bm'' = used bm"
  using fa.alloc_then_free [OF assms] by blast

theorem frame_alloc_free_roundtrip_witness:
  "\<exists>a bm' bm''. allocate_frame (replicate 1024 0) = Some (a, bm') \<and> a \<noteq> 0 \<and>
     free_frame a bm' = Some bm'' \<and> used bm'' = {}"
proof -
  have ok: "bitmap_ok (replicate 1024 0)" by (simp add: bitmap_ok_def NUM_FRAMES_eq)
  have u: "used (replicate 1024 0) = {}" by (auto simp: used_def)
  obtain a bm' where a: "allocate_frame (replicate 1024 0) = Some (a, bm')"
    using fa.alloc_returns [OF ok] by blast
  moreover have "a \<noteq> 0"
    using fa.alloc_fails_iff_full [OF ok a] u by (auto simp: NUM_FRAMES_eq)
  ultimately show ?thesis using frame_alloc_free_roundtrip [OF ok a] u by blast
qed

end
