(* ===== verification/Kmalloc.thy ===== *)
theory Kmalloc
  imports Prelude
begin

text \<open>
  The kernel heap, \<^verbatim>\<open>kernel-space/kernel/kmalloc.c\<close>: a first-fit allocator over a
  singly linked list of block headers. The headers live in a store from addresses to headers
  and are reached through their \<open>next\<close> pointers, as in the code; the list loops follow the
  pointers and may fault (\<open>None\<close>). The abstract view is the list of blocks in list order.
\<close>

section \<open>Model\<close>

definition HEAP_START :: u32 where "HEAP_START = 0x100000"
definition HEAP_SIZE :: u32 where "HEAP_SIZE = 0x300000"
definition HEAP_END :: u32 where "HEAP_END = HEAP_START + HEAP_SIZE"

text \<open>\<^verbatim>\<open>sizeof(heap_block_header_t)\<close>: 4 bytes, 1 byte padded to 4, and a pointer.\<close>

definition HDR :: u32 where "HDR = 12"

record heap_block_header =
  h_size :: u32
  h_free :: bool
  h_next :: u32

type_synonym hmem = "u32 \<rightharpoonup> heap_block_header"

record kheap =
  heap_head_ptr :: u32
  headers :: hmem

text \<open>The heap before \<open>init_heap\<close>: \<^verbatim>\<open>heap_head_ptr = NULL\<close>.\<close>

definition boot_heap :: kheap where
  "boot_heap = \<lparr>heap_head_ptr = 0, headers = Map.empty\<rparr>"

definition init_heap :: "kheap \<Rightarrow> kheap" where
  "init_heap k = k\<lparr>heap_head_ptr := HEAP_START,
     headers := (headers k)(HEAP_START \<mapsto> \<lparr>h_size = HEAP_SIZE - HDR, h_free = True, h_next = 0\<rparr>)\<rparr>"

definition split_block :: "u32 \<Rightarrow> u32 \<Rightarrow> hmem \<Rightarrow> hmem option" where
  "split_block heap_ptr sz m =
     (case m heap_ptr of
        None \<Rightarrow> None
      | Some b \<Rightarrow>
          let remaining_size = h_size b - sz - HDR in
          if remaining_size < HDR * 3 then
            Some (m(heap_ptr \<mapsto> b\<lparr>h_size := sz, h_free := False\<rparr>))
          else
            let new_block = heap_ptr + HDR + sz in
            Some (m(new_block \<mapsto> \<lparr>h_size = remaining_size, h_free = True, h_next = h_next b\<rparr>,
                    heap_ptr \<mapsto> b\<lparr>h_size := sz, h_free := False, h_next := new_block\<rparr>)))"

partial_function (option) coalesce_loop :: "u32 \<Rightarrow> u32 \<Rightarrow> hmem \<Rightarrow> hmem option" where
  "coalesce_loop prev block m =
     (if block = 0 then Some m
      else case m block of
        None \<Rightarrow> None
      | Some b \<Rightarrow>
          (if prev = 0 then coalesce_loop block (h_next b) m
           else case m prev of
             None \<Rightarrow> None
           | Some p \<Rightarrow>
               if h_free p \<and> h_free b then
                 coalesce_loop prev (h_next b)
                   (m(prev \<mapsto> p\<lparr>h_size := h_size p + (h_size b + HDR), h_next := h_next b\<rparr>))
               else coalesce_loop block (h_next b) m))"

definition coalesce_blocks :: "kheap \<Rightarrow> kheap option" where
  "coalesce_blocks k =
     do { m \<leftarrow> coalesce_loop 0 (heap_head_ptr k) (headers k); Some (k\<lparr>headers := m\<rparr>) }"

partial_function (option) find_block :: "u32 \<Rightarrow> u32 \<Rightarrow> hmem \<Rightarrow> u32 option" where
  "find_block sz heap_ptr m =
     (if heap_ptr = 0 then Some 0
      else case m heap_ptr of
        None \<Rightarrow> None
      | Some b \<Rightarrow>
          if h_free b \<and> sz < h_size b then Some heap_ptr
          else find_block sz (h_next b) m)"

definition kmalloc :: "u32 \<Rightarrow> kheap \<Rightarrow> (u32 \<times> kheap) option" where
  "kmalloc sz k =
     (if sz \<le> 0 then Some (0, k)
      else do {
        heap_ptr \<leftarrow> find_block sz (heap_head_ptr k) (headers k);
        if heap_ptr = 0 then Some (0, k)
        else do {
          m \<leftarrow> split_block heap_ptr sz (headers k);
          Some (heap_ptr + HDR, k\<lparr>headers := m\<rparr>)
        }
      })"

definition kfree :: "u32 \<Rightarrow> kheap \<Rightarrow> kheap option" where
  "kfree ptr k =
     (if ptr = 0 then Some k
      else case headers k (ptr - HDR) of
        None \<Rightarrow> None
      | Some b \<Rightarrow>
          coalesce_blocks (k\<lparr>headers := (headers k)(ptr - HDR \<mapsto> b\<lparr>h_free := True\<rparr>)\<rparr>))"

text \<open>\<^verbatim>\<open>get_heap_status\<close> of \<^verbatim>\<open>kernel-space/lib/status-bar.c\<close>.\<close>

partial_function (option) heap_status_loop :: "u32 \<Rightarrow> u32 \<Rightarrow> hmem \<Rightarrow> u32 option" where
  "heap_status_loop cur not_free_size m =
     (if cur = 0 then Some not_free_size
      else case m cur of
        None \<Rightarrow> None
      | Some b \<Rightarrow>
          heap_status_loop (h_next b) (not_free_size + (if h_free b then 0 else h_size b)) m)"

definition get_heap_status :: "kheap \<Rightarrow> u32 option" where
  "get_heap_status k = heap_status_loop (heap_head_ptr k) 0 (headers k)"

section \<open>The chain of blocks\<close>

type_synonym blk = "u32 \<times> u32 \<times> bool"

fun chain :: "hmem \<Rightarrow> u32 \<Rightarrow> blk list \<Rightarrow> bool" where
  "chain m p [] \<longleftrightarrow> p = 0"
| "chain m p ((a, s, f) # bs) \<longleftrightarrow>
     p = a \<and> a \<noteq> 0 \<and>
     (case m a of None \<Rightarrow> False
      | Some b \<Rightarrow> h_size b = s \<and> h_free b = f \<and> chain m (h_next b) bs)"

text \<open>Blocks lie in address order, do not overlap, and end below \<open>HEAP_END\<close>.\<close>

fun spaced :: "nat \<Rightarrow> blk list \<Rightarrow> bool" where
  "spaced lo [] \<longleftrightarrow> lo \<le> unat HEAP_END"
| "spaced lo ((a, s, f) # bs) \<longleftrightarrow> lo \<le> unat a \<and> spaced (unat a + 12 + unat s) bs"

definition heap_inv :: "kheap \<Rightarrow> blk list \<Rightarrow> bool" where
  "heap_inv k bs \<longleftrightarrow>
     chain (headers k) (heap_head_ptr k) bs \<and> spaced (unat HEAP_START) bs"

abbreviation addrs :: "blk list \<Rightarrow> u32 set" where
  "addrs bs \<equiv> fst ` set bs"

lemma HEAP_END_unat: "unat HEAP_END = 0x400000"
  by (simp add: HEAP_END_def HEAP_START_def HEAP_SIZE_def)

lemma spaced_weaken: "spaced lo bs \<Longrightarrow> lo' \<le> lo \<Longrightarrow> spaced lo' bs"
  by (cases bs) auto

lemma spaced_le_end: "spaced lo bs \<Longrightarrow> lo \<le> unat HEAP_END"
  by (induction lo bs rule: spaced.induct) auto

lemma spaced_bounds:
  "spaced lo bs \<Longrightarrow> (a, s, f) \<in> set bs \<Longrightarrow>
     lo \<le> unat a \<and> unat a + 12 + unat s \<le> unat HEAP_END"
  by (induction lo bs rule: spaced.induct) (fastforce dest: spaced_le_end)+

lemma spaced_notin: "spaced lo bs \<Longrightarrow> unat x < lo \<Longrightarrow> x \<notin> addrs bs"
  using spaced_bounds by force

lemma spaced_append:
  "spaced lo (xs @ (a, s, f) # ys) \<longleftrightarrow>
     spaced lo (xs @ [(a, s, f)]) \<and> spaced (unat a + 12 + unat s) ys"
  by (induction lo xs rule: spaced.induct) (auto dest: spaced_le_end)

lemma spaced_before:
  "spaced lo (xs @ (a, s, f) # ys) \<Longrightarrow> (b, t, g) \<in> set xs \<Longrightarrow> unat b + 12 + unat t \<le> unat a"
proof (induction lo xs rule: spaced.induct)
  case (2 lo a' s' f' bs)
  then show ?case
    using spaced_bounds [of "unat a' + 12 + unat s'" "bs @ (a, s, f) # ys" a s f] by auto
qed simp

lemma chain_frame: "\<forall>x \<in> addrs bs. m' x = m x \<Longrightarrow> chain m' p bs = chain m p bs"
  by (induction bs arbitrary: p) (auto split: option.splits)

lemma chain_lookup: "chain m p (xs @ (a, s, f) # ys) \<Longrightarrow>
    \<exists>b. m a = Some b \<and> h_size b = s \<and> h_free b = f \<and> chain m (h_next b) ys \<and> a \<noteq> 0"
  by (induction xs arbitrary: p) (auto split: option.splits)

lemma chain_replace:
  "chain m p (xs @ (a, s, f) # ys) \<Longrightarrow> \<forall>x \<in> addrs xs. m' x = m x \<Longrightarrow> m' a = Some b \<Longrightarrow>
     chain m' (h_next b) zs \<Longrightarrow> chain m' p (xs @ (a, h_size b, h_free b) # zs)"
  by (induction xs arbitrary: p) (auto split: option.splits)

lemma chain_det: "chain m p xs \<Longrightarrow> chain m p ys \<Longrightarrow> xs = ys"
proof (induction xs arbitrary: p ys)
  case Nil
  then show ?case by (cases ys) auto
next
  case (Cons x xs)
  then show ?case by (cases ys; cases x) (auto split: option.splits)
qed

lemma heap_inv_det: "heap_inv k bs \<Longrightarrow> heap_inv k bs' \<Longrightarrow> bs = bs'"
  by (auto simp: heap_inv_def dest: chain_det)

lemma init_heap_inv: "heap_inv (init_heap k) [(HEAP_START, HEAP_SIZE - HDR, True)]"
  by (simp add: heap_inv_def init_heap_def HEAP_END_def HEAP_START_def HEAP_SIZE_def HDR_def)

section \<open>The abstract allocator\<close>

text \<open>
  On block lists: take the first free block that is larger than the request, cut the request
  off its front and keep the rest as a free block when it can hold three headers.
\<close>

definition fits :: "u32 \<Rightarrow> blk \<Rightarrow> bool" where
  "fits n b \<longleftrightarrow> snd (snd b) \<and> n < fst (snd b)"

lemma fits_iff [simp]: "fits n (a, s, f) \<longleftrightarrow> f \<and> n < s"
  by (simp add: fits_def)

definition carve :: "u32 \<Rightarrow> blk \<Rightarrow> blk list" where
  "carve n b = (case b of (a, s, f) \<Rightarrow>
     if unat s < unat n + 48 then [(a, n, False)]
     else [(a, n, False), (a + HDR + n, s - n - HDR, True)])"

fun akmalloc :: "u32 \<Rightarrow> blk list \<Rightarrow> u32 \<times> blk list" where
  "akmalloc n [] = (0, [])"
| "akmalloc n (b # bs) =
     (if fits n b then (fst b + HDR, carve n b @ bs)
      else let (r, bs') = akmalloc n bs in (r, b # bs'))"

text \<open>Merge neighbouring free blocks.\<close>

fun acoalesce :: "blk list \<Rightarrow> blk list" where
  "acoalesce ((a, s, f) # (b, t, g) # bs) =
     (if f \<and> g then acoalesce ((a, s + (t + HDR), True) # bs)
      else (a, s, f) # acoalesce ((b, t, g) # bs))"
| "acoalesce bs = bs"

definition arelease :: "u32 \<Rightarrow> blk list \<Rightarrow> blk list" where
  "arelease p bs = map (\<lambda>(a, s, f). if a + HDR = p then (a, s, True) else (a, s, f)) bs"

text \<open>
  The request leaves room for a header in the block that first fits it. Without this the
  subtraction in \<^verbatim>\<open>split_block\<close> wraps around (see \<open>kmalloc_sliver_corrupts\<close>).
\<close>

definition no_sliver :: "u32 \<Rightarrow> blk list \<Rightarrow> bool" where
  "no_sliver n bs = (case find (fits n) bs of
      None \<Rightarrow> True
    | Some b \<Rightarrow> unat n + 12 \<le> unat (fst (snd b)))"

lemma akmalloc_split:
  assumes "find (fits n) bs = Some (a, s, f)"
  obtains xs ys where "bs = xs @ (a, s, f) # ys" "f" "n < s"
    "akmalloc n bs = (a + HDR, xs @ carve n (a, s, f) @ ys)"
  using assms
proof (induction bs arbitrary: thesis)
  case (Cons b bs)
  show ?case
  proof (cases "fits n b")
    case True
    with Cons.prems(2) have "b = (a, s, f)" by simp
    with True Cons.prems(1) [of "[]" bs] show ?thesis by (simp add: fits_def)
  next
    case False
    with Cons.prems(2) have "find (fits n) bs = Some (a, s, f)" by simp
    then obtain xs ys where "bs = xs @ (a, s, f) # ys" "f" "n < s"
      "akmalloc n bs = (a + HDR, xs @ carve n (a, s, f) @ ys)"
      using Cons.IH by blast
    with False Cons.prems(1) [of "b # xs" ys] show ?thesis by simp
  qed
qed simp

lemma akmalloc_none: "find (fits n) bs = None \<Longrightarrow> akmalloc n bs = (0, bs)"
  by (induction bs) (auto split: if_splits)

lemma find_block_chain:
  "chain m p bs \<Longrightarrow>
     find_block n p m = Some (case find (fits n) bs of None \<Rightarrow> 0 | Some b \<Rightarrow> fst b)"
proof (induction bs arbitrary: p)
  case Nil
  then show ?case by (subst find_block.simps) simp
next
  case (Cons b bs)
  then show ?case
    by (cases b, subst find_block.simps) (auto split: option.splits)
qed

section \<open>kmalloc implements the abstract allocator\<close>

lemma remaining_small:
  assumes "unat n + 12 \<le> unat s"
  shows "s - n - HDR < HDR * 3 \<longleftrightarrow> unat s < unat n + 48"
    and "unat (s - n - HDR) = unat s - unat n - 12"
proof -
  have "n \<le> s" using assms by (simp add: word_le_nat_alt)
  moreover have "HDR \<le> s - n"
    using assms \<open>n \<le> s\<close> by (simp add: word_le_nat_alt unat_sub HDR_def)
  ultimately show r: "unat (s - n - HDR) = unat s - unat n - 12"
    by (simp add: unat_sub HDR_def)
  show "s - n - HDR < HDR * 3 \<longleftrightarrow> unat s < unat n + 48"
    unfolding word_less_nat_alt r using assms by (auto simp: HDR_def)
qed

lemma new_block_addr:
  assumes "unat a + 12 + unat s \<le> unat HEAP_END" "unat n \<le> unat s"
  shows "unat (a + HDR + n) = unat a + 12 + unat n" and "a + HDR \<noteq> 0"
proof -
  have 1: "unat (a + HDR) = unat a + 12"
    using assms by (subst unat_plus32) (auto simp: HDR_def HEAP_END_unat)
  with assms show "unat (a + HDR + n) = unat a + 12 + unat n"
    by (subst unat_plus32) (auto simp: HEAP_END_unat)
  from 1 show "a + HDR \<noteq> 0" by auto
qed

lemma carve_spaced:
  assumes "unat n + 12 \<le> unat s" "spaced lo ((a, s, f) # ys)"
  shows "spaced lo (carve n (a, s, f) @ ys)"
proof -
  have "unat a + 12 + unat s \<le> unat HEAP_END" using assms(2) by (auto dest: spaced_le_end)
  note na = new_block_addr(1) [OF this, of n] and rs = remaining_small(2) [OF assms(1)]
  show ?thesis
    using assms na rs by (auto simp: carve_def intro: spaced_weaken)
qed

lemma spaced_cong_tail:
  "spaced lo (xs @ ys) \<Longrightarrow> (\<And>l. spaced l ys \<Longrightarrow> spaced l zs) \<Longrightarrow> spaced lo (xs @ zs)"
  by (induction lo xs rule: spaced.induct) auto

lemma split_block_chain:
  assumes ch: "chain m p (xs @ (a, s, f) # ys)" and sp: "spaced lo (xs @ (a, s, f) # ys)"
    and n: "unat n + 12 \<le> unat s"
  obtains m' where "split_block a n m = Some m'" "chain m' p (xs @ carve n (a, s, f) @ ys)"
proof -
  obtain b where b: "m a = Some b" "h_size b = s" "h_free b = f" "chain m (h_next b) ys" "a \<noteq> 0"
    using chain_lookup [OF ch] by blast
  have ys: "spaced (unat a + 12 + unat s) ys" using sp spaced_append by blast
  then have end_le: "unat a + 12 + unat s \<le> unat HEAP_END" by (rule spaced_le_end)
  have q: "unat (a + HDR + n) = unat a + 12 + unat n"
    using new_block_addr(1) [OF end_le] n by simp
  have a_xs: "a \<notin> addrs xs" and q_xs: "a + HDR + n \<notin> addrs xs"
    using spaced_before [OF sp] q by fastforce+
  have a_ys: "a \<notin> addrs ys" and q_ys: "a + HDR + n \<notin> addrs ys"
    using spaced_notin [OF ys] q n by auto
  have "unat (a + HDR + n) \<noteq> unat a" "unat (a + HDR + n) \<noteq> 0" using q by simp_all
  then have qa: "a + HDR + n \<noteq> a" "a + HDR + n \<noteq> 0" by (metis, metis unat_0)
  show ?thesis
  proof (cases "unat s < unat n + 48")
    case True
    let ?m' = "m(a \<mapsto> b\<lparr>h_size := n, h_free := False\<rparr>)"
    have "chain ?m' (h_next b) ys" using b(4) a_ys by (subst chain_frame) auto
    then have "chain ?m' p (xs @ (a, n, False) # ys)"
      using chain_replace [OF ch, of ?m' "b\<lparr>h_size := n, h_free := False\<rparr>" ys] a_xs
      by force
    with True that [of ?m'] b(1,2) remaining_small(1) [OF n] show ?thesis
      by (simp add: split_block_def carve_def)
  next
    case False
    let ?q = "a + HDR + n"
    let ?h = "\<lparr>h_size = s - n - HDR, h_free = True, h_next = h_next b\<rparr>"
    let ?b' = "b\<lparr>h_size := n, h_free := False, h_next := ?q\<rparr>"
    let ?m' = "m(?q \<mapsto> ?h, a \<mapsto> ?b')"
    have "?m' x = m x" if "x \<in> addrs ys" for x
    proof -
      have "x \<noteq> a" "x \<noteq> ?q" using that a_ys q_ys by metis+
      then show ?thesis by simp
    qed
    then have "chain ?m' (h_next b) ys" using b(4) chain_frame [of ys ?m' m] by blast
    then have "chain ?m' ?q ((?q, s - n - HDR, True) # ys)" using qa by simp
    then have "chain ?m' p (xs @ (a, n, False) # (?q, s - n - HDR, True) # ys)"
      using chain_replace [OF ch, of ?m' ?b' "(?q, s - n - HDR, True) # ys"] a_xs q_xs
      by force
    with False that [of ?m'] b(1,2) remaining_small(1) [OF n] show ?thesis
      by (simp add: split_block_def carve_def Let_def)
  qed
qed

lemma kmalloc_refines:
  assumes inv: "heap_inv k bs" and n: "n \<noteq> 0" and ns: "no_sliver n bs"
  obtains k' where "kmalloc n k = Some (fst (akmalloc n bs), k')" "heap_inv k' (snd (akmalloc n bs))"
    "heap_head_ptr k' = heap_head_ptr k"
proof (cases "find (fits n) bs")
  case None
  then show ?thesis
    using that [of k] inv n find_block_chain [of "headers k" "heap_head_ptr k" bs n]
    by (simp add: kmalloc_def akmalloc_none heap_inv_def)
next
  case (Some b)
  obtain a s f where [simp]: "b = (a, s, f)" by (cases b)
  have room: "unat n + 12 \<le> unat s" using ns Some by (simp add: no_sliver_def)
  obtain xs ys where bs: "bs = xs @ (a, s, f) # ys"
    and ak: "akmalloc n bs = (a + HDR, xs @ carve n (a, s, f) @ ys)"
    by (rule akmalloc_split [OF Some [simplified]])
  have ch: "chain (headers k) (heap_head_ptr k) (xs @ (a, s, f) # ys)"
    and sp: "spaced (unat HEAP_START) (xs @ (a, s, f) # ys)"
    using inv bs by (auto simp: heap_inv_def)
  obtain m' where m': "split_block a n (headers k) = Some m'"
      "chain m' (heap_head_ptr k) (xs @ carve n (a, s, f) @ ys)"
    by (rule split_block_chain [OF ch sp room])
  have "spaced (unat HEAP_START) (xs @ carve n (a, s, f) @ ys)"
    using spaced_cong_tail [OF sp] carve_spaced [OF room] by blast
  moreover have "find_block n (heap_head_ptr k) (headers k) = Some a"
    using find_block_chain [of "headers k" "heap_head_ptr k" bs n] inv Some
    by (simp add: heap_inv_def)
  moreover have "a \<noteq> 0" using chain_lookup [OF ch] by blast
  ultimately show ?thesis
    using that [of "k\<lparr>headers := m'\<rparr>"] m' n by (simp add: kmalloc_def ak heap_inv_def)
qed

section \<open>kfree implements release and merge\<close>

lemma coalesce_loop_chain:
  assumes "chain m prev ((prev, s, f) # bs)" "spaced lo ((prev, s, f) # bs)"
    "m prev = Some p"
  shows "\<exists>m'. coalesce_loop prev (h_next p) m = Some m' \<and> chain m' prev (acoalesce ((prev, s, f) # bs))
     \<and> (\<forall>x. x \<notin> addrs ((prev, s, f) # bs) \<longrightarrow> m' x = m x)"
  using assms
proof (induction bs arbitrary: m prev s f lo p)
  case Nil
  then show ?case by (subst coalesce_loop.simps) auto
next
  case (Cons blk bs)
  obtain b t g where [simp]: "blk = (b, t, g)" by (cases blk)
  from Cons.prems obtain h where p: "h_next p = b" "h_size p = s" "h_free p = f" "prev \<noteq> 0" "b \<noteq> 0"
    and h: "m b = Some h" "h_size h = t" "h_free h = g" "chain m (h_next h) bs"
    by (auto split: option.splits)
  have sp: "spaced (unat prev + 12 + unat s) ((b, t, g) # bs)" using Cons.prems(2) by simp
  have bound: "unat b + 12 + unat t \<le> unat HEAP_END"
    using spaced_bounds [OF sp, of b t g] by simp
  have ne: "prev \<noteq> b" using sp by auto
  have prev_bs: "prev \<notin> addrs bs"
    using spaced_notin [of "unat b + 12 + unat t" bs prev] sp by auto
  show ?case
  proof (cases "f \<and> g")
    case True
    let ?p' = "p\<lparr>h_size := s + (t + HDR), h_next := h_next h\<rparr>"
    let ?m1 = "m(prev \<mapsto> ?p')"
    have sum: "unat (s + (t + HDR)) = unat s + unat t + 12"
      using sp bound by (subst unat_plus32) (auto simp: unat_plus32 HDR_def HEAP_END_unat)
    have "chain ?m1 (h_next h) bs" using h(4) prev_bs by (subst chain_frame) auto
    then have "chain ?m1 prev ((prev, s + (t + HDR), True) # bs)" using p True by simp
    moreover have "spaced lo ((prev, s + (t + HDR), True) # bs)"
      using Cons.prems(2) sum by (auto intro: spaced_weaken)
    ultimately obtain m' where m': "coalesce_loop prev (h_next ?p') ?m1 = Some m'"
      "chain m' prev (acoalesce ((prev, s + (t + HDR), True) # bs))"
      "\<forall>x. x \<notin> addrs ((prev, s + (t + HDR), True) # bs) \<longrightarrow> m' x = ?m1 x"
      by (rule Cons.IH [THEN exE]) (simp, blast)
    have "coalesce_loop prev (h_next p) m = coalesce_loop prev (h_next ?p') ?m1"
      using True p h Cons.prems(3) by (subst coalesce_loop.simps) simp
    then show ?thesis using m' True by (intro exI [of _ m']) auto
  next
    case False
    obtain m' where m': "coalesce_loop b (h_next h) m = Some m'"
      "chain m' b (acoalesce ((b, t, g) # bs))"
      "\<forall>x. x \<notin> addrs ((b, t, g) # bs) \<longrightarrow> m' x = m x"
      using Cons.IH [of m b t g _ h] h p sp by auto
    have "coalesce_loop prev (h_next p) m = coalesce_loop b (h_next h) m"
      using False p h Cons.prems(3) by (subst coalesce_loop.simps) auto
    moreover have "m' prev = Some p" using m'(3) ne prev_bs Cons.prems(3) by auto
    ultimately show ?thesis using m' False p by (intro exI [of _ m']) auto
  qed
qed

lemma acoalesce_spaced: "spaced lo bs \<Longrightarrow> spaced lo (acoalesce bs)"
proof (induction bs arbitrary: lo rule: acoalesce.induct)
  case (1 a s f b t g bs)
  have "unat (s + (t + HDR)) = unat s + unat t + 12"
    if "spaced (unat a + 12 + unat s) ((b, t, g) # bs)"
    using that spaced_bounds [OF that, of b t g]
    by (subst unat_plus32) (auto simp: unat_plus32 HDR_def HEAP_END_unat)
  then have "spaced lo ((a, s + (t + HDR), True) # bs)"
    using "1.prems" by (auto intro: spaced_weaken)
  with 1 show ?case by (cases "f \<and> g") auto
qed auto

lemma coalesce_blocks_refines:
  assumes "heap_inv k bs"
  obtains k' where "coalesce_blocks k = Some k'" "heap_inv k' (acoalesce bs)"
    "heap_head_ptr k' = heap_head_ptr k"
proof (cases bs)
  case Nil
  then show ?thesis
    using assms that [of k] by (simp add: heap_inv_def coalesce_blocks_def coalesce_loop.simps)
next
  case (Cons b bs')
  obtain a s f where [simp]: "b = (a, s, f)" by (cases b)
  have ch: "chain (headers k) a ((a, s, f) # bs')" and hd: "heap_head_ptr k = a"
    and sp: "spaced (unat HEAP_START) ((a, s, f) # bs')"
    using assms Cons by (auto simp: heap_inv_def split: option.splits)
  then obtain h where h: "headers k a = Some h" "a \<noteq> 0" by (auto split: option.splits)
  obtain m' where m': "coalesce_loop a (h_next h) (headers k) = Some m'"
    "chain m' a (acoalesce ((a, s, f) # bs'))"
    using coalesce_loop_chain [OF ch sp h(1)] by blast
  have "coalesce_loop 0 a (headers k) = Some m'"
    using h m'(1) by (subst coalesce_loop.simps) simp
  then show ?thesis
    using that [of "k\<lparr>headers := m'\<rparr>"] m'(2) hd acoalesce_spaced [OF sp] Cons
    by (simp add: coalesce_blocks_def heap_inv_def)
qed

lemma arelease_addrs: "spaced lo bs \<Longrightarrow> spaced lo (arelease p bs)"
  unfolding arelease_def by (induction lo bs rule: spaced.induct) auto

lemma arelease_chain:
  "chain m p bs \<Longrightarrow> m q = Some b \<Longrightarrow> spaced lo bs \<Longrightarrow>
     chain (m(q \<mapsto> b\<lparr>h_free := True\<rparr>)) p (arelease (q + HDR) bs)"
proof (induction bs arbitrary: p lo)
  case (Cons x bs)
  obtain a s f where [simp]: "x = (a, s, f)" by (cases x)
  from Cons.prems obtain h where h: "p = a" "a \<noteq> 0" "m a = Some h" "h_size h = s" "h_free h = f"
    "chain m (h_next h) bs" "spaced (unat a + 12 + unat s) bs"
    by (auto split: option.splits)
  from Cons.IH [OF h(6) Cons.prems(2) h(7)] h(1-5) Cons.prems(2) show ?case
    by (auto simp: arelease_def)
qed (simp add: arelease_def)

lemma kfree_refines:
  assumes inv: "heap_inv k bs" and b: "(a, s, f) \<in> set bs"
  obtains k' where "kfree (a + HDR) k = Some k'" "heap_inv k' (acoalesce (arelease (a + HDR) bs))"
    "heap_head_ptr k' = heap_head_ptr k"
proof -
  have sp: "spaced (unat HEAP_START) bs" and ch: "chain (headers k) (heap_head_ptr k) bs"
    using inv by (auto simp: heap_inv_def)
  obtain xs ys where bs: "bs = xs @ (a, s, f) # ys" using b by (meson split_list)
  obtain h where h: "headers k a = Some h" using chain_lookup [of "headers k"] ch bs by blast
  let ?k1 = "k\<lparr>headers := (headers k)(a \<mapsto> h\<lparr>h_free := True\<rparr>)\<rparr>"
  have "heap_inv ?k1 (arelease (a + HDR) bs)"
    using arelease_chain [OF ch h sp] arelease_addrs [OF sp] by (simp add: heap_inv_def)
  then obtain k' where k': "coalesce_blocks ?k1 = Some k'"
    "heap_inv k' (acoalesce (arelease (a + HDR) bs))" "heap_head_ptr k' = heap_head_ptr ?k1"
    by (rule coalesce_blocks_refines)
  have "a + HDR \<noteq> 0"
    using new_block_addr(2) [of a s 0] spaced_bounds [OF sp b] by simp
  with k' h that show ?thesis by (simp add: kfree_def)
qed

section \<open>The allocator interface\<close>

text \<open>
  What the rest of the kernel relies on: a region handed out by \<open>malloc\<close> overlaps no live
  region, and \<open>free\<close> takes exactly its region out. A region is a start address and a
  length in bytes. \<open>room n h\<close> is the caller's obligation on the request.
\<close>

definition apart :: "nat \<times> nat \<Rightarrow> nat \<times> nat \<Rightarrow> bool" where
  "apart r r' \<longleftrightarrow> fst r + snd r \<le> fst r' \<or> fst r' + snd r' \<le> fst r"

locale heap_allocator =
  fixes malloc :: "u32 \<Rightarrow> 'h \<Rightarrow> (u32 \<times> 'h) option"
    and free :: "u32 \<Rightarrow> 'h \<Rightarrow> 'h option"
    and inv :: "'h \<Rightarrow> bool"
    and live :: "'h \<Rightarrow> (nat \<times> nat) set"
    and room :: "u32 \<Rightarrow> 'h \<Rightarrow> bool"
  assumes malloc_spec: "inv h \<Longrightarrow> n \<noteq> 0 \<Longrightarrow> room n h \<Longrightarrow>
      \<exists>p h'. malloc n h = Some (p, h') \<and> inv h' \<and>
        (if p = 0 then live h' = live h
         else live h' = insert (unat p, unat n) (live h) \<and> (\<forall>r \<in> live h. apart (unat p, unat n) r))"
    and free_spec: "inv h \<Longrightarrow> (unat p, l) \<in> live h \<Longrightarrow>
      \<exists>h'. free p h = Some h' \<and> inv h' \<and> live h' = live h - {(unat p, l)}"
    and live_apart: "inv h \<Longrightarrow> r \<in> live h \<Longrightarrow> r' \<in> live h \<Longrightarrow> r \<noteq> r' \<Longrightarrow> apart r r'"
begin

lemma malloc_inv: "inv h \<Longrightarrow> n \<noteq> 0 \<Longrightarrow> room n h \<Longrightarrow> malloc n h = Some (p, h') \<Longrightarrow> inv h'"
  using malloc_spec [of h n] by fastforce

lemma malloc_fresh:
  assumes "inv h" "n \<noteq> 0" "room n h" "malloc n h = Some (p, h')" "p \<noteq> 0"
  shows "live h' = insert (unat p, unat n) (live h)" and "\<forall>r \<in> live h. apart (unat p, unat n) r"
  using malloc_spec [OF assms(1-3)] assms(4,5) by auto

text \<open>Two objects allocated one after the other do not overlap.\<close>

lemma two_mallocs_apart:
  assumes "inv h" "n \<noteq> 0" "room n h" "malloc n h = Some (p, h1)" "p \<noteq> 0"
    and "m \<noteq> 0" "room m h1" "malloc m h1 = Some (q, h2)" "q \<noteq> 0"
  shows "apart (unat q, unat m) (unat p, unat n)"
  using malloc_fresh(2) [OF malloc_inv [OF assms(1-4)] assms(6-9)] malloc_fresh(1) [OF assms(1-5)]
  by simp

text \<open>Releasing a fresh object restores the live set.\<close>

lemma malloc_free:
  assumes "inv h" "n \<noteq> 0" "room n h" "malloc n h = Some (p, h1)" "p \<noteq> 0"
    and "unat n \<noteq> 0"
  shows "\<exists>h2. free p h1 = Some h2 \<and> inv h2 \<and> live h2 = live h"
proof -
  note fresh = malloc_fresh [OF assms(1-5)]
  obtain h2 where h2: "free p h1 = Some h2" "inv h2" "live h2 = live h1 - {(unat p, unat n)}"
    using free_spec [OF malloc_inv [OF assms(1-4)], of p "unat n"] fresh(1) by auto
  have "(unat p, unat n) \<notin> live h"
    using fresh(2) assms(6) by (auto simp: apart_def)
  with h2 fresh(1) show ?thesis by auto
qed

end

definition kheap_ok :: "kheap \<Rightarrow> bool" where
  "kheap_ok k \<longleftrightarrow> (\<exists>bs. heap_inv k bs)"

definition regions :: "blk list \<Rightarrow> (nat \<times> nat) set" where
  "regions bs = {(unat a + 12, unat s) | a s. (a, s, False) \<in> set bs}"

definition kheap_live :: "kheap \<Rightarrow> (nat \<times> nat) set" where
  "kheap_live k = {r. \<exists>bs. heap_inv k bs \<and> r \<in> regions bs}"

definition kheap_room :: "u32 \<Rightarrow> kheap \<Rightarrow> bool" where
  "kheap_room n k \<longleftrightarrow> (\<forall>bs. heap_inv k bs \<longrightarrow> no_sliver n bs)"

lemma kheap_live_eq: "heap_inv k bs \<Longrightarrow> kheap_live k = regions bs"
  using heap_inv_det by (auto simp: kheap_live_def)

lemma spaced_apart:
  "spaced lo bs \<Longrightarrow> (a, s, f) \<in> set bs \<Longrightarrow> (b, t, g) \<in> set bs \<Longrightarrow>
     (a, s, f) = (b, t, g) \<or> unat a + 12 + unat s \<le> unat b \<or> unat b + 12 + unat t \<le> unat a"
proof (induction lo bs rule: spaced.induct)
  case (2 lo a' s' f' bs)
  then show ?case
    using spaced_bounds [of "unat a' + 12 + unat s'" bs] by auto
qed simp

lemma regions_apart:
  assumes "spaced lo bs" "r \<in> regions bs" "r' \<in> regions bs" "r \<noteq> r'"
  shows "apart r r'"
proof -
  obtain a s b t where "r = (unat a + 12, unat s)" "(a, s, False) \<in> set bs"
    "r' = (unat b + 12, unat t)" "(b, t, False) \<in> set bs"
    using assms by (auto simp: regions_def)
  then show ?thesis
    using spaced_apart [OF assms(1), of a s False b t False] assms(4) by (auto simp: apart_def)
qed

lemma regions_Cons [simp]:
  "regions ((a, s, f) # bs) =
     (if f then regions bs else insert (unat a + 12, unat s) (regions bs))"
  by (auto simp: regions_def)

lemma regions_append [simp]: "regions (xs @ ys) = regions xs \<union> regions ys"
  by (auto simp: regions_def)

lemma regions_Nil [simp]: "regions [] = {}"
  by (simp add: regions_def)

lemma regions_carve: "regions (carve n (a, s, f)) = {(unat a + 12, unat n)}"
  by (simp add: carve_def)

lemma regions_acoalesce: "regions (acoalesce bs) = regions bs"
  by (induction bs rule: acoalesce.induct) auto

lemma regions_arelease:
  assumes "spaced lo bs" "(a, s, False) \<in> set bs"
  shows "regions (arelease (a + HDR) bs) = regions bs - {(unat a + 12, unat s)}"
proof -
  have "(b, t, False) \<in> set (arelease (a + HDR) bs) \<longleftrightarrow> (b, t, False) \<in> set bs \<and> b \<noteq> a" for b t
  proof
    assume "(b, t, False) \<in> set (arelease (a + HDR) bs)"
    then show "(b, t, False) \<in> set bs \<and> b \<noteq> a"
      by (auto simp: arelease_def split: if_splits)
  next
    assume "(b, t, False) \<in> set bs \<and> b \<noteq> a"
    then show "(b, t, False) \<in> set (arelease (a + HDR) bs)"
      by (auto simp: arelease_def image_iff intro!: bexI [of _ "(b, t, False)"])
  qed
  moreover have "t = s" if "(a, t, False) \<in> set bs" for t
    using spaced_apart [OF assms(1) assms(2) that] by auto
  ultimately show ?thesis by (auto simp: regions_def dest!: word_unat_eq_iff [THEN iffD2])
qed

lemma regions_ptr:
  fixes p :: u32
  assumes "spaced lo bs" "(unat p, n) \<in> regions bs"
  obtains a s where "p = a + HDR" "n = unat s" "(a, s, False) \<in> set bs"
proof -
  obtain a s where as: "unat p = unat a + 12" "n = unat s" "(a, s, False) \<in> set bs"
    using assms(2) by (auto simp: regions_def)
  have "unat (a + HDR) = unat a + 12"
    using spaced_bounds [OF assms(1) as(3)] by (subst unat_plus32) (auto simp: HDR_def HEAP_END_unat)
  with as have "p = a + HDR" by (metis word_unat_eq_iff)
  with as that show ?thesis by blast
qed

interpretation kh: heap_allocator kmalloc kfree kheap_ok kheap_live kheap_room
proof unfold_locales
  fix k n
  assume "kheap_ok k" and n: "n \<noteq> 0" and room: "kheap_room n k"
  then obtain bs where inv: "heap_inv k bs" and ns: "no_sliver n bs"
    by (auto simp: kheap_ok_def kheap_room_def)
  obtain k' where k': "kmalloc n k = Some (fst (akmalloc n bs), k')"
      "heap_inv k' (snd (akmalloc n bs))"
    by (rule kmalloc_refines [OF inv n ns])
  note live = kheap_live_eq [OF inv] kheap_live_eq [OF k'(2)]
  show "\<exists>p k'. kmalloc n k = Some (p, k') \<and> kheap_ok k' \<and>
      (if p = 0 then kheap_live k' = kheap_live k
       else kheap_live k' = insert (unat p, unat n) (kheap_live k) \<and>
            (\<forall>r \<in> kheap_live k. apart (unat p, unat n) r))"
  proof (cases "find (fits n) bs")
    case None
    with k' live show ?thesis by (auto simp: akmalloc_none kheap_ok_def)
  next
    case (Some b)
    obtain a s f where [simp]: "b = (a, s, f)" by (cases b)
    obtain xs ys where bs: "bs = xs @ (a, s, f) # ys" "f" "n < s"
      and ak: "akmalloc n bs = (a + HDR, xs @ carve n (a, s, f) @ ys)"
      by (rule akmalloc_split [OF Some [simplified]])
    have sp: "spaced (unat HEAP_START) (snd (akmalloc n bs))" "spaced (unat HEAP_START) bs"
      using k'(2) inv by (auto simp: heap_inv_def)
    then have end_le: "unat a + 12 + unat s \<le> unat HEAP_END"
      using bs(1) spaced_bounds [of _ bs a s f] by auto
    have p: "unat (a + HDR) = unat a + 12"
      using new_block_addr(1) [OF end_le, of 0] by simp
    have new: "kheap_live k' = insert (unat (a + HDR), unat n) (kheap_live k)"
      using live p bs ak by (auto simp: regions_carve)
    have "apart (unat (a + HDR), unat n) r" if rl: "r \<in> kheap_live k" for r
    proof -
      obtain b' t where r: "r = (unat b' + 12, unat t)" "(b', t, False) \<in> set bs"
        using rl live(1) by (auto simp: regions_def)
      have "(a, s, True) \<in> set bs" using bs by simp
      from spaced_apart [OF sp(2) this r(2)] show ?thesis
        using p bs(3) r(1) by (auto simp: apart_def word_less_nat_alt)
    qed
    with k' new show ?thesis using new_block_addr(2) [OF end_le] ak by (auto simp: kheap_ok_def)
  qed
next
  fix k :: kheap and p :: u32 and n
  assume "kheap_ok k" and l: "(unat p, n) \<in> kheap_live k"
  then obtain bs where inv: "heap_inv k bs" by (auto simp: kheap_ok_def)
  then have sp: "spaced (unat HEAP_START) bs" by (simp add: heap_inv_def)
  obtain a s where as: "p = a + HDR" "n = unat s" "(a, s, False) \<in> set bs"
    using regions_ptr [OF sp] l kheap_live_eq [OF inv] by blast
  obtain k' where "kfree (a + HDR) k = Some k'" "heap_inv k' (acoalesce (arelease (a + HDR) bs))"
    by (rule kfree_refines [OF inv as(3)])
  moreover have "unat p = unat a + 12"
    using new_block_addr(1) [of a s 0] spaced_bounds [OF sp as(3)] as(1) by simp
  ultimately show "\<exists>k'. kfree p k = Some k' \<and> kheap_ok k' \<and> kheap_live k' = kheap_live k - {(unat p, n)}"
    using as regions_arelease [OF sp as(3)] kheap_live_eq [OF inv]
    by (auto simp: kheap_ok_def kheap_live_eq regions_acoalesce)
next
  fix k r r'
  assume "kheap_ok k" "r \<in> kheap_live k" "r' \<in> kheap_live k" "r \<noteq> r'"
  then show "apart r r'"
    using regions_apart kheap_live_eq by (metis heap_inv_def kheap_ok_def)
qed

section \<open>Properties\<close>

fun unmerged :: "blk list \<Rightarrow> bool" where
  "unmerged ((a, s, f) # (b, t, g) # bs) \<longleftrightarrow> f \<and> g \<or> unmerged ((b, t, g) # bs)"
| "unmerged bs \<longleftrightarrow> False"

lemma acoalesce_head: "\<exists>s' bs'. acoalesce ((a, s, f) # bs) = (a, s', f) # bs'"
  by (induction "(a, s, f) # bs" arbitrary: s f bs rule: acoalesce.induct) auto

lemma acoalesce_merged: "\<not> unmerged (acoalesce bs)"
proof (induction bs rule: acoalesce.induct)
  case (1 a s f b t g bs)
  show ?case
  proof (cases "f \<and> g")
    case True
    with 1 show ?thesis by simp
  next
    case False
    obtain t' bs' where "acoalesce ((b, t, g) # bs) = (b, t', g) # bs'"
      using acoalesce_head by blast
    with False 1 show ?thesis by simp
  qed
qed auto

lemma kheap_bounds:
  assumes "kheap_ok k" "(l, n) \<in> kheap_live k"
  shows "unat HEAP_START + 12 \<le> l" and "l + n \<le> unat HEAP_END"
proof -
  obtain bs where inv: "heap_inv k bs" using assms(1) by (auto simp: kheap_ok_def)
  obtain a s where "(a, s, False) \<in> set bs" "l = unat a + 12" "n = unat s"
    using assms(2) kheap_live_eq [OF inv] by (auto simp: regions_def)
  then show "unat HEAP_START + 12 \<le> l" and "l + n \<le> unat HEAP_END"
    using spaced_bounds [of "unat HEAP_START" bs a s False] inv by (auto simp: heap_inv_def)
qed

lemma init_heap_ok: "kheap_ok (init_heap k)" "kheap_live (init_heap k) = {}"
  using init_heap_inv kheap_live_eq [OF init_heap_inv] by (auto simp: kheap_ok_def)

lemma init_heap_room: "unat n \<le> 3145704 \<Longrightarrow> kheap_room n (init_heap k)"
  by (auto simp: kheap_room_def no_sliver_def HEAP_SIZE_def HDR_def
        dest!: heap_inv_det [OF init_heap_inv])

lemmas heap_eval = kmalloc_def kfree_def init_heap_def find_block.simps split_block_def
  coalesce_blocks_def coalesce_loop.simps HDR_def HEAP_START_def HEAP_SIZE_def Let_def





text \<open>an object that is allocated and then released leaves the live objects as they were.\<close>

theorem kmalloc_kfree_roundtrip:
  assumes "kheap_ok k" "n \<noteq> 0" "kheap_room n k" "kmalloc n k = Some (p, k1)" "p \<noteq> 0"
  shows "\<exists>k2. kfree p k1 = Some k2 \<and> kheap_ok k2 \<and> kheap_live k2 = kheap_live k"
proof (rule kh.malloc_free [OF assms])
  show "unat n \<noteq> 0" using assms(2) by (simp add: unat_eq_0)
qed

theorem kmalloc_kfree_roundtrip_witness:
  "\<exists>p k1 k2. kmalloc 512 (init_heap boot_heap) = Some (p, k1) \<and> p \<noteq> 0 \<and> kfree p k1 = Some k2 \<and>
     kheap_live k2 = {}"
proof -
  obtain k1 where "kmalloc 512 (init_heap boot_heap) = Some (0x10000C, k1)" by (simp add: heap_eval)
  from kmalloc_kfree_roundtrip [OF init_heap_ok(1) _ _ this] this init_heap_room [of 512 boot_heap]
    init_heap_ok(2) [of boot_heap]
  show ?thesis by auto
qed


text \<open>when a block is used whole, \<^verbatim>\<open>split_block\<close> still shrinks its recorded size to the
  request, so the slack never comes back: after allocating 60 bytes from a released block of
  100 bytes and releasing them, the block has 60 bytes.\<close>

theorem kmalloc_slack_lost:
  "do { (p, k1) \<leftarrow> kmalloc 100 (init_heap k); (q, k2) \<leftarrow> kmalloc 1 k1; k3 \<leftarrow> kfree p k2;
        (r, k4) \<leftarrow> kmalloc 60 k3; k5 \<leftarrow> kfree r k4;
        Some (r = p, map_option h_size (headers k3 (p - HDR)), map_option h_size (headers k5 (p - HDR))) }
   = Some (True, Some 100, Some 60)"
  by (simp add: heap_eval)

end
