(* ===== verification/PageTable.thy ===== *)
theory PageTable
  imports Frame Kmalloc
begin

text \<open>
  Virtual memory, \<^verbatim>\<open>kernel-space/kernel/page-table.c\<close>. Physical memory is seen the
  way the code uses it, as 4 KB frames of 1024 words: \<open>ram b i\<close> is word \<open>i\<close> of the frame at
  the page-aligned address \<open>b\<close>, so that \<^verbatim>\<open>pd->entries[i]\<close> is \<open>ram pd i\<close> and a
  \<^verbatim>\<open>memcpy\<close> of \<open>PAGE_SIZE\<close> bytes copies one row. Every pointer of the code to a table
  is a frame address or has its low 12 bits masked, so all rows are page-aligned. Writes to
  the tables go to physical memory: they happen with paging off or through the identity
  mapping that the code installs for exactly this purpose.
\<close>

section \<open>Model\<close>

definition KERNEL_START :: u32 where "KERNEL_START = 0"
definition PAGE_FLAG_KERNEL :: u32 where "PAGE_FLAG_KERNEL = 0x3"
definition PAGE_FLAG_USER :: u32 where "PAGE_FLAG_USER = 0x7"
definition USER_FUNC_VADDR :: u32 where "USER_FUNC_VADDR = 0x40000000"
definition USER_HEAP_VADDR :: u32 where "USER_HEAP_VADDR = 0x48000000"
definition USER_STACK_VADDR :: u32 where "USER_STACK_VADDR = 0x50000000"

record vm =
  ram :: "u32 \<Rightarrow> nat \<Rightarrow> u32"
  frames :: bitmap
  paging :: bool
  intr :: bool

definition pdi :: "u32 \<Rightarrow> nat" where "pdi v = unat (drop_bit 22 v)"
definition pti :: "u32 \<Rightarrow> nat" where "pti v = unat (drop_bit 12 v AND 0x3FF)"

definition table_of :: "u32 \<Rightarrow> u32" where "table_of e = e AND 0xFFFFF000"

definition set_entry :: "u32 \<Rightarrow> nat \<Rightarrow> u32 \<Rightarrow> vm \<Rightarrow> vm" where
  "set_entry b i w s = s\<lparr>ram := (ram s)(b := (ram s b)(i := w))\<rparr>"

definition alloc_frame :: "vm \<Rightarrow> (u32 \<times> vm) option" where
  "alloc_frame s = do { (a, bm) \<leftarrow> allocate_frame (frames s); Some (a, s\<lparr>frames := bm\<rparr>) }"

definition release_frame :: "u32 \<Rightarrow> vm \<Rightarrow> vm option" where
  "release_frame a s = do { bm \<leftarrow> free_frame a (frames s); Some (s\<lparr>frames := bm\<rparr>) }"

definition identity_map_in :: "u32 \<Rightarrow> u32 \<Rightarrow> vm \<Rightarrow> vm" where
  "identity_map_in pd phys_addr s =
     (let page_table = table_of (ram s pd (pdi phys_addr))
      in set_entry page_table (pti phys_addr) (phys_addr OR PAGE_FLAG_KERNEL) s)"

definition zero_entries :: "u32 \<Rightarrow> vm \<Rightarrow> vm" where
  "zero_entries b s = fold (\<lambda>i. set_entry b i 0) [0..<1024] s"

definition create_page_table :: "vm \<Rightarrow> (u32 \<times> vm) option" where
  "create_page_table s =
     do {
       (memory, s) \<leftarrow> alloc_frame s;
       if paging s then
         let s = s\<lparr>intr := False\<rparr>;
             s = s\<lparr>paging := False\<rparr>;
             s = zero_entries memory s;
             s = s\<lparr>paging := True\<rparr>;
             s = s\<lparr>intr := True\<rparr>
         in Some (memory, s)
       else Some (memory, zero_entries memory s)
     }"

definition map_page :: "u32 \<Rightarrow> u32 \<Rightarrow> u32 \<Rightarrow> u32 \<Rightarrow> vm \<Rightarrow> vm option" where
  "map_page page_directory virtual_address physical_address flags s =
     (let d = pdi virtual_address; t = pti virtual_address in
      if ram s page_directory d AND 1 \<noteq> 0 then
        let page_table = table_of (ram s page_directory d)
        in Some (set_entry page_table t (physical_address OR flags OR 1) s)
      else
        do {
          (page_table, s) \<leftarrow> create_page_table s;
          let s = set_entry page_directory d (page_table OR flags OR 1) s;
          let s = identity_map_in page_directory page_table s;
          Some (set_entry page_table t (physical_address OR flags OR 1) s)
        })"

definition create_page_directory :: "vm \<Rightarrow> (u32 \<times> vm) option" where
  "create_page_directory s =
     do {
       (memory, s) \<leftarrow> alloc_frame s;
       s \<leftarrow> map_page memory memory memory PAGE_FLAG_KERNEL (zero_entries memory s);
       Some (memory, s)
     }"

text \<open>
  The deep copy of \<^verbatim>\<open>fork\<close>. The inner loop copies the pages of one user table: every
  present page gets a frame of its own, filled by the \<^verbatim>\<open>memcpy\<close> of the whole page. Both
  frames are first entered into the identity mapping of the running (source) directory.
\<close>

definition copy_frame :: "u32 \<Rightarrow> u32 \<Rightarrow> vm \<Rightarrow> vm" where
  "copy_frame dest src s = s\<lparr>ram := (ram s)(dest := ram s src)\<rparr>"

fun copy_entries :: "u32 \<Rightarrow> u32 \<Rightarrow> u32 \<Rightarrow> nat list \<Rightarrow> vm \<Rightarrow> vm option" where
  "copy_entries source source_pt dest_page_table [] s = Some s"
| "copy_entries source source_pt dest_page_table (j # js) s =
     (if ram s source_pt j AND 1 \<noteq> 0 then
        do {
          let src_frame = ram s source_pt j AND 0xFFFFF000;
          (dest_frame, s) \<leftarrow> alloc_frame s;
          let s = identity_map_in source dest_frame s;
          let s = identity_map_in source src_frame s;
          let s = copy_frame dest_frame src_frame s;
          let flags = ram s source_pt j AND 0xFFF;
          let s = set_entry dest_page_table j (dest_frame OR flags) s;
          copy_entries source source_pt dest_page_table js s
        }
      else copy_entries source source_pt dest_page_table js s)"

fun copy_tables :: "u32 \<Rightarrow> u32 \<Rightarrow> nat list \<Rightarrow> vm \<Rightarrow> vm option" where
  "copy_tables dest source [] s = Some s"
| "copy_tables dest source (i # is) s =
     (if ram s source i AND 1 = 0 then copy_tables dest source is s
      else if push_bit 22 (of_nat i) < USER_FUNC_VADDR then
        copy_tables dest source is (set_entry dest i (ram s source i) s)
      else
        do {
          let source_pt = table_of (ram s source i);
          (dest_page_table, s) \<leftarrow> alloc_frame s;
          let s = identity_map_in source dest_page_table s;
          let s = zero_entries dest_page_table s;
          s \<leftarrow> copy_entries source source_pt dest_page_table [0..<1024] s;
          copy_tables dest source is
            (set_entry dest i (dest_page_table OR (ram s source i AND 0xFFF)) s)
        })"

definition copy_page_directory :: "u32 \<Rightarrow> u32 \<Rightarrow> vm \<Rightarrow> vm option" where
  "copy_page_directory dest source s = copy_tables dest source [0..<1024] s"

text \<open>\<^verbatim>\<open>clear_page_directory\<close>: the user pages and user tables go back to the allocator.\<close>

fun clear_entries :: "u32 \<Rightarrow> nat list \<Rightarrow> vm \<Rightarrow> vm option" where
  "clear_entries page_table [] s = Some s"
| "clear_entries page_table (j # js) s =
     (if ram s page_table j AND 1 \<noteq> 0 \<and> ram s page_table j AND 0x4 \<noteq> 0 then
        do {
          s \<leftarrow> release_frame (ram s page_table j AND 0xFFFFF000) s;
          clear_entries page_table js s
        }
      else clear_entries page_table js s)"

fun clear_tables :: "u32 \<Rightarrow> nat list \<Rightarrow> vm \<Rightarrow> vm option" where
  "clear_tables page_directory [] s = Some s"
| "clear_tables page_directory (i # is) s =
     (if ram s page_directory i AND 1 = 0 then clear_tables page_directory is s
      else if push_bit 22 (of_nat i) < USER_FUNC_VADDR then clear_tables page_directory is s
      else if ram s page_directory i AND 0x4 = 0 then clear_tables page_directory is s
      else
        do {
          let page_table = table_of (ram s page_directory i);
          s \<leftarrow> clear_entries page_table [0..<1024] s;
          s \<leftarrow> release_frame page_table s;
          clear_tables page_directory is (set_entry page_directory i 0 s)
        })"

definition clear_page_directory :: "u32 \<Rightarrow> vm \<Rightarrow> vm option" where
  "clear_page_directory page_directory s = clear_tables page_directory [0..<1024] s"

text \<open>
  Stores of the kernel to a user address go through the running directory: a page that is not
  mapped faults. \<open>put_bytes\<close> is a \<^verbatim>\<open>memcpy\<close> of at most a page to the start of a frame:
  little-endian words, the bytes of the last word beyond the copy kept.
\<close>

text \<open>
  The two-level walk of the x86 memory unit, as the comment of \<^verbatim>\<open>map_page\<close> describes
  it: the page-table entry for a virtual address, when both levels are present.
\<close>

definition walk :: "(u32 \<Rightarrow> nat \<Rightarrow> u32) \<Rightarrow> u32 \<Rightarrow> u32 \<Rightarrow> u32 option" where
  "walk m pd v =
     (let e = m pd (pdi v) in
      if e AND 1 = 0 then None
      else let t = m (table_of e) (pti v) in if t AND 1 = 0 then None else Some t)"

definition translate :: "(u32 \<Rightarrow> nat \<Rightarrow> u32) \<Rightarrow> u32 \<Rightarrow> u32 \<Rightarrow> u32 option" where
  "translate m pd v = map_option (\<lambda>t. table_of t OR (v AND 0xFFF)) (walk m pd v)"

definition merge_bytes :: "u8 list \<Rightarrow> u32 \<Rightarrow> u32" where
  "merge_bytes bs w =
     (w AND NOT (mask (8 * length bs))) OR foldr (\<lambda>b acc. push_bit 8 acc OR ucast b) bs 0"

definition put_bytes :: "u8 list \<Rightarrow> u32 \<Rightarrow> vm \<Rightarrow> vm" where
  "put_bytes bs a s = s\<lparr>ram := (ram s)(a := (\<lambda>i. merge_bytes (take 4 (drop (4 * i) bs)) (ram s a i)))\<rparr>"

definition write_page :: "u32 \<Rightarrow> u32 \<Rightarrow> (u32 \<Rightarrow> vm \<Rightarrow> vm) \<Rightarrow> vm \<Rightarrow> vm option" where
  "write_page pd vaddr f s =
     do { pa \<leftarrow> translate (ram s) pd vaddr; Some (f (table_of pa) s) }"

text \<open>
  The two loops of \<^verbatim>\<open>update_page_directory\<close> that lay out a program (\<open>n\<close> iterations
  from page \<open>i\<close>): its code copied to \<^verbatim>\<open>USER_FUNC_VADDR\<close>, then 32 cleared pages.
\<close>

fun load_code :: "u32 \<Rightarrow> u8 list \<Rightarrow> nat \<Rightarrow> nat \<Rightarrow> vm \<Rightarrow> vm option" where
  "load_code pd fn_bytes i 0 s = Some s"
| "load_code pd fn_bytes i (Suc n) s =
     do {
       (frame, s) \<leftarrow> alloc_frame s;
       let vaddr = USER_FUNC_VADDR + of_nat i * of_nat PAGE_SIZE;
       s \<leftarrow> map_page pd vaddr frame PAGE_FLAG_USER s;
       let offset = i * PAGE_SIZE;
       s \<leftarrow> write_page pd vaddr (put_bytes (take PAGE_SIZE (drop offset fn_bytes))) s;
       load_code pd fn_bytes (Suc i) n s
     }"

fun load_bss :: "u32 \<Rightarrow> nat \<Rightarrow> nat \<Rightarrow> vm \<Rightarrow> vm option" where
  "load_bss pd i 0 s = Some s"
| "load_bss pd i (Suc n) s =
     do {
       (frame, s) \<leftarrow> alloc_frame s;
       let vaddr = USER_FUNC_VADDR + of_nat i * of_nat PAGE_SIZE;
       s \<leftarrow> map_page pd vaddr frame PAGE_FLAG_USER s;
       s \<leftarrow> write_page pd vaddr zero_entries s;
       load_bss pd (Suc i) n s
     }"

definition user_entry_registers :: "u32 \<Rightarrow> registers \<Rightarrow> registers" where
  "user_entry_registers eflags0 regs =
     (let regs = regs\<lparr>r_eip := USER_FUNC_VADDR\<rparr>;
          regs = regs\<lparr>r_useresp := USER_STACK_VADDR + of_nat PAGE_SIZE - 4\<rparr>;
          regs = regs\<lparr>r_esp := r_useresp regs\<rparr>
      in regs\<lparr>r_cs := (3 * 8) OR 3, r_ss := (4 * 8) OR 3, r_eflags := eflags0 OR 0x200,
           r_eax := 0, r_ebx := 0, r_ecx := 0, r_edx := 0, r_esi := 0, r_edi := 0, r_ebp := 0\<rparr>)"

definition update_page_directory ::
  "u32 \<Rightarrow> u32 \<Rightarrow> u8 list \<Rightarrow> registers \<Rightarrow> vm \<Rightarrow> (registers \<times> vm) option" where
  "update_page_directory eflags0 pd fn_bytes regs s =
     (let code_pages = nat (c_ceil (int (length fn_bytes)) (int PAGE_SIZE));
          bss_pages = 32
      in do {
           s \<leftarrow> load_code pd fn_bytes 0 code_pages s;
           s \<leftarrow> load_bss pd code_pages bss_pages s;
           (user_stack_frame, s) \<leftarrow> alloc_frame s;
           s \<leftarrow> map_page pd USER_STACK_VADDR user_stack_frame PAGE_FLAG_USER s;
           Some (user_entry_registers eflags0 regs, s)
         })"

text \<open>
  \<^verbatim>\<open>create_kernel_page_directory\<close>: the kernel image and heap and the frame buffer at
  their own addresses, then one page of program and one of stack. It runs before paging is on,
  so its stores are physical. \<open>fb_start\<close> and \<open>fb_pages\<close> describe the loop over the frame
  buffer, whose address the boot loader chooses.
\<close>

fun map_identity :: "u32 \<Rightarrow> u32 \<Rightarrow> nat \<Rightarrow> vm \<Rightarrow> vm option" where
  "map_identity pd a 0 s = Some s"
| "map_identity pd a (Suc n) s =
     do {
       s \<leftarrow> map_page pd a a PAGE_FLAG_KERNEL s;
       map_identity pd (a + of_nat PAGE_SIZE) n s
     }"

definition create_kernel_page_directory ::
  "u32 \<Rightarrow> nat \<Rightarrow> u8 list \<Rightarrow> vm \<Rightarrow> (u32 \<times> vm) option" where
  "create_kernel_page_directory fb_start fb_pages fn_bytes s =
     do {
       (pd, s) \<leftarrow> create_page_directory s;
       s \<leftarrow> map_identity pd KERNEL_START ((unat HEAP_END - unat KERNEL_START + PAGE_SIZE - 1) div PAGE_SIZE) s;
       s \<leftarrow> map_identity pd fb_start fb_pages s;
       (user_func_frame, s) \<leftarrow> alloc_frame s;
       (user_stack_frame, s) \<leftarrow> alloc_frame s;
       let s = put_bytes (take PAGE_SIZE fn_bytes) user_func_frame s;
       s \<leftarrow> map_page pd USER_FUNC_VADDR user_func_frame PAGE_FLAG_USER s;
       s \<leftarrow> map_page pd USER_STACK_VADDR user_stack_frame PAGE_FLAG_USER s;
       Some (pd, s)
     }"

text \<open>
  The loop of \<^verbatim>\<open>sbrk\<close> (\<^verbatim>\<open>cpu/syscall.c\<close>) that backs the heap with cleared
  pages; \<open>n\<close> bounds its iterations, see \<open>sbrk_pages\<close>.
\<close>

fun sbrk_loop :: "u32 \<Rightarrow> nat \<Rightarrow> u32 \<Rightarrow> u32 \<Rightarrow> vm \<Rightarrow> vm option" where
  "sbrk_loop pd 0 page new_break s = (if page < new_break then None else Some s)"
| "sbrk_loop pd (Suc n) page new_break s =
     (if page < new_break then
        do {
          (frame, s) \<leftarrow> alloc_frame s;
          s \<leftarrow> map_page pd page frame PAGE_FLAG_USER s;
          s \<leftarrow> write_page pd page zero_entries s;
          sbrk_loop pd n (page + of_nat PAGE_SIZE) new_break s
        }
      else Some s)"

definition same_page :: "u32 \<Rightarrow> u32 \<Rightarrow> bool" where
  "same_page v w \<longleftrightarrow> pdi v = pdi w \<and> pti v = pti w"

definition page_aligned :: "u32 \<Rightarrow> bool" where
  "page_aligned a \<longleftrightarrow> a AND 0xFFF = 0"

abbreviation present :: "u32 \<Rightarrow> bool" where
  "present e \<equiv> e AND 1 \<noteq> 0"

section \<open>Entries and addresses\<close>

declare of_nat_mult [simp del]

lemma mask_split: "(b::u32) = (b AND 0xFFFFF000) OR (b AND 0xFFF)"
proof -
  have "b AND 0xFFFFF000 OR b AND 0xFFF = b AND (0xFFFFF000 OR 0xFFF)"
    by (simp only: bit.conj_disj_distrib)
  also have "(0xFFFFF000 OR 0xFFF :: u32) = - 1" by simp
  finally show ?thesis by simp
qed

lemma table_of_aligned: "page_aligned b \<Longrightarrow> table_of b = b"
  using mask_split [of b] by (simp add: page_aligned_def table_of_def)

lemma table_of_entry [simp]:
  assumes "page_aligned b" "table_of fl = 0"
  shows "table_of (b OR fl OR 1) = b" and "table_of (b OR fl) = b"
proof -
  have "table_of (x OR y) = table_of x OR table_of y" for x y
    by (simp add: table_of_def bit.conj_disj_distrib2)
  moreover have "table_of 1 = 0" by (simp add: table_of_def)
  ultimately show "table_of (b OR fl OR 1) = b" and "table_of (b OR fl) = b"
    using assms table_of_aligned by simp_all
qed

lemma present_entry [simp]: "present (x OR y OR 1)"
proof -
  have "bit ((x OR y OR 1) AND 1) 0" by (simp add: bit_simps)
  then show ?thesis by (metis bit_0_eq bot_apply bot_bool_def)
qed

lemma table_of_flags [simp]: "table_of PAGE_FLAG_KERNEL = 0" "table_of PAGE_FLAG_USER = 0"
  by (simp_all add: table_of_def PAGE_FLAG_KERNEL_def PAGE_FLAG_USER_def)

lemma frame_aligned: "page_aligned (of_nat (f * PAGE_SIZE))"
proof -
  have "(of_nat (f * PAGE_SIZE) :: u32) AND mask 12 = take_bit 12 (of_nat (f * PAGE_SIZE))"
    by (simp only: take_bit_eq_mask)
  also have "\<dots> = of_nat (take_bit 12 (f * PAGE_SIZE))" by (simp only: take_bit_of_nat)
  also have "take_bit 12 (f * PAGE_SIZE) = 0" by (simp add: take_bit_eq_mod PAGE_SIZE_def)
  finally show ?thesis by (simp add: page_aligned_def mask_eq_exp_minus_1)
qed

lemma table_of_is_aligned: "page_aligned (table_of e)"
  by (simp add: page_aligned_def table_of_def and.assoc)

lemma pdi_bound: "pdi v < 1024"
proof -
  have "unat (drop_bit 22 v) = unat v div 2 ^ 22" by (simp add: drop_bit_eq_div unat_div)
  then show ?thesis using unat_lt32 [of v] unfolding pdi_def by simp
qed

lemma pti_bound: "pti v < 1024"
proof -
  have "drop_bit 12 v AND 0x3FF \<le> (0x3FF :: u32)" by (rule word_and_le1)
  then show ?thesis by (simp add: pti_def word_le_nat_alt)
qed

lemma ram_set_entry [simp]:
  "ram (set_entry b i w s) c = (if c = b then (ram s b)(i := w) else ram s c)"
  by (simp add: set_entry_def)

lemma set_entry_rest [simp]:
  "frames (set_entry b i w s) = frames s" "paging (set_entry b i w s) = paging s"
  "intr (set_entry b i w s) = intr s"
  by (simp_all add: set_entry_def)

lemma fold_zero:
  "ram (fold (\<lambda>i. set_entry b i 0) is s) c =
     (if c = b then (\<lambda>i. if i \<in> set is then 0 else ram s b i) else ram s c)
   \<and> frames (fold (\<lambda>i. set_entry b i 0) is s) = frames s
   \<and> paging (fold (\<lambda>i. set_entry b i 0) is s) = paging s
   \<and> intr (fold (\<lambda>i. set_entry b i 0) is s) = intr s"
  by (induction "is" arbitrary: s) (auto simp: fun_eq_iff)

lemma zero_entries [simp]:
  "ram (zero_entries b s) c = (if c = b then (\<lambda>i. if i < 1024 then 0 else ram s b i) else ram s c)"
  "frames (zero_entries b s) = frames s" "paging (zero_entries b s) = paging s"
  "intr (zero_entries b s) = intr s"
  using fold_zero [of b "[0..<1024]" s c] fold_zero [of b "[0..<1024]" s]
  by (simp_all add: zero_entries_def)

lemma identity_map_in_ram:
  "ram (identity_map_in pd a s) c =
     (if c = table_of (ram s pd (pdi a))
      then (ram s c)(pti a := a OR PAGE_FLAG_KERNEL) else ram s c)"
  by (simp add: identity_map_in_def)

lemma identity_map_in_rest [simp]:
  "frames (identity_map_in pd a s) = frames s" "paging (identity_map_in pd a s) = paging s"
  "intr (identity_map_in pd a s) = intr s"
  by (simp_all add: identity_map_in_def)

section \<open>The invariant of an address space\<close>

definition owned :: "u32 \<Rightarrow> bitmap \<Rightarrow> bool" where
  "owned a bm \<longleftrightarrow> (\<exists>f. 0 < f \<and> f < NUM_FRAMES \<and> f \<in> used bm \<and> a = of_nat (f * PAGE_SIZE))"

text \<open>
  A directory and its tables are different allocated frames, and an entry that is not
  present is 0 (the code clears whole entries).
\<close>

definition vm_ok :: "u32 \<Rightarrow> vm \<Rightarrow> bool" where
  "vm_ok pd s \<longleftrightarrow> bitmap_ok (frames s) \<and> owned pd (frames s)
     \<and> (\<forall>i<1024. present (ram s pd i) \<longrightarrow>
          owned (table_of (ram s pd i)) (frames s) \<and> table_of (ram s pd i) \<noteq> pd)
     \<and> (\<forall>i<1024. \<not> present (ram s pd i) \<longrightarrow> ram s pd i = 0)
     \<and> (\<forall>i<1024. \<forall>j<1024. present (ram s pd i) \<longrightarrow> present (ram s pd j) \<longrightarrow>
          table_of (ram s pd i) = table_of (ram s pd j) \<longrightarrow> i = j)"

definition room :: "vm \<Rightarrow> bool" where
  "room s \<longleftrightarrow> \<not> {1..<NUM_FRAMES} \<subseteq> used (frames s)"

lemma frame_inj:
  assumes "f < NUM_FRAMES" "g < NUM_FRAMES"
    and "(of_nat (f * PAGE_SIZE) :: u32) = of_nat (g * PAGE_SIZE)"
  shows "f = g"
proof -
  from assms(3) have "f * PAGE_SIZE = g * PAGE_SIZE"
    by (metis frame_addr assms(1,2))
  then show ?thesis by (simp add: PAGE_SIZE_def)
qed

lemma owned_aligned: "owned a bm \<Longrightarrow> page_aligned a"
  by (auto simp: owned_def frame_aligned)

lemma owned_nonzero: "owned a bm \<Longrightarrow> a \<noteq> 0"
proof
  assume "owned a bm" "a = 0"
  then obtain f where "0 < f" "f < NUM_FRAMES" "(of_nat (f * PAGE_SIZE) :: u32) = 0"
    by (auto simp: owned_def)
  then show False using frame_addr [of f] by (simp add: PAGE_SIZE_def)
qed

lemma owned_mono: "owned a bm \<Longrightarrow> used bm \<subseteq> used bm' \<Longrightarrow> owned a bm'"
  by (auto simp: owned_def)

lemma fresh_not_owned:
  assumes "owned a bm" "f < NUM_FRAMES" "f \<notin> used bm"
  shows "a \<noteq> of_nat (f * PAGE_SIZE)"
  using assms frame_inj by (auto simp: owned_def)

text \<open>An allocation under \<open>room\<close>, seen from the address space.\<close>

lemma alloc_frame_fresh [fault_free]:
  assumes "bitmap_ok (frames s)" "room s"
  obtains f bm where "alloc_frame s = Some (of_nat (f * PAGE_SIZE), s\<lparr>frames := bm\<rparr>)"
    "0 < f" "f < NUM_FRAMES" "f \<notin> used (frames s)" "bitmap_ok bm" "used bm = insert f (used (frames s))"
proof -
  obtain a bm where al: "allocate_frame (frames s) = Some (a, bm)"
    using fa.alloc_returns [OF assms(1)] by blast
  have "a \<noteq> 0" using fa.alloc_fails_iff_full [OF assms(1) al] assms(2) by (simp add: room_def)
  from fa.alloc_success [OF assms(1) al this] that al show ?thesis
    by (auto simp: alloc_frame_def)
qed

lemma alloc_frame_full:
  assumes "bitmap_ok (frames s)" "\<not> room s"
  shows "\<exists>bm. alloc_frame s = Some (0, s\<lparr>frames := bm\<rparr>)"
proof -
  obtain a bm where al: "allocate_frame (frames s) = Some (a, bm)"
    using fa.alloc_returns [OF assms(1)] by blast
  have "a = 0" using fa.alloc_fails_iff_full [OF assms(1) al] assms(2) by (simp add: room_def)
  with al show ?thesis by (auto simp: alloc_frame_def)
qed

lemma create_page_table_alloc:
  assumes "alloc_frame s = Some (a, s1)"
  obtains s2 where "create_page_table s = Some (a, s2)" "frames s2 = frames s1"
    "paging s2 = paging s1"
    "ram s2 = (ram s1)(a := (\<lambda>i. if i < 1024 then 0 else ram s1 a i))"
  using assms that
  by (cases "paging s1") (auto simp: create_page_table_def fun_eq_iff)

section \<open>Pages\<close>

lemma bit_mask10 [simp]: "bit (0x3FF :: int) n \<longleftrightarrow> n < 10"
proof -
  have eq: "(0x3FF :: int) = mask 10" by (simp add: mask_eq_exp_minus_1)
  show ?thesis unfolding eq by (simp only: bit_mask_iff possible_bit_int simp_thms)
qed

lemma bit_pagemask [simp]: "bit (0xFFFFF000 :: int) n \<longleftrightarrow> 12 \<le> n \<and> n < 32"
proof -
  have eq: "(0xFFFFF000 :: int) = push_bit 12 (mask 20)"
    by (simp add: mask_eq_exp_minus_1 push_bit_eq_mult)
  show ?thesis unfolding eq bit_push_bit_iff bit_mask_iff by auto
qed

lemma same_page_iff: "same_page v w \<longleftrightarrow> table_of v = table_of w"
proof
  assume "same_page v w"
  then have d: "drop_bit 22 v = drop_bit 22 w"
    and t: "drop_bit 12 v AND 0x3FF = drop_bit 12 w AND (0x3FF :: u32)"
    by (simp_all add: same_page_def pdi_def pti_def word_unat_eq_iff)
  have "bit v n = bit w n" if "12 \<le> n" "n < 32" for n
  proof (cases "n < 22")
    case True
    with that t have "bit (drop_bit 12 v AND 0x3FF) (n - 12) = bit (drop_bit 12 w AND (0x3FF :: u32)) (n - 12)"
      by simp
    with True that show ?thesis by (auto simp: bit_and_iff bit_drop_bit_eq)
  next
    case False
    from d have "bit (drop_bit 22 v) (n - 22) = bit (drop_bit 22 w) (n - 22)" by simp
    with False show ?thesis by (simp add: bit_drop_bit_eq)
  qed
  then show "table_of v = table_of w"
    by (intro bit_word_eqI) (auto simp: table_of_def bit_and_iff)
next
  assume eq: "table_of v = table_of w"
  have hi: "bit v n = bit w n" if "12 \<le> n" for n
  proof -
    have "bit (table_of v) n = bit (table_of w) n" using eq by simp
    moreover have "\<not> bit v n \<and> \<not> bit w n" if "32 \<le> n" using that by (auto dest: bit_imp_le_length)
    ultimately show ?thesis using that by (cases "n < 32") (auto simp: table_of_def bit_and_iff)
  qed
  have "drop_bit 22 v = drop_bit 22 w" by (intro bit_word_eqI) (simp add: bit_drop_bit_eq hi)
  moreover have "drop_bit 12 v = drop_bit 12 w" by (intro bit_word_eqI) (simp add: bit_drop_bit_eq hi)
  ultimately show "same_page v w" by (simp add: same_page_def pdi_def pti_def)
qed

lemma same_page_base:
  assumes "page_aligned t" "same_page w t"
  shows "t OR (w AND 0xFFF) = w"
  using mask_split [of w] assms table_of_aligned [of t]
  by (simp add: same_page_iff) (simp add: table_of_def)

section \<open>Mapping a page\<close>

lemma map_page_present:
  assumes "present (ram s pd (pdi v))"
  shows "map_page pd v p fl s
     = Some (set_entry (table_of (ram s pd (pdi v))) (pti v) (p OR fl OR 1) s)"
  using assms by (simp add: map_page_def Let_def)

text \<open>The memory after \<^verbatim>\<open>map_page\<close> had to create a table at \<open>t\<close>.\<close>

definition after_new_table :: "u32 \<Rightarrow> u32 \<Rightarrow> u32 \<Rightarrow> u32 \<Rightarrow> u32 \<Rightarrow> vm \<Rightarrow> vm" where
  "after_new_table t pd v p fl s =
     set_entry t (pti v) (p OR fl OR 1)
       (identity_map_in pd t (set_entry pd (pdi v) (t OR fl OR 1) (zero_entries t s)))"

lemma ram_cong:
  assumes "ram a = ram b"
  shows "ram (set_entry c i w a) = ram (set_entry c i w b)"
    and "ram (identity_map_in pd t a) = ram (identity_map_in pd t b)"
  using assms by (simp_all add: set_entry_def identity_map_in_def Let_def)

lemma map_page_new:
  assumes "\<not> present (ram s pd (pdi v))" "alloc_frame s = Some (t, s1)" "ram s1 = ram s"
  obtains s' where "map_page pd v p fl s = Some s'" "frames s' = frames s1"
    "ram s' = ram (after_new_table t pd v p fl s)"
proof -
  obtain s2 where s2: "create_page_table s = Some (t, s2)" "frames s2 = frames s1"
      "ram s2 = (ram s1)(t := (\<lambda>i. if i < 1024 then 0 else ram s1 t i))"
    by (rule create_page_table_alloc [OF assms(2)])
  then have eq: "ram s2 = ram (zero_entries t s)" using assms(3) by (simp add: fun_eq_iff)
  let ?s = "set_entry t (pti v) (p OR fl OR 1)
       (identity_map_in pd t (set_entry pd (pdi v) (t OR fl OR 1) s2))"
  have "map_page pd v p fl s = Some ?s"
    using assms(1) s2(1) by (simp add: map_page_def Let_def)
  moreover have "ram ?s = ram (after_new_table t pd v p fl s)"
    unfolding after_new_table_def by (intro ram_cong eq)
  ultimately show ?thesis using that [of ?s] s2(2) by simp
qed

lemma vm_ok_table:
  assumes "vm_ok pd s" "i < 1024" "present (ram s pd i)"
  shows "owned (table_of (ram s pd i)) (frames s)" "table_of (ram s pd i) \<noteq> pd"
  using assms by (simp_all add: vm_ok_def)

lemma vm_ok_inj:
  assumes "vm_ok pd s" "i < 1024" "j < 1024" "present (ram s pd i)" "present (ram s pd j)"
    "table_of (ram s pd i) = table_of (ram s pd j)"
  shows "i = j"
proof -
  have "\<forall>i<1024. \<forall>j<1024. present (ram s pd i) \<longrightarrow> present (ram s pd j) \<longrightarrow>
          table_of (ram s pd i) = table_of (ram s pd j) \<longrightarrow> i = j"
    using assms(1) unfolding vm_ok_def by (elim conjE)
  with assms show ?thesis by iprover
qed

lemma vm_ok_absent: "vm_ok pd s \<Longrightarrow> i < 1024 \<Longrightarrow> \<not> present (ram s pd i) \<Longrightarrow> ram s pd i = 0"
  by (simp add: vm_ok_def)

lemma walk_set_entry_present:
  assumes ok: "vm_ok pd s" and pr: "present (ram s pd (pdi v))"
  shows "walk (ram (set_entry (table_of (ram s pd (pdi v))) (pti v) (p OR fl OR 1) s)) pd w
     = (if same_page w v then Some (p OR fl OR 1) else walk (ram s) pd w)"
proof (cases "pdi w = pdi v")
  case True
  then show ?thesis using vm_ok_table(2) [OF ok pdi_bound pr] pr
    by (simp add: walk_def Let_def same_page_def)
next
  case False
  then have "table_of (ram s pd (pdi w)) \<noteq> table_of (ram s pd (pdi v))"
    if "present (ram s pd (pdi w))"
    using vm_ok_inj [OF ok pdi_bound pdi_bound that pr] by iprover
  with False vm_ok_table(2) [OF ok pdi_bound pr] show ?thesis
    by (simp add: walk_def Let_def same_page_def)
qed

text \<open>The rows of memory after the creation of a table, one by one.\<close>

lemma after_new_table_rows:
  fixes p :: u32
  assumes ok: "vm_ok pd s" and ab: "\<not> present (ram s pd (pdi v))"
    and t: "owned t bm" and t_pd: "t \<noteq> pd" and fl: "table_of fl = 0"
  defines "m \<equiv> ram (after_new_table t pd v p fl s)"
  defines "tp \<equiv> if pdi t = pdi v then t else table_of (ram s pd (pdi t))"
  shows "m pd = (ram s pd)(pdi v := t OR fl OR 1)"
    and "i < 1024 \<Longrightarrow> m t i = (if i = pti v then p OR fl OR 1
           else if tp = t \<and> i = pti t then t OR PAGE_FLAG_KERNEL else 0)"
    and "c \<noteq> pd \<Longrightarrow> c \<noteq> t \<Longrightarrow> c \<noteq> tp \<Longrightarrow> m c = ram s c"
    and "tp \<noteq> pd \<Longrightarrow> tp \<noteq> t \<Longrightarrow> m tp = (ram s tp)(pti t := t OR PAGE_FLAG_KERNEL)"
    and "tp \<noteq> pd"
proof -
  have tab: "table_of (t OR fl OR 1) = t" using owned_aligned [OF t] fl by simp
  have pd0: "pd \<noteq> 0" using ok owned_nonzero by (auto simp: vm_ok_def)
  show tp_pd: "tp \<noteq> pd"
  proof (cases "present (ram s pd (pdi t))")
    case True
    with vm_ok_table(2) [OF ok pdi_bound True] t_pd show ?thesis by (simp add: tp_def)
  next
    case False
    with vm_ok_absent [OF ok pdi_bound False] t_pd pd0 show ?thesis
      by (simp add: tp_def table_of_def)
  qed
  let ?s = "set_entry pd (pdi v) (t OR fl OR 1) (zero_entries t s)"
  have row: "ram ?s c = (if c = pd then (ram s pd)(pdi v := t OR fl OR 1)
      else if c = t then (\<lambda>i. if i < 1024 then 0 else ram s t i) else ram s c)" for c
    using t_pd by simp
  have tgt: "table_of (ram ?s pd (pdi t)) = tp" unfolding row tp_def using tab by simp
  have im: "ram (identity_map_in pd t ?s) c =
      (if c = tp then (ram ?s c)(pti t := t OR PAGE_FLAG_KERNEL) else ram ?s c)" for c
    unfolding identity_map_in_ram tgt by simp
  show "m pd = (ram s pd)(pdi v := t OR fl OR 1)"
    unfolding m_def after_new_table_def ram_set_entry im row using t_pd tp_pd by simp
  show "i < 1024 \<Longrightarrow> m t i = (if i = pti v then p OR fl OR 1
           else if tp = t \<and> i = pti t then t OR PAGE_FLAG_KERNEL else 0)"
    unfolding m_def after_new_table_def ram_set_entry im row using t_pd by auto
  show "c \<noteq> pd \<Longrightarrow> c \<noteq> t \<Longrightarrow> c \<noteq> tp \<Longrightarrow> m c = ram s c"
    unfolding m_def after_new_table_def ram_set_entry im row by simp
  show "tp \<noteq> pd \<Longrightarrow> tp \<noteq> t \<Longrightarrow> m tp = (ram s tp)(pti t := t OR PAGE_FLAG_KERNEL)"
    unfolding m_def after_new_table_def ram_set_entry im row by simp
qed

lemma present_kernel [simp]: "present (t OR PAGE_FLAG_KERNEL)"
proof -
  have "bit ((t OR PAGE_FLAG_KERNEL) AND 1) 0" by (simp add: bit_simps PAGE_FLAG_KERNEL_def)
  then show ?thesis by (metis bit_0_eq bot_apply bot_bool_def)
qed

lemma walk_new_table:
  assumes ok: "vm_ok pd s" and ab: "\<not> present (ram s pd (pdi v))"
    and t: "owned t bm" and fresh: "\<not> owned t (frames s)" and fl: "table_of fl = 0"
  shows "walk (ram (after_new_table t pd v p fl s)) pd w =
     (if same_page w v then Some (p OR fl OR 1)
      else if same_page w t \<and> (pdi t = pdi v \<or> present (ram s pd (pdi t)))
        then Some (t OR PAGE_FLAG_KERNEL)
      else walk (ram s) pd w)"
proof -
  let ?m = "ram (after_new_table t pd v p fl s)"
  let ?tp = "if pdi t = pdi v then t else table_of (ram s pd (pdi t))"
  have t_pd: "t \<noteq> pd" using ok fresh by (auto simp: vm_ok_def)
  note rows = after_new_table_rows [OF ok ab t t_pd fl]
  have tab: "table_of (t OR fl OR 1) = t" using owned_aligned [OF t] fl by simp
  show ?thesis
  proof (cases "pdi w = pdi v")
    case True
    define e where "e = ?m t (pti w)"
    have W: "walk ?m pd w = (if e AND 1 = 0 then None else Some e)"
      unfolding walk_def rows(1) using True by (simp add: Let_def tab e_def)
    have E: "e = (if pti w = pti v then p OR fl OR 1
           else if ?tp = t \<and> pti w = pti t then t OR PAGE_FLAG_KERNEL else 0)"
      unfolding e_def by (rule rows(2) [OF pti_bound])
    have tp: "?tp = t \<longleftrightarrow> pdi t = pdi v"
    proof (cases "present (ram s pd (pdi t))")
      case True
      from vm_ok_table(1) [OF ok pdi_bound True] fresh show ?thesis by auto
    next
      case False
      from vm_ok_absent [OF ok pdi_bound False] owned_nonzero [OF t] show ?thesis
        by (simp add: table_of_def)
    qed
    have None: "walk (ram s) pd w = None" using True ab by (simp add: walk_def)
    show ?thesis using True None W E unfolding tp
      by (cases "pti w = pti v"; cases "pdi t = pdi v \<and> pti w = pti t")
        (auto simp: same_page_def)
  next
    case False
    then have e: "?m pd (pdi w) = ram s pd (pdi w)" by (simp add: rows(1))
    show ?thesis
    proof (cases "present (ram s pd (pdi w))")
      case abs: False
      then show ?thesis using False e by (auto simp: walk_def same_page_def)
    next
      case pr: True
      let ?T = "table_of (ram s pd (pdi w))"
      have T: "?T \<noteq> pd" "?T \<noteq> t" using vm_ok_table [OF ok pdi_bound pr] fresh by auto
      have row: "?m ?T (pti w) = (if same_page w t then t OR PAGE_FLAG_KERNEL else ram s ?T (pti w))"
      proof (cases "?T = ?tp")
        case True
        then have "table_of (ram s pd (pdi w)) = table_of (ram s pd (pdi t))" "pdi t \<noteq> pdi v"
          using T(2) by (auto split: if_splits)
        moreover have "present (ram s pd (pdi t))"
        proof (rule ccontr)
          assume "\<not> ?thesis"
          then have "ram s pd (pdi t) = 0" using vm_ok_absent [OF ok pdi_bound, of t] by simp
          then have "?T = 0" using calculation(1) by (simp add: table_of_def)
          then show False using vm_ok_table(1) [OF ok pdi_bound pr] owned_nonzero by blast
        qed
        ultimately have "pdi w = pdi t" using vm_ok_inj [OF ok pdi_bound pdi_bound pr] by metis
        with rows(4) T True show ?thesis by (auto simp: same_page_def)
      next
        case False
        then have "\<not> same_page w t" using \<open>pdi w \<noteq> pdi v\<close> by (auto simp: same_page_def)
        with rows(3) [OF T(1,2)] False show ?thesis by simp
      qed
      have "walk ?m pd w = (if ?m ?T (pti w) AND 1 = 0 then None else Some (?m ?T (pti w)))"
        unfolding walk_def e using pr by (simp add: Let_def)
      moreover have "walk (ram s) pd w = (if ram s ?T (pti w) AND 1 = 0 then None else Some (ram s ?T (pti w)))"
        unfolding walk_def using pr by (simp add: Let_def)
      moreover have "same_page w t \<Longrightarrow> present (ram s pd (pdi t))" using pr by (simp add: same_page_def)
      ultimately show ?thesis unfolding row using False by (simp add: same_page_def)
    qed
  qed
qed

section \<open>map\_page keeps the invariant\<close>

lemma vm_ok_cong:
  assumes "vm_ok pd s" "ram s' pd = ram s pd" "frames s' = frames s"
  shows "vm_ok pd s'"
  using assms(1) unfolding vm_ok_def assms(2,3) .

lemma vm_ok_new_entry:
  assumes ok: "vm_ok pd s" and row: "ram s' pd = (ram s pd)(d := t OR fl OR 1)"
    and bm: "bitmap_ok (frames s')" "used (frames s) \<subseteq> used (frames s')"
    and t: "owned t (frames s')" "\<not> owned t (frames s)" and fl: "table_of fl = 0"
  shows "vm_ok pd s'"
proof -
  have tab: "table_of (t OR fl OR 1) = t" using owned_aligned [OF t(1)] fl by simp
  have mono: "owned a (frames s) \<Longrightarrow> owned a (frames s')" for a by (rule owned_mono [OF _ bm(2)])
  have pd: "owned pd (frames s)" using ok by (simp add: vm_ok_def)
  have ne: "table_of (ram s pd i) \<noteq> t" if "i < 1024" "present (ram s pd i)" for i
    using vm_ok_table(1) [OF ok that] t(2) by auto
  show ?thesis
    unfolding vm_ok_def row
  proof (intro conjI allI impI)
    fix i j
    assume i: "i < 1024" "j < (1024::nat)" and p: "present (((ram s pd)(d := t OR fl OR 1)) i)"
      "present (((ram s pd)(d := t OR fl OR 1)) j)"
      "table_of (((ram s pd)(d := t OR fl OR 1)) i) = table_of (((ram s pd)(d := t OR fl OR 1)) j)"
    show "i = j"
      using p ne [OF i(1)] ne [OF i(2)] tab vm_ok_inj [OF ok i]
      by (cases "i = d"; cases "j = d") auto
  qed (use bm(1) mono pd tab t vm_ok_table [OF ok] vm_ok_absent [OF ok] in \<open>auto split: if_splits\<close>)
qed

lemma map_page_ok [inv_kept]:
  assumes ok: "vm_ok pd s" and r: "room s" and fl: "table_of fl = 0"
  obtains s' where "map_page pd v p fl s = Some s'" "vm_ok pd s'"
    "\<And>w. same_page w v \<Longrightarrow> walk (ram s') pd w = Some (p OR fl OR 1)"
    "\<And>w. \<not> same_page w v \<Longrightarrow> walk (ram s') pd w = walk (ram s) pd w
       \<or> walk (ram s') pd w = Some (table_of w OR PAGE_FLAG_KERNEL)
         \<and> owned (table_of w) (frames s') \<and> \<not> owned (table_of w) (frames s)"
proof (cases "present (ram s pd (pdi v))")
  case True
  let ?s = "set_entry (table_of (ram s pd (pdi v))) (pti v) (p OR fl OR 1) s"
  show ?thesis
  proof (rule that)
    show "map_page pd v p fl s = Some ?s" by (rule map_page_present [OF True])
    show "vm_ok pd ?s"
      by (rule vm_ok_cong [OF ok]) (use vm_ok_table(2) [OF ok pdi_bound True] in auto)
  qed (simp_all only: walk_set_entry_present [OF ok True] simp_thms if_True if_False)
next
  case False
  have bm: "bitmap_ok (frames s)" and pd: "owned pd (frames s)" using ok by (simp_all add: vm_ok_def)
  obtain f b where al: "alloc_frame s = Some (of_nat (f * PAGE_SIZE), s\<lparr>frames := b\<rparr>)"
    and f: "0 < f" "f < NUM_FRAMES" "f \<notin> used (frames s)" "bitmap_ok b" "used b = insert f (used (frames s))"
    by (rule alloc_frame_fresh [OF bm r])
  let ?t = "of_nat (f * PAGE_SIZE) :: u32"
  have t: "owned ?t b" "\<not> owned ?t (frames s)"
    using f fresh_not_owned [OF _ f(2,3)] unfolding owned_def by blast+
  then have tpd: "?t \<noteq> pd" using pd by auto
  obtain s' where s': "map_page pd v p fl s = Some s'" "frames s' = b"
      "ram s' = ram (after_new_table ?t pd v p fl s)"
    by (rule map_page_new [where p = p and fl = fl, OF False al]) auto
  have base: "table_of w = ?t" if "same_page w ?t" for w
    using that table_of_aligned [OF frame_aligned] by (simp add: same_page_iff)
  show ?thesis
  proof (rule that [OF s'(1)])
    show "vm_ok pd s'"
      by (rule vm_ok_new_entry [OF ok, of s' "pdi v" ?t fl])
        (use s' f t fl in \<open>auto simp: after_new_table_rows(1) [OF ok False t(1) tpd fl]\<close>)
  next
    fix w
    assume "\<not> same_page w v"
    then show "walk (ram s') pd w = walk (ram s) pd w
       \<or> walk (ram s') pd w = Some (table_of w OR PAGE_FLAG_KERNEL)
         \<and> owned (table_of w) (frames s') \<and> \<not> owned (table_of w) (frames s)"
      using base [of w] t unfolding s' walk_new_table [OF ok False t fl] by auto
  qed (simp add: s' walk_new_table [OF ok False t fl])
qed

section \<open>Frames that hold data\<close>

text \<open>An allocated frame that is neither the directory nor one of its tables.\<close>

definition data_frame :: "u32 \<Rightarrow> vm \<Rightarrow> u32 \<Rightarrow> bool" where
  "data_frame pd s c \<longleftrightarrow> owned c (frames s) \<and> c \<noteq> pd
     \<and> (\<forall>i<1024. present (ram s pd i) \<longrightarrow> table_of (ram s pd i) \<noteq> c)"

definition free_count :: "vm \<Rightarrow> nat" where
  "free_count s = card ({1..<NUM_FRAMES} - used (frames s))"

lemma room_iff: "room s \<longleftrightarrow> 0 < free_count s"
  by (auto simp: room_def free_count_def card_gt_0_iff)

lemma free_count_insert:
  assumes "0 < f" "f < NUM_FRAMES" "f \<notin> used (frames s)" "used (frames s') = insert f (used (frames s))"
  shows "Suc (free_count s') = free_count s"
proof -
  have "{1..<NUM_FRAMES} - used (frames s) = insert f ({1..<NUM_FRAMES} - used (frames s'))"
    using assms by auto
  then show ?thesis unfolding free_count_def assms(4)
    using assms(4) by (metis DiffD2 card_insert_disjoint finite_Diff finite_atLeastLessThan insertI1)
qed

lemma owned_low: "owned a bm \<Longrightarrow> a < USER_FUNC_VADDR"
proof -
  assume "owned a bm"
  then obtain f where "f < NUM_FRAMES" "a = of_nat (f * PAGE_SIZE)" by (auto simp: owned_def)
  then have "unat a = f * PAGE_SIZE" "f < 32768" using frame_addr by (auto simp: NUM_FRAMES_eq)
  then show ?thesis by (simp add: word_less_nat_alt USER_FUNC_VADDR_def PAGE_SIZE_def)
qed

lemma below_user: "w < USER_FUNC_VADDR \<longleftrightarrow> drop_bit 30 w = 0"
proof -
  have "drop_bit 30 w = 0 \<longleftrightarrow> unat w div 2 ^ 30 = 0"
    by (simp add: word_unat_eq_iff drop_bit_eq_div unat_div)
  then show ?thesis by (simp add: word_less_nat_alt USER_FUNC_VADDR_def div_eq_0_iff)
qed

lemma user_page_not_owned: "USER_FUNC_VADDR \<le> w \<Longrightarrow> \<not> owned (table_of w) bm"
proof
  assume w: "USER_FUNC_VADDR \<le> w" and "owned (table_of w) bm"
  then have "drop_bit 30 (table_of w) = 0" using owned_low below_user by blast
  moreover have "drop_bit 30 (table_of w) = drop_bit 30 w"
    by (intro bit_word_eqI, unfold bit_drop_bit_eq table_of_def bit_and_iff comp_apply)
      (auto dest: bit_imp_le_length)
  ultimately show False using w below_user [of w] by simp
qed

lemma map_page_data:
  assumes ok: "vm_ok pd s" and r: "room s" and fl: "table_of fl = 0"
    and m: "map_page pd v p fl s = Some s'"
  shows "data_frame pd s c \<Longrightarrow> data_frame pd s' c \<and> ram s' c = ram s c"
    and "free_count s \<le> Suc (free_count s')"
    and "used (frames s) \<subseteq> used (frames s')"
proof -
  have bm: "bitmap_ok (frames s)" and pd: "owned pd (frames s)" using ok by (simp_all add: vm_ok_def)
  have "(data_frame pd s c \<longrightarrow> data_frame pd s' c \<and> ram s' c = ram s c)
    \<and> free_count s \<le> Suc (free_count s') \<and> used (frames s) \<subseteq> used (frames s')"
  proof (cases "present (ram s pd (pdi v))")
    case True
    then have s': "s' = set_entry (table_of (ram s pd (pdi v))) (pti v) (p OR fl OR 1) s"
      using m map_page_present [OF True, of p fl] by simp
    have "table_of (ram s pd (pdi v)) \<noteq> pd" by (rule vm_ok_table(2) [OF ok pdi_bound True])
    then show ?thesis using True pdi_bound unfolding s'
      by (auto simp: data_frame_def free_count_def)
  next
    case False
    obtain f b where al: "alloc_frame s = Some (of_nat (f * PAGE_SIZE), s\<lparr>frames := b\<rparr>)"
      and f: "0 < f" "f < NUM_FRAMES" "f \<notin> used (frames s)" "bitmap_ok b" "used b = insert f (used (frames s))"
      by (rule alloc_frame_fresh [OF bm r])
    let ?t = "of_nat (f * PAGE_SIZE) :: u32"
    have t: "owned ?t b" "\<not> owned ?t (frames s)"
      using f fresh_not_owned [OF _ f(2,3)] unfolding owned_def by blast+
    then have tpd: "?t \<noteq> pd" using pd by auto
    have tab: "table_of (?t OR fl OR 1) = ?t" using frame_aligned fl by simp
    obtain s2 where s2: "map_page pd v p fl s = Some s2" "frames s2 = b"
        "ram s2 = ram (after_new_table ?t pd v p fl s)"
      by (rule map_page_new [where p = p and fl = fl, OF False al]) auto
    then have s': "frames s' = b" "ram s' = ram (after_new_table ?t pd v p fl s)" using m by auto
    note rows = after_new_table_rows [OF ok False t(1) tpd fl]
    have "data_frame pd s' c \<and> ram s' c = ram s c" if d: "data_frame pd s c"
    proof -
      have c: "owned c (frames s)" "c \<noteq> pd" using d by (simp_all add: data_frame_def)
      have ct: "c \<noteq> ?t" using c(1) t(2) by auto
      have "c \<noteq> table_of (ram s pd (pdi ?t))"
      proof (cases "present (ram s pd (pdi ?t))")
        case True
        then show ?thesis using d pdi_bound unfolding data_frame_def by blast
      next
        case False
        then show ?thesis using vm_ok_absent [OF ok pdi_bound False] owned_nonzero [OF c(1)]
          by (simp add: table_of_def)
      qed
      then have "ram s' c = ram s c" unfolding s' by (intro rows(3)) (use c ct in auto)
      moreover have "data_frame pd s' c"
        unfolding data_frame_def s' rows(1)
        using d c ct tab f owned_mono [of c "frames s" b] by (auto simp: data_frame_def)
      ultimately show ?thesis by simp
    qed
    moreover have "Suc (free_count s') = free_count s"
      by (rule free_count_insert [OF f(1,2,3)]) (simp add: s' f)
    ultimately show ?thesis using f(5) s' by auto
  qed
  then show "data_frame pd s c \<Longrightarrow> data_frame pd s' c \<and> ram s' c = ram s c"
    and "free_count s \<le> Suc (free_count s')"
    and "used (frames s) \<subseteq> used (frames s')" by blast+
qed

lemma translate_entry:
  "walk m pd w = Some (p OR fl OR 1) \<Longrightarrow> page_aligned p \<Longrightarrow> table_of fl = 0
     \<Longrightarrow> translate m pd w = Some (p OR (w AND 0xFFF))"
  by (simp add: translate_def)

lemma walk_data:
  assumes "data_frame pd s c" "\<And>d. d \<noteq> c \<Longrightarrow> ram s' d = ram s d"
  shows "walk (ram s') pd w = walk (ram s) pd w"
proof -
  have pd: "ram s' pd = ram s pd" using assms by (auto simp: data_frame_def)
  have tb: "present (ram s pd (pdi w)) \<Longrightarrow> ram s' (table_of (ram s pd (pdi w))) = ram s (table_of (ram s pd (pdi w)))"
    using assms pdi_bound by (auto simp: data_frame_def)
  show ?thesis unfolding walk_def pd using tb by (simp add: Let_def)
qed

lemma vm_ok_more_frames:
  assumes ok: "vm_ok pd s" and b: "bitmap_ok b" "used (frames s) \<subseteq> used b"
  shows "vm_ok pd (s\<lparr>frames := b\<rparr>)"
  using ok b(1) owned_mono [OF _ b(2)] unfolding vm_ok_def by simp

text \<open>
  One turn of the loops that populate a user area: a frame is taken, mapped and filled.
\<close>

lemma fresh_page:
  assumes ok: "vm_ok pd s" and fc: "2 \<le> free_count s"
    and page: "page_aligned page" "USER_FUNC_VADDR \<le> page"
    and fill: "\<And>a s c. c \<noteq> a \<Longrightarrow> ram (fill a s) c = ram s c" "\<And>a s. frames (fill a s) = frames s"
  obtains frame s1 s2 where "alloc_frame s = Some (frame, s1)"
    "map_page pd page frame PAGE_FLAG_USER s1 = Some s2"
    "write_page pd page fill s2 = Some (fill frame s2)"
    "vm_ok pd (fill frame s2)" "free_count s \<le> free_count (fill frame s2) + 2"
    "data_frame pd (fill frame s2) frame" "\<not> owned frame (frames s)"
    "used (frames s) \<subseteq> used (frames (fill frame s2))"
    "\<And>w. USER_FUNC_VADDR \<le> w \<Longrightarrow> walk (ram (fill frame s2)) pd w
       = (if same_page w page then Some (frame OR PAGE_FLAG_USER OR 1) else walk (ram s) pd w)"
    "\<And>c. data_frame pd s c \<Longrightarrow> data_frame pd (fill frame s2) c \<and> ram (fill frame s2) c = ram s c"
proof -
  have bm: "bitmap_ok (frames s)" using ok by (simp add: vm_ok_def)
  have "room s" using fc by (simp add: room_iff)
  then obtain f b where al: "alloc_frame s = Some (of_nat (f * PAGE_SIZE), s\<lparr>frames := b\<rparr>)"
    and f: "0 < f" "f < NUM_FRAMES" "f \<notin> used (frames s)" "bitmap_ok b" "used b = insert f (used (frames s))"
    by (rule alloc_frame_fresh [OF bm])
  let ?f = "of_nat (f * PAGE_SIZE) :: u32" and ?s1 = "s\<lparr>frames := b\<rparr>"
  have sub: "used (frames s) \<subseteq> used b" using f(5) by blast
  have new: "owned ?f b" "\<not> owned ?f (frames s)"
    using f fresh_not_owned [OF _ f(2,3)] unfolding owned_def by blast+
  have ok1: "vm_ok pd ?s1" by (rule vm_ok_more_frames [OF ok f(4) sub])
  have df1: "data_frame pd ?s1 ?f"
    unfolding data_frame_def
  proof (intro conjI allI impI)
    show "?f \<noteq> pd" using new(2) ok by (auto simp: vm_ok_def)
    fix i assume "i < 1024" "present (ram ?s1 pd i)"
    then show "table_of (ram ?s1 pd i) \<noteq> ?f" using vm_ok_table(1) [OF ok] new(2) by force
  qed (simp add: new(1))
  have keep1: "data_frame pd ?s1 c" if "data_frame pd s c" for c
    using that owned_mono [OF _ sub] by (simp add: data_frame_def)
  have fc1: "Suc (free_count ?s1) = free_count s" by (rule free_count_insert [OF f(1,2,3)]) (simp add: f)
  then have r1: "room ?s1" using fc by (simp add: room_iff)
  obtain s2 where s2: "map_page pd page ?f PAGE_FLAG_USER ?s1 = Some s2" "vm_ok pd s2"
    and at: "\<And>w. same_page w page \<Longrightarrow> walk (ram s2) pd w = Some (?f OR PAGE_FLAG_USER OR 1)"
    and other: "\<And>w. \<not> same_page w page \<Longrightarrow> walk (ram s2) pd w = walk (ram ?s1) pd w
       \<or> walk (ram s2) pd w = Some (table_of w OR PAGE_FLAG_KERNEL)
         \<and> owned (table_of w) (frames s2) \<and> \<not> owned (table_of w) (frames ?s1)"
    by (rule map_page_ok [where v = page and p = "?f", OF ok1 r1 table_of_flags(2)]) blast
  note data2 = map_page_data [OF ok1 r1 table_of_flags(2) s2(1)]
  have df2: "data_frame pd s2 ?f" using data2(1) [OF df1] by simp
  have pa: "translate (ram s2) pd page = Some (?f OR (page AND 0xFFF))"
    by (rule translate_entry [OF at frame_aligned table_of_flags(2)]) (simp add: same_page_iff)
  have wp: "write_page pd page fill s2 = Some (fill ?f s2)"
    using pa page(1) table_of_aligned [OF frame_aligned] by (simp add: write_page_def page_aligned_def)
  have row: "\<And>c. c \<noteq> ?f \<Longrightarrow> ram (fill ?f s2) c = ram s2 c" for c by (rule fill(1))
  have "pd \<noteq> ?f" using df2 unfolding data_frame_def by metis
  then have rpd: "ram (fill ?f s2) pd = ram s2 pd" by (rule row)
  have ok3: "vm_ok pd (fill ?f s2)" by (rule vm_ok_cong [OF s2(2) rpd fill(2)])
  have wk: "walk (ram (fill ?f s2)) pd w
      = (if same_page w page then Some (?f OR PAGE_FLAG_USER OR 1) else walk (ram s) pd w)"
    if "USER_FUNC_VADDR \<le> w" for w
  proof -
    have "walk (ram (fill ?f s2)) pd w = walk (ram s2) pd w"
      by (rule walk_data [OF df2]) (rule row)
    then show ?thesis using at [of w] other [of w] user_page_not_owned [OF that] by simp
  qed
  have keep: "data_frame pd (fill ?f s2) c \<and> ram (fill ?f s2) c = ram s c" if d: "data_frame pd s c" for c
  proof -
    have "c \<noteq> ?f" using d new by (auto simp: data_frame_def)
    then show ?thesis using data2(1) [OF keep1 [OF d]] row fill(2) rpd by (simp add: data_frame_def)
  qed
  have df3: "data_frame pd (fill ?f s2) ?f"
    using df2 fill(2) by (simp add: data_frame_def rpd)
  have fc3: "free_count s \<le> free_count (fill ?f s2) + 2"
    using fc1 data2(2) fill(2) by (simp add: free_count_def)
  have grow: "used (frames s) \<subseteq> used (frames (fill ?f s2))" using sub data2(3) fill(2) by simp
  show ?thesis by (rule that [OF al s2(1) wp ok3 fc3 df3 new(2) grow wk keep])
qed

section \<open>Populating a range of user pages\<close>

lemma page_floor:
  fixes x p :: nat
  assumes "p div 4096 * 4096 = p"
  shows "x div 4096 * 4096 = p \<longleftrightarrow> p \<le> x \<and> x < p + 4096"
proof -
  define q where "q = p div 4096"
  have p: "p = q * 4096" using assms by (simp add: q_def)
  have "x div 4096 = q \<longleftrightarrow> q * 4096 \<le> x \<and> x < q * 4096 + 4096" by linarith
  then show ?thesis unfolding p by simp
qed

lemma unat_table_of: "unat (table_of w) = unat w div 4096 * 4096"
proof -
  have m: "(0xFFF :: u32) = mask 12" by (simp add: mask_eq_exp_minus_1)
  have off: "unat (w AND 0xFFF) = unat w mod 4096"
    unfolding m by (simp add: take_bit_eq_mask [symmetric] take_bit_eq_mod unat_mod)
  have "table_of w + (w AND 0xFFF) = table_of w OR (w AND 0xFFF)"
    unfolding m by (rule disjunctive_add) (auto simp: table_of_def bit_simps)
  also have "\<dots> = w" using mask_split [of w] by (simp add: table_of_def)
  finally have "table_of w = w - (w AND 0xFFF)" by (metis add_diff_cancel_right')
  moreover have "w AND 0xFFF \<le> w" by (rule word_and_le2)
  ultimately have "unat (table_of w) = unat w - unat w mod 4096" by (simp add: unat_minus32 off)
  then show ?thesis by (simp add: minus_mod_eq_div_mult)
qed

lemma same_page_range:
  assumes "page_aligned p"
  shows "same_page w p \<longleftrightarrow> unat p \<le> unat w \<and> unat w < unat p + 4096"
proof -
  have p: "unat p div 4096 * 4096 = unat p" using unat_table_of [of p] table_of_aligned [OF assms] by simp
  show ?thesis
    unfolding same_page_iff word_unat_eq_iff unat_table_of p by (rule page_floor [OF p])
qed

lemma next_page:
  assumes "page_aligned p" "unat p + 4096 < 2 ^ 32"
  shows "unat (p + of_nat PAGE_SIZE) = unat p + 4096" "page_aligned (p + of_nat PAGE_SIZE)"
proof -
  have u: "unat (p + of_nat PAGE_SIZE) = unat p + 4096"
    using assms(2) by (simp add: unat_plus32 PAGE_SIZE_def)
  then show "unat (p + of_nat PAGE_SIZE) = unat p + 4096" .
  have "unat p div 4096 * 4096 = unat p" using unat_table_of [of p] table_of_aligned [OF assms(1)] by simp
  then have "unat (table_of (p + of_nat PAGE_SIZE)) = unat (p + of_nat PAGE_SIZE)"
    unfolding unat_table_of u by (simp add: div_add_self2)
  then have "table_of (p + of_nat PAGE_SIZE) = p + of_nat PAGE_SIZE" by (simp add: word_unat_eq_iff)
  then show "page_aligned (p + of_nat PAGE_SIZE)" by (metis table_of_is_aligned)
qed

text \<open>What the user area of a directory looks like at an address: a cleared private frame.\<close>

definition fresh_zero_at :: "u32 \<Rightarrow> bitmap \<Rightarrow> vm \<Rightarrow> u32 \<Rightarrow> bool" where
  "fresh_zero_at pd bm s w \<longleftrightarrow> (\<exists>f. walk (ram s) pd w = Some (f OR PAGE_FLAG_USER OR 1)
     \<and> data_frame pd s f \<and> \<not> owned f bm \<and> (\<forall>i<1024. ram s f i = 0))"

text \<open>
  From \<open>s\<close> to \<open>s'\<close> exactly the user pages between \<open>lo\<close> and \<open>hi\<close> were populated with cleared
  private frames; every other user page and all data frames are as before.
\<close>

definition populated :: "u32 \<Rightarrow> nat \<Rightarrow> nat \<Rightarrow> vm \<Rightarrow> vm \<Rightarrow> bool" where
  "populated pd lo hi s s' \<longleftrightarrow> vm_ok pd s' \<and> used (frames s) \<subseteq> used (frames s')
     \<and> (\<forall>w. lo \<le> unat w \<and> unat w < hi \<longrightarrow> fresh_zero_at pd (frames s) s' w)
     \<and> (\<forall>w\<ge>USER_FUNC_VADDR. \<not> (lo \<le> unat w \<and> unat w < hi) \<longrightarrow>
          walk (ram s') pd w = walk (ram s) pd w)
     \<and> (\<forall>c. data_frame pd s c \<longrightarrow> data_frame pd s' c \<and> ram s' c = ram s c)"

lemma populated_none: "vm_ok pd s \<Longrightarrow> populated pd lo lo s s"
  by (auto simp: populated_def)

lemma populated_page:
  assumes "vm_ok pd s" "page_aligned page" "USER_FUNC_VADDR \<le> page" "2 \<le> free_count s"
  obtains frame s1 s2 where "alloc_frame s = Some (frame, s1)"
    "map_page pd page frame PAGE_FLAG_USER s1 = Some s2"
    "write_page pd page zero_entries s2 = Some (zero_entries frame s2)"
    "populated pd (unat page) (unat page + 4096) s (zero_entries frame s2)"
    "free_count s \<le> free_count (zero_entries frame s2) + 2"
proof (rule fresh_page [where fill = zero_entries, OF assms(1,4,2,3)])
  fix frame s1 s2
  let ?s = "zero_entries frame s2"
  assume step: "alloc_frame s = Some (frame, s1)"
      "map_page pd page frame PAGE_FLAG_USER s1 = Some s2"
      "write_page pd page zero_entries s2 = Some ?s"
    and ok: "vm_ok pd ?s" and fc: "free_count s \<le> free_count ?s + 2"
    and df: "data_frame pd ?s frame" "\<not> owned frame (frames s)"
    and un: "used (frames s) \<subseteq> used (frames ?s)"
    and wk: "\<And>w. USER_FUNC_VADDR \<le> w \<Longrightarrow> walk (ram ?s) pd w
       = (if same_page w page then Some (frame OR PAGE_FLAG_USER OR 1) else walk (ram s) pd w)"
    and keep: "\<And>c. data_frame pd s c \<Longrightarrow> data_frame pd ?s c \<and> ram ?s c = ram s c"
  have "fresh_zero_at pd (frames s) ?s w" if w: "unat page \<le> unat w" "unat w < unat page + 4096" for w
  proof -
    have "same_page w page" "USER_FUNC_VADDR \<le> w"
      using w same_page_range [OF assms(2)] assms(3) by (simp_all add: word_le_nat_alt)
    then have "walk (ram ?s) pd w = Some (frame OR PAGE_FLAG_USER OR 1)" using wk by simp
    moreover have "\<forall>i<1024. ram ?s frame i = 0" by simp
    ultimately show ?thesis using df unfolding fresh_zero_at_def by blast
  qed
  moreover have "walk (ram ?s) pd w = walk (ram s) pd w"
    if "USER_FUNC_VADDR \<le> w" "\<not> (unat page \<le> unat w \<and> unat w < unat page + 4096)" for w
    using wk [OF that(1)] that(2) same_page_range [OF assms(2)] by simp
  ultimately have "populated pd (unat page) (unat page + 4096) s ?s"
    using ok un keep unfolding populated_def by blast
  then show thesis by (rule that [OF step _ fc])
qed simp_all

lemma populated_trans:
  assumes a: "populated pd lo mid s t" and b: "populated pd mid hi t u"
    and "unat USER_FUNC_VADDR \<le> lo" "lo \<le> mid" "mid \<le> hi"
  shows "populated pd lo hi s u"
proof -
  have un: "used (frames s) \<subseteq> used (frames t)" using a by (simp add: populated_def)
  have "fresh_zero_at pd (frames s) u w" if "lo \<le> unat w" "unat w < hi" for w
  proof (cases "unat w < mid")
    case True
    with a that obtain f where "walk (ram t) pd w = Some (f OR PAGE_FLAG_USER OR 1)"
        "data_frame pd t f" "\<not> owned f (frames s)" "\<forall>i<1024. ram t f i = 0"
      unfolding populated_def fresh_zero_at_def by blast
    moreover have "USER_FUNC_VADDR \<le> w" using that(1) assms(3) by (simp add: word_le_nat_alt)
    ultimately show ?thesis using b True unfolding populated_def fresh_zero_at_def
      by (metis linorder_not_le)
  next
    case False
    then have "fresh_zero_at pd (frames t) u w" using b that(2) by (simp add: populated_def)
    then show ?thesis using owned_mono [OF _ un] unfolding fresh_zero_at_def by blast
  qed
  moreover have "walk (ram u) pd w = walk (ram s) pd w"
    if "USER_FUNC_VADDR \<le> w" "\<not> (lo \<le> unat w \<and> unat w < hi)" for w
  proof -
    have "\<not> (lo \<le> unat w \<and> unat w < mid)" "\<not> (mid \<le> unat w \<and> unat w < hi)"
      using that(2) assms(4,5) by auto
    with a b that(1) show ?thesis unfolding populated_def by simp
  qed
  moreover have "data_frame pd u c \<and> ram u c = ram s c" if "data_frame pd s c" for c
    using a b that unfolding populated_def by simp
  ultimately show ?thesis using a b unfolding populated_def by blast
qed

lemma sbrk_loop_populates:
  assumes "vm_ok pd s" "page_aligned page" "USER_FUNC_VADDR \<le> page"
    and "unat page + n * 4096 < 2 ^ 32" "unat nb \<le> unat page + n * 4096"
    and "0 < n \<Longrightarrow> unat page + n * 4096 < unat nb + 4096" and "2 * n \<le> free_count s"
  shows "\<exists>s'. sbrk_loop pd n page nb s = Some s'
     \<and> populated pd (unat page) (unat page + n * 4096) s s'"
  using assms
proof (induction n arbitrary: s page)
  case 0
  then show ?case using populated_none by (auto simp: word_less_nat_alt)
next
  case (Suc n)
  have "2 \<le> free_count s" using Suc.prems(7) by simp
  then obtain frame s1 s2 where step: "alloc_frame s = Some (frame, s1)"
      "map_page pd page frame PAGE_FLAG_USER s1 = Some s2"
      "write_page pd page zero_entries s2 = Some (zero_entries frame s2)"
    and pop: "populated pd (unat page) (unat page + 4096) s (zero_entries frame s2)"
    and fc: "free_count s \<le> free_count (zero_entries frame s2) + 2"
    by (rule populated_page [OF Suc.prems(1-3)])
  let ?s = "zero_entries frame s2" and ?p = "page + of_nat PAGE_SIZE"
  have ok: "vm_ok pd ?s" using pop by (simp add: populated_def)
  have p: "unat ?p = unat page + 4096" "page_aligned ?p"
    using next_page [OF Suc.prems(2)] Suc.prems(4) by auto
  have lt: "page < nb" using Suc.prems(6) by (simp add: word_less_nat_alt)
  have up: "USER_FUNC_VADDR \<le> ?p" using Suc.prems(3) p by (simp add: word_le_nat_alt)
  have h: "unat ?p + n * 4096 < 2 ^ 32" "unat nb \<le> unat ?p + n * 4096"
      "0 < n \<Longrightarrow> unat ?p + n * 4096 < unat nb + 4096" "2 * n \<le> free_count ?s"
    using Suc.prems(4-7) p(1) fc by simp_all
  obtain s' where s': "sbrk_loop pd n ?p nb ?s = Some s'"
      "populated pd (unat page + 4096) (unat page + 4096 + n * 4096) ?s s'"
    using Suc.IH [OF ok p(2) up h] p(1) by auto
  have "populated pd (unat page) (unat page + Suc n * 4096) s s'"
    using populated_trans [OF pop s'(2)] Suc.prems(3) by (simp add: word_le_nat_alt algebra_simps)
  moreover have "sbrk_loop pd (Suc n) page nb s = Some s'" using step s'(1) lt by simp
  ultimately show ?case by blast
qed

section \<open>Translation\<close>

lemma translate_identity:
  assumes "walk m pd w = Some (table_of w OR PAGE_FLAG_KERNEL)"
  shows "translate m pd w = Some w"
  using assms mask_split [of w] table_of_is_aligned [of w]
  by (simp add: translate_def) (simp add: table_of_def)


definition vm_example :: vm where
  "vm_example = \<lparr>ram = \<lambda>_ _. 0, frames = (replicate 1024 0)[0 := 2], paging = True, intr = True\<rparr>"

lemma used_example: "used ((replicate 1024 0)[0 := 2]) = {1}"
proof -
  have b: "bit (2 :: int) n \<longleftrightarrow> n = 1" for n by (auto simp: bit_2_iff)
  have "x \<in> used ((replicate 1024 0)[0 := 2]) \<longleftrightarrow> x = 1" for x
  proof (cases "x div 32 = 0")
    case True
    then show ?thesis by (auto simp: used_def b)
  next
    case False
    then have "x \<noteq> 1" by auto
    with False show ?thesis by (simp add: used_def)
  qed
  then show ?thesis by blast
qed

lemma vm_example_ok: "vm_ok 0x1000 vm_example" "room vm_example"
proof -
  have "owned 0x1000 ((replicate 1024 0)[0 := 2])"
    unfolding owned_def used_example by (rule exI [of _ 1]) (simp add: NUM_FRAMES_eq PAGE_SIZE_def)
  then show "vm_ok 0x1000 vm_example"
    by (simp add: vm_ok_def vm_example_def bitmap_ok_def NUM_FRAMES_eq)
  show "room vm_example"
    unfolding room_def vm_example_def by (auto simp: used_example NUM_FRAMES_eq dest: subsetD [of _ _ 2])
qed


section \<open>A new directory\<close>

lemma empty_directory_ok:
  assumes "bitmap_ok (frames s)" "owned pd (frames s)" "\<And>i. i < 1024 \<Longrightarrow> ram s pd i = 0"
  shows "vm_ok pd s" and "walk (ram s) pd w = None"
  using assms pdi_bound [of w] by (simp_all add: vm_ok_def walk_def)



section \<open>What goes wrong at the limits\<close>

text \<open>
  Interrupts: with paging on, the creation of a table always ends with interrupts enabled,
  also inside the system calls, which the processor enters with interrupts disabled.
\<close>

lemma create_page_table_enables_interrupts:
  "paging s \<Longrightarrow> create_page_table s = Some (t, s') \<Longrightarrow> intr s'"
  by (auto simp: create_page_table_def alloc_frame_def split: bind_splits)

text \<open>when memory is exhausted \<^verbatim>\<open>map_page\<close> does not fail: the 0 that
  \<^verbatim>\<open>allocate_frame\<close> returns is taken for a frame, and the directory entry it installs
  makes physical page 0 a page table.\<close>

theorem map_page_out_of_memory:
  assumes "vm_ok pd s" "\<not> room s" "\<not> present (ram s pd (pdi v))" "table_of fl = 0"
  shows "\<exists>s'. map_page pd v p fl s = Some s' \<and> ram s' pd (pdi v) = fl OR 1
     \<and> ram s' 0 (pti v) = p OR fl OR 1"
proof -
  have bm: "bitmap_ok (frames s)" and pd: "pd \<noteq> 0"
    using assms(1) owned_nonzero by (auto simp: vm_ok_def)
  obtain b where al: "alloc_frame s = Some (0, s\<lparr>frames := b\<rparr>)"
    using alloc_frame_full [OF bm assms(2)] by blast
  obtain s' where s': "map_page pd v p fl s = Some s'" "ram s' = ram (after_new_table 0 pd v p fl s)"
    by (rule map_page_new [where p = p and fl = fl, OF assms(3) al]) auto
  let ?s = "set_entry pd (pdi v) (0 OR fl OR 1) (zero_entries 0 s)"
  have row: "ram ?s pd = (ram s pd)(pdi v := fl OR 1)" using pd by simp
  have "table_of (ram ?s pd (pdi 0)) \<noteq> pd"
  proof (cases "pdi 0 = pdi v")
    case True
    then have "table_of (ram ?s pd (pdi 0)) = table_of (0 OR fl OR 1)" unfolding row by simp
    also have "\<dots> = 0" using assms(4) by (intro table_of_entry) (simp_all add: page_aligned_def)
    finally show ?thesis using pd by simp
  next
    case False
    then have "ram ?s pd (pdi 0) = ram s pd (pdi 0)" unfolding row by simp
    then show ?thesis using vm_ok_table(2) [OF assms(1) pdi_bound] vm_ok_absent [OF assms(1) pdi_bound, of 0] pd
      by (cases "present (ram s pd (pdi 0))") (auto simp: table_of_def)
  qed
  then have "ram (identity_map_in pd 0 ?s) pd = (ram s pd)(pdi v := fl OR 1)"
    unfolding identity_map_in_ram row by (simp add: row)
  then show ?thesis using s' pd unfolding after_new_table_def ram_set_entry by simp
qed

theorem map_page_out_of_memory_witness:
  "\<exists>s'. map_page 0x1000 0x40000000 0x5000 PAGE_FLAG_USER
       (vm_example\<lparr>frames := replicate 1024 (- 1)\<rparr>) = Some s' \<and> ram s' 0x1000 256 = PAGE_FLAG_USER OR 1"
proof -
  let ?b = "replicate 1024 (- 1) :: bitmap" and ?s = "vm_example\<lparr>frames := replicate 1024 (- 1)\<rparr>"
  have b: "bitmap_ok ?b" by (simp add: bitmap_ok_def NUM_FRAMES_eq)
  have u: "used ?b = {..<NUM_FRAMES}" by (auto simp: used_def NUM_FRAMES_eq)
  have "used (frames vm_example) \<subseteq> used ?b" by (simp add: u vm_example_def used_example NUM_FRAMES_eq)
  then have ok: "vm_ok 0x1000 ?s" by (rule vm_ok_more_frames [OF vm_example_ok(1) b])
  have full: "\<not> room ?s" by (auto simp: room_def u)
  show ?thesis
    using map_page_out_of_memory [where p = "0x5000" and fl = PAGE_FLAG_USER and v = "0x40000000", OF ok full]
    by (auto simp: vm_example_def pdi_def)
qed

text \<open>the identity mapping of a new page table is lost when its frame lies in a 4 MB
  region for which the directory has no table (every frame from 8 MB on, after boot): the entry
  is written over a word of physical page 0 instead, and the table stays unreachable through
  paging.\<close>

theorem new_table_not_reachable:
  assumes "vm_ok pd s" "\<not> present (ram s pd (pdi v))" "table_of fl = 0" "room s"
    and "alloc_frame s = Some (t, s1)" "pdi t \<noteq> pdi v" "\<not> present (ram s pd (pdi t))"
  shows "\<exists>s'. map_page pd v p fl s = Some s' \<and> translate (ram s') pd t = None
     \<and> ram s' 0 (pti t) = t OR PAGE_FLAG_KERNEL"
proof -
  have bm: "bitmap_ok (frames s)" and pd: "owned pd (frames s)" using assms(1) by (simp_all add: vm_ok_def)
  obtain f b where al: "alloc_frame s = Some (of_nat (f * PAGE_SIZE), s\<lparr>frames := b\<rparr>)"
    and f: "0 < f" "f < NUM_FRAMES" "f \<notin> used (frames s)" "bitmap_ok b" "used b = insert f (used (frames s))"
    by (rule alloc_frame_fresh [OF bm assms(4)])
  then have t: "owned t b" "\<not> owned t (frames s)"
    using fresh_not_owned [OF _ f(2,3)] assms(5) unfolding owned_def by auto
  then have tpd: "t \<noteq> pd" using pd by auto
  obtain s' where s': "map_page pd v p fl s = Some s'" "ram s' = ram (after_new_table t pd v p fl s)"
    by (rule map_page_new [where p = p and fl = fl, OF assms(2,5)]) (use al assms(5) in auto)
  have nv: "\<not> same_page t v" using assms(6) by (simp add: same_page_def)
  have "walk (ram s) pd t = None" using assms(7) by (simp add: walk_def)
  then have "translate (ram s') pd t = None"
    using walk_new_table [OF assms(1,2) t assms(3), of p t] assms(6,7) nv
    by (simp add: translate_def s'(2) same_page_def)
  moreover have "table_of (ram s pd (pdi t)) = 0"
    using vm_ok_absent [OF assms(1) pdi_bound assms(7)] by (simp add: table_of_def)
  then have "ram s' 0 = (ram s 0)(pti t := t OR PAGE_FLAG_KERNEL)"
    using after_new_table_rows(4) [OF assms(1,2) t(1) tpd assms(3), where p = p] assms(6)
      owned_nonzero [OF pd] owned_nonzero [OF t(1)] by (simp add: s'(2))
  ultimately show ?thesis using s'(1) by simp
qed

theorem new_table_not_reachable_witness:
  "\<exists>s'. map_page 0x1000 0x40000000 0x5000 PAGE_FLAG_USER vm_example = Some s'
     \<and> translate (ram s') 0x1000 0x2000 = None"
proof -
  have bm: "bitmap_ok (frames vm_example)" using vm_example_ok(1) by (simp add: vm_ok_def)
  have u: "used (frames vm_example) = {1}" by (simp add: vm_example_def used_example)
  obtain b where "allocate_frame (frames vm_example) = Some (of_nat (2 * PAGE_SIZE), b)"
    by (rule allocate_loop_free [OF bm, of 2])
      (auto simp: allocate_frame_def NUM_FRAMES_eq u allocate_loop_used [OF bm] numeral_2_eq_2)
  then have "alloc_frame vm_example = Some (0x2000, vm_example\<lparr>frames := b\<rparr>)"
    by (simp add: alloc_frame_def PAGE_SIZE_def)
  then show ?thesis
    using new_table_not_reachable [where p = "0x5000" and fl = PAGE_FLAG_USER and v = "0x40000000",
      OF vm_example_ok(1) _ _ vm_example_ok(2)]
    by (auto simp: vm_example_def pdi_def)
qed

end
