(* ===== verification/EventQueue.thy ===== *)
theory EventQueue
  imports Prelude
begin

text \<open>
  The per-window event queue, \<^verbatim>\<open>kernel-space/kernel/event.c\<close>: a ring of 64 events.
  Its contract is the bounded first-in first-out queue of the locale \<open>bounded_queue\<close>; the
  events are those of \<^verbatim>\<open>shared/abi-types.h\<close>.
\<close>

section \<open>Bounded queues\<close>

text \<open>
  The interface the window manager and the \<^verbatim>\<open>get_event\<close> system call rely on.
  \<open>push\<close> drops the element when the queue is full; \<open>pop q e\<close> overwrites \<open>e\<close> with the
  first element, or leaves it alone when the queue is empty.
\<close>

fun push_list :: "('a \<Rightarrow> 'q \<Rightarrow> 'q option) \<Rightarrow> 'a list \<Rightarrow> 'q \<Rightarrow> 'q option" where
  "push_list push [] q = Some q"
| "push_list push (x # xs) q = do { q' \<leftarrow> push x q; push_list push xs q' }"

fun drain :: "('q \<Rightarrow> 'a \<Rightarrow> ('q \<times> 'a) option) \<Rightarrow> nat \<Rightarrow> 'a \<Rightarrow> 'q \<Rightarrow> ('q \<times> 'a list) option" where
  "drain pop 0 e q = Some (q, [])"
| "drain pop (Suc n) e q =
     do { (q', x) \<leftarrow> pop q e; (q'', xs) \<leftarrow> drain pop n e q'; Some (q'', x # xs) }"

locale bounded_queue =
  fixes push :: "'a \<Rightarrow> 'q \<Rightarrow> 'q option"
    and pop :: "'q \<Rightarrow> 'a \<Rightarrow> ('q \<times> 'a) option"
    and is_empty :: "'q \<Rightarrow> bool"
    and inv :: "'q \<Rightarrow> bool"
    and contents :: "'q \<Rightarrow> 'a list"
    and cap :: nat
  assumes push_spec: "inv q \<Longrightarrow> \<exists>q'. push x q = Some q' \<and> inv q' \<and>
      contents q' = (if length (contents q) < cap then contents q @ [x] else contents q)"
    and pop_spec: "inv q \<Longrightarrow> contents q = x # xs \<Longrightarrow>
      \<exists>q'. pop q e = Some (q', x) \<and> inv q' \<and> contents q' = xs"
    and pop_empty: "inv q \<Longrightarrow> contents q = [] \<Longrightarrow> pop q e = Some (q, e)"
    and is_empty_spec: "inv q \<Longrightarrow> is_empty q \<longleftrightarrow> contents q = []"
    and bounded: "inv q \<Longrightarrow> length (contents q) \<le> cap"
begin

text \<open>A burst of pushes keeps the oldest elements that fit, in order.\<close>

lemma push_list_contents:
  "inv q \<Longrightarrow> \<exists>q'. push_list push xs q = Some q' \<and> inv q' \<and>
     contents q' = contents q @ take (cap - length (contents q)) xs"
proof (induction xs arbitrary: q)
  case (Cons x xs)
  obtain q1 where q1: "push x q = Some q1" "inv q1"
    "contents q1 = (if length (contents q) < cap then contents q @ [x] else contents q)"
    using push_spec [OF Cons.prems] by blast
  from Cons.IH [OF q1(2)] q1 show ?case
    by (auto simp: take_Cons' split: if_splits)
qed auto

lemma drain_contents:
  "inv q \<Longrightarrow> n \<le> length (contents q) \<Longrightarrow> \<exists>q'. drain pop n e q = Some (q', take n (contents q)) \<and>
     inv q' \<and> contents q' = drop n (contents q)"
proof (induction n arbitrary: q)
  case (Suc n)
  then obtain x xs where xs: "contents q = x # xs" by (cases "contents q") auto
  obtain q1 where "pop q e = Some (q1, x)" "inv q1" "contents q1 = xs"
    using pop_spec [OF Suc.prems(1) xs] by blast
  then show ?case using Suc.IH [of q1] Suc.prems(2) xs by auto
qed auto

lemma fifo:
  assumes "inv q" "contents q = []" "length xs \<le> cap"
  shows "\<exists>q1 q2. push_list push xs q = Some q1 \<and> drain pop (length xs) e q1 = Some (q2, xs) \<and> is_empty q2"
proof -
  obtain q1 where q1: "push_list push xs q = Some q1" "inv q1" "contents q1 = xs"
    using push_list_contents [OF assms(1), of xs] assms(2,3) by auto
  obtain q2 where "drain pop (length xs) e q1 = Some (q2, xs)" "inv q2" "contents q2 = []"
    using drain_contents [OF q1(2), of "length xs" e] q1(3) by auto
  with q1 show ?thesis using is_empty_spec by auto
qed

end

section \<open>Model\<close>

datatype event_type = EVENT_KEYPRESS | EVENT_KEYRELEASE | EVENT_MOUSE_CLICK | EVENT_MOUSE_MOVE

record event =
  ev_type :: event_type
  keyboard_scancode :: u8
  ev_mouse_x :: int
  ev_mouse_y :: int
  ev_mouse_button :: u8
  ev_c :: u8

record event_queue =
  events :: "event list"
  head_index :: u32
  tail_index :: u32
  q_size :: u32

definition event_queue_push :: "event \<Rightarrow> event_queue \<Rightarrow> event_queue option" where
  "event_queue_push event queue =
     (if q_size queue \<ge> 64 then Some queue
      else if unat (head_index queue) < length (events queue) then
        let queue = queue\<lparr>events := (events queue)[unat (head_index queue) := event],
                          head_index := head_index queue + 1\<rparr>;
            queue = queue\<lparr>head_index := head_index queue mod 64\<rparr>
        in Some (queue\<lparr>q_size := q_size queue + 1\<rparr>)
      else None)"

definition event_queue_pop :: "event_queue \<Rightarrow> event \<Rightarrow> (event_queue \<times> event) option" where
  "event_queue_pop queue event =
     (if q_size queue = 0 then Some (queue, event)
      else if unat (tail_index queue) < length (events queue) then
        let e = events queue ! unat (tail_index queue);
            queue = queue\<lparr>tail_index := (tail_index queue + 1) mod 64\<rparr>
        in Some (queue\<lparr>q_size := q_size queue - 1\<rparr>, e)
      else None)"

definition event_queue_is_empty :: "event_queue \<Rightarrow> bool" where
  "event_queue_is_empty queue \<longleftrightarrow> q_size queue = 0"

section \<open>The ring as a list\<close>

definition ring_ok :: "event_queue \<Rightarrow> bool" where
  "ring_ok q \<longleftrightarrow> length (events q) = 64 \<and> unat (tail_index q) < 64 \<and> unat (q_size q) \<le> 64 \<and>
     unat (head_index q) = (unat (tail_index q) + unat (q_size q)) mod 64"

definition ring_list :: "event_queue \<Rightarrow> event list" where
  "ring_list q = map (\<lambda>i. events q ! ((unat (tail_index q) + i) mod 64)) [0..<unat (q_size q)]"

lemma length_ring_list [simp]: "length (ring_list q) = unat (q_size q)"
  by (simp add: ring_list_def)

lemma ring_list_nth: "i < unat (q_size q) \<Longrightarrow>
    ring_list q ! i = events q ! ((unat (tail_index q) + i) mod 64)"
  by (simp add: ring_list_def)

lemma unat_mod64: "unat (a + 1 :: u32) = (unat a + 1) mod 2 ^ 32"
  by (simp add: unat_word_ariths)

lemma next_index: "unat (a::u32) < 64 \<Longrightarrow> unat ((a + 1) mod 64) = (unat a + 1) mod 64"
  by (simp add: unat_mod unat_plus32)

lemma ring_distinct: "i < s \<Longrightarrow> s < 64 \<Longrightarrow> (t + i) mod 64 \<noteq> (t + s) mod (64::nat)"
proof
  assume "i < s" "s < 64" "(t + i) mod 64 = (t + s) mod (64::nat)"
  then have "64 dvd (t + s) - (t + i)" by (subst mod_eq_dvd_iff_nat [symmetric]) auto
  then show False using \<open>i < s\<close> \<open>s < 64\<close> by (auto dest: dvd_imp_le)
qed

lemma push_ring:
  assumes ok: "ring_ok q"
  shows "\<exists>q'. event_queue_push x q = Some q' \<and> ring_ok q' \<and>
    ring_list q' = (if length (ring_list q) < 64 then ring_list q @ [x] else ring_list q)"
proof (cases "q_size q \<ge> 64")
  case True
  then show ?thesis using ok by (simp add: event_queue_push_def word_le_nat_alt ring_ok_def)
next
  case False
  then have s: "unat (q_size q) < 64" by (simp add: word_le_nat_alt)
  have h: "unat (head_index q) < 64" using ok by (simp add: ring_ok_def)
  let ?q = "q\<lparr>events := (events q)[unat (head_index q) := x],
              head_index := (head_index q + 1) mod 64, q_size := q_size q + 1\<rparr>"
  have push: "event_queue_push x q = Some ?q"
    using False h ok by (simp add: event_queue_push_def ring_ok_def Let_def)
  have sz: "unat (q_size q + 1) = unat (q_size q) + 1" using s by (subst unat_plus32) auto
  have hd: "unat (head_index q) = (unat (tail_index q) + unat (q_size q)) mod 64"
    using ok by (simp add: ring_ok_def)
  have "(unat (head_index q) + 1) mod 64 = (unat (tail_index q) + (unat (q_size q) + 1)) mod 64"
    unfolding hd by presburger
  then have ok': "ring_ok ?q"
    using ok s sz next_index [OF h] by (simp add: ring_ok_def)
  have "ring_list ?q ! i = (ring_list q @ [x]) ! i" if "i < unat (q_size q) + 1" for i
  proof (cases "i = unat (q_size q)")
    case True
    then have "ring_list ?q ! i = events ?q ! unat (head_index q)"
      using sz hd by (subst ring_list_nth) auto
    then show ?thesis using True h ok by (simp add: ring_ok_def nth_append)
  next
    case False
    with that have i: "i < unat (q_size q)" by simp
    have "(unat (tail_index q) + i) mod 64 \<noteq> unat (head_index q)"
      unfolding hd by (rule ring_distinct [OF i s])
    then have "ring_list ?q ! i = events q ! ((unat (tail_index q) + i) mod 64)"
      using i sz by (subst ring_list_nth) auto
    then show ?thesis using i by (simp add: nth_append ring_list_nth)
  qed
  then have "ring_list ?q = ring_list q @ [x]"
    using sz by (intro nth_equalityI) auto
  with push ok' s show ?thesis by simp
qed

lemma pop_ring:
  assumes ok: "ring_ok q" and ne: "ring_list q = x # xs"
  shows "\<exists>q'. event_queue_pop q e = Some (q', x) \<and> ring_ok q' \<and> ring_list q' = xs"
proof -
  let ?q = "q\<lparr>tail_index := (tail_index q + 1) mod 64, q_size := q_size q - 1\<rparr>"
  have s: "0 < unat (q_size q)" and len: "unat (q_size q) = Suc (length xs)"
    using ne length_ring_list [of q] by auto
  have t: "unat (tail_index q) < 64" using ok by (simp add: ring_ok_def)
  have x: "x = events q ! unat (tail_index q)"
    using ring_list_nth [OF s] ne t by simp
  have pop: "event_queue_pop q e = Some (?q, x)"
    using s t ok x by (auto simp: event_queue_pop_def ring_ok_def Let_def)
  have "1 \<le> q_size q" using s by (simp add: word_le_nat_alt)
  then have sz: "unat (q_size q - 1) = length xs" using len by (simp add: unat_sub)
  have ok': "ring_ok ?q"
    using ok next_index [OF t] sz len by (simp add: ring_ok_def) presburger
  have "ring_list ?q ! i = xs ! i" if "i < length xs" for i
  proof -
    have "xs ! i = ring_list q ! Suc i" using ne by simp
    also have "\<dots> = events q ! ((unat (tail_index q) + Suc i) mod 64)"
      using that len by (intro ring_list_nth) simp
    finally show ?thesis
      using that sz next_index [OF t] by (simp add: ring_list_nth mod_add_left_eq)
  qed
  then have "ring_list ?q = xs" using sz by (intro nth_equalityI) auto
  with pop ok' show ?thesis by blast
qed

interpretation evq: bounded_queue event_queue_push event_queue_pop event_queue_is_empty
  ring_ok ring_list 64
proof unfold_locales
  fix q x assume "ring_ok q"
  then show "\<exists>q'. event_queue_push x q = Some q' \<and> ring_ok q' \<and>
    ring_list q' = (if length (ring_list q) < 64 then ring_list q @ [x] else ring_list q)"
    by (rule push_ring)
next
  fix q x xs e assume "ring_ok q" "ring_list q = x # xs"
  then show "\<exists>q'. event_queue_pop q e = Some (q', x) \<and> ring_ok q' \<and> ring_list q' = xs"
    by (rule pop_ring)
next
  fix q e assume "ring_list q = []"
  then have "q_size q = 0" using length_ring_list [of q] by (simp add: unat_eq_0)
  then show "event_queue_pop q e = Some (q, e)" by (simp add: event_queue_pop_def)
next
  fix q show "event_queue_is_empty q \<longleftrightarrow> ring_list q = []"
    by (auto simp: event_queue_is_empty_def ring_list_def unat_eq_0)
next
  fix q assume "ring_ok q"
  then show "length (ring_list q) \<le> 64" by (simp add: ring_ok_def)
qed

text \<open>A queue as \<^verbatim>\<open>memset\<close> leaves it in a fresh window.\<close>

definition zero_event :: event where
  "zero_event = \<lparr>ev_type = EVENT_KEYPRESS, keyboard_scancode = 0, ev_mouse_x = 0, ev_mouse_y = 0,
     ev_mouse_button = 0, ev_c = 0\<rparr>"

definition zero_queue :: event_queue where
  "zero_queue = \<lparr>events = replicate 64 zero_event, head_index = 0, tail_index = 0, q_size = 0\<rparr>"

lemma zero_queue_ok: "ring_ok zero_queue" "ring_list zero_queue = []"
  by (simp_all add: zero_queue_def ring_ok_def ring_list_def)

section \<open>Properties\<close>

text \<open>the ring is a bounded first-in first-out queue: any burst of pushes on a consistent
  queue returns and appends, in order, exactly the events that fit in 64 slots (the newest ones
  are dropped), and popping then yields the pending events in arrival order.\<close>

theorem event_queue_fifo:
  assumes "ring_ok q" "n \<le> length (ring_list q @ take (64 - length (ring_list q)) evs)"
  shows "\<exists>q1 q2. push_list event_queue_push evs q = Some q1 \<and>
    ring_list q1 = ring_list q @ take (64 - length (ring_list q)) evs \<and>
    drain event_queue_pop n e q1 = Some (q2, take n (ring_list q1)) \<and> ring_ok q2 \<and>
    ring_list q2 = drop n (ring_list q1)"
proof -
  obtain q1 where q1: "push_list event_queue_push evs q = Some q1" "ring_ok q1"
    "ring_list q1 = ring_list q @ take (64 - length (ring_list q)) evs"
    using evq.push_list_contents [OF assms(1)] by blast
  from evq.drain_contents [OF q1(2), of n e] q1 assms(2) show ?thesis by auto
qed

theorem event_queue_fifo_witness:
  "\<exists>q1 q2. push_list event_queue_push [zero_event, zero_event\<lparr>ev_c := 65\<rparr>] zero_queue = Some q1 \<and>
     drain event_queue_pop 2 zero_event q1 = Some (q2, [zero_event, zero_event\<lparr>ev_c := 65\<rparr>])"
  using event_queue_fifo [OF zero_queue_ok(1), of 2 "[zero_event, zero_event\<lparr>ev_c := 65\<rparr>]" zero_event]
  by (auto simp: zero_queue_ok)

end
