(* ===== verification/Stdin.thy ===== *)
theory Stdin
  imports Prelude
begin

text \<open>
  The keyboard input buffer, \<^verbatim>\<open>kernel-space/kernel/stdin.c\<close> with the record of
  \<^verbatim>\<open>stdin.h\<close>: a ring of 256 characters with \<open>int\<close> indices. The echo on the
  terminal is returned as the list of calls the code makes (character and colour), in order.
  Blocking and waking the reader belong to the scheduler and are in theory \<open>Scheduler\<close>.
\<close>

section \<open>Model\<close>

definition STANDARD_IN_BUFFER_SIZE :: int where "STANDARD_IN_BUFFER_SIZE = 256"

definition WHITE :: u8 where "WHITE = 0x0F"
definition BRIGHT_RED :: u8 where "BRIGHT_RED = 0x0C"

text \<open>Characters \<open>'\b'\<close>, \<open>'\n'\<close> and \<open>' '\<close>.\<close>

definition CH_BS :: u8 where "CH_BS = 8"
definition CH_NL :: u8 where "CH_NL = 10"
definition CH_SP :: u8 where "CH_SP = 32"

record stdin_buffer =
  sbuf :: "u8 list"
  read_index :: int
  write_index :: int
  s_count :: int
  wait_process :: u32
  requested_len :: int

type_synonym echo = "(u8 \<times> u8) list"

definition stdin_write :: "u8 \<Rightarrow> stdin_buffer \<Rightarrow> (stdin_buffer \<times> echo) option" where
  "stdin_write c s =
     (if c = CH_BS then
        if read_index s = write_index s then Some (s, [])
        else let i = nat (c_max 0 (write_index s - 1)) in
          if i < length (sbuf s) then
            let s = s\<lparr>sbuf := (sbuf s)[i := CH_SP], write_index := c_max 0 (write_index s - 1)\<rparr>;
                s = s\<lparr>s_count := c_max 0 (s_count s - 1)\<rparr>
            in Some (s, [(CH_BS, BRIGHT_RED)])
          else None
      else if 0 \<le> write_index s \<and> nat (write_index s) < length (sbuf s) then
        let s = s\<lparr>sbuf := (sbuf s)[nat (write_index s) := c],
                  write_index := (write_index s + 1) smod STANDARD_IN_BUFFER_SIZE,
                  s_count := s_count s + 1\<rparr>
        in Some (s, [(c, WHITE)])
      else None)"

text \<open>
  The loop of \<^verbatim>\<open>stdin_read\<close> with \<open>n\<close> rounds to go; the list is what the code stores
  in \<^verbatim>\<open>buf\<close>. A backspace or newline is consumed without being stored.
\<close>

fun stdin_read_loop :: "nat \<Rightarrow> stdin_buffer \<Rightarrow> (stdin_buffer \<times> u8 list) option" where
  "stdin_read_loop 0 s = Some (s, [])"
| "stdin_read_loop (Suc n) s =
     (if 0 \<le> read_index s \<and> nat (read_index s) < length (sbuf s) then
        let c = sbuf s ! nat (read_index s);
            s' = s\<lparr>s_count := s_count s - 1,
                    read_index := (read_index s + 1) smod STANDARD_IN_BUFFER_SIZE\<rparr>
        in do {
          (s'', out) \<leftarrow> stdin_read_loop n s';
          Some (s'', if c = CH_BS \<or> c = CH_NL then out else c # out)
        }
      else None)"

definition stdin_read :: "int \<Rightarrow> stdin_buffer \<Rightarrow> (stdin_buffer \<times> u8 list) option" where
  "stdin_read len s = stdin_read_loop (nat len) s"

text \<open>The part of \<^verbatim>\<open>init_keyboard\<close> and of \<^verbatim>\<open>sigint_foreground\<close> that
  empties the buffer.\<close>

definition stdin_reset :: "stdin_buffer \<Rightarrow> stdin_buffer" where
  "stdin_reset s = s\<lparr>s_count := 0, read_index := 0, write_index := 0\<rparr>"

definition stdin_flush :: "stdin_buffer \<Rightarrow> stdin_buffer" where
  "stdin_flush s = s\<lparr>s_count := 0, read_index := write_index s\<rparr>"

section \<open>The pending characters\<close>

definition stdin_ok :: "stdin_buffer \<Rightarrow> bool" where
  "stdin_ok s \<longleftrightarrow> length (sbuf s) = 256 \<and> 0 \<le> read_index s \<and> read_index s < 256 \<and>
     0 \<le> s_count s \<and> s_count s \<le> 256 \<and> write_index s = (read_index s + s_count s) mod 256"

definition pending :: "stdin_buffer \<Rightarrow> u8 list" where
  "pending s = map (\<lambda>i. sbuf s ! nat ((read_index s + int i) mod 256)) [0..<nat (s_count s)]"

lemma smod_pos: "0 \<le> x \<Longrightarrow> 0 < y \<Longrightarrow> (x::int) smod y = x mod y"
  by (simp add: signed_modulo_int_def signed_divide_int_def sgn_if minus_div_mult_eq_mod)

lemma length_pending [simp]: "length (pending s) = nat (s_count s)"
  by (simp add: pending_def)

lemma pending_nth: "i < nat (s_count s) \<Longrightarrow>
    pending s ! i = sbuf s ! nat ((read_index s + int i) mod 256)"
  by (simp add: pending_def)

lemma mod256_distinct:
  "0 \<le> (i::int) \<Longrightarrow> i < c \<Longrightarrow> c < 256 \<Longrightarrow> (r + i) mod 256 \<noteq> (r + c) mod 256"
proof
  assume a: "0 \<le> i" "i < c" "c < 256" "(r + i) mod 256 = (r + c) mod 256"
  then have "256 dvd (r + c) - (r + i)" by (metis mod_eq_dvd_iff)
  then show False using a(1-3) zdvd_imp_le [of 256 "c - i"] by simp
qed

lemma stdin_write_char:
  assumes ok: "stdin_ok s" and c: "c \<noteq> CH_BS" and room: "s_count s < 256"
  shows "\<exists>s'. stdin_write c s = Some (s', [(c, WHITE)]) \<and> stdin_ok s' \<and> pending s' = pending s @ [c]
     \<and> wait_process s' = wait_process s \<and> requested_len s' = requested_len s"
proof -
  have w: "0 \<le> write_index s" "write_index s < 256" using ok by (auto simp: stdin_ok_def)
  let ?s = "s\<lparr>sbuf := (sbuf s)[nat (write_index s) := c],
              write_index := (write_index s + 1) mod 256, s_count := s_count s + 1\<rparr>"
  have wr: "stdin_write c s = Some (?s, [(c, WHITE)])"
    using c w ok by (simp add: stdin_write_def stdin_ok_def STANDARD_IN_BUFFER_SIZE_def smod_pos)
  have wi: "write_index s = (read_index s + s_count s) mod 256" using ok by (simp add: stdin_ok_def)
  have "(write_index s + 1) mod 256 = (read_index s + (s_count s + 1)) mod 256"
    unfolding wi by presburger
  then have ok': "stdin_ok ?s" using ok room by (simp add: stdin_ok_def)
  have "pending ?s ! i = (pending s @ [c]) ! i" if "i < nat (s_count s + 1)" for i
  proof (cases "i = nat (s_count s)")
    case True
    then have "pending ?s ! i = sbuf ?s ! nat (write_index s)"
      using ok wi by (subst pending_nth) (auto simp: stdin_ok_def)
    then show ?thesis using True w ok by (simp add: stdin_ok_def nth_append)
  next
    case False
    with that have i: "i < nat (s_count s)" "int i < s_count s" by auto
    have "(read_index s + int i) mod 256 \<noteq> write_index s"
      unfolding wi using i(2) room by (intro mod256_distinct) auto
    then have "nat ((read_index s + int i) mod 256) \<noteq> nat (write_index s)"
      using w(1) by (simp add: nat_eq_iff2)
    then show ?thesis using i by (simp add: nth_append pending_nth)
  qed
  then have "pending ?s = pending s @ [c]"
    using ok by (intro nth_equalityI) (auto simp: stdin_ok_def)
  with wr ok' show ?thesis by simp
qed

lemma stdin_read_loop_spec:
  "stdin_ok s \<Longrightarrow> n \<le> nat (s_count s) \<Longrightarrow>
     \<exists>s'. stdin_read_loop n s = Some (s', filter (\<lambda>c. c \<noteq> CH_BS \<and> c \<noteq> CH_NL) (take n (pending s))) \<and>
       stdin_ok s' \<and> pending s' = drop n (pending s) \<and>
       wait_process s' = wait_process s \<and> requested_len s' = requested_len s"
proof (induction n arbitrary: s)
  case (Suc n)
  let ?s = "s\<lparr>s_count := s_count s - 1, read_index := (read_index s + 1) mod 256\<rparr>"
  let ?c = "sbuf s ! nat (read_index s)"
  have r: "0 \<le> read_index s" "read_index s < 256" "0 < s_count s" "length (sbuf s) = 256"
    using Suc.prems by (auto simp: stdin_ok_def)
  have ok': "stdin_ok ?s" using Suc.prems(1) r by (simp add: stdin_ok_def mod_simps)
  have "pending s ! Suc i = pending ?s ! i" if "i < nat (s_count s - 1)" for i
    using that r by (simp add: pending_nth mod_simps add.assoc)
  moreover have "pending s ! 0 = ?c" using r by (subst pending_nth) auto
  ultimately have ps: "pending s = ?c # pending ?s"
    using r by (intro nth_equalityI) (auto simp: nth_Cons nat_diff_distrib split: nat.split)
  have n: "n \<le> nat (s_count ?s)" using Suc.prems(2) by simp
  from Suc.IH [OF ok' n] ps r show ?case
    by (auto simp: STANDARD_IN_BUFFER_SIZE_def smod_pos)
qed auto

lemma stdin_flush_ok: "stdin_ok s \<Longrightarrow> stdin_ok (stdin_flush s) \<and> pending (stdin_flush s) = []"
  by (auto simp: stdin_ok_def stdin_flush_def pending_def)

lemma stdin_backspace_erases:
  assumes ok: "stdin_ok s" and p: "pending s \<noteq> []" "s_count s < 256" and w: "write_index s \<noteq> 0"
  shows "\<exists>s'. stdin_write CH_BS s = Some (s', [(CH_BS, BRIGHT_RED)]) \<and> stdin_ok s' \<and>
    pending s' = butlast (pending s)"
proof -
  have b: "0 < write_index s" "write_index s < 256" "0 < s_count s" "length (sbuf s) = 256"
    using ok p w by (auto simp: stdin_ok_def pending_def)
  have wi: "write_index s = (read_index s + s_count s) mod 256" using ok by (simp add: stdin_ok_def)
  have ne: "read_index s \<noteq> write_index s"
    using mod256_distinct [of 0 "s_count s" "read_index s"] ok b p(2) wi by (simp add: stdin_ok_def)
  let ?s = "s\<lparr>sbuf := (sbuf s)[nat (write_index s - 1) := CH_SP], write_index := write_index s - 1,
              s_count := s_count s - 1\<rparr>"
  have wr: "stdin_write CH_BS s = Some (?s, [(CH_BS, BRIGHT_RED)])"
    using b ne by (simp add: stdin_write_def Let_def)
  have wi': "write_index s - 1 = (read_index s + (s_count s - 1)) mod 256"
  proof -
    have "(read_index s + (s_count s - 1)) mod 256 = ((read_index s + s_count s) mod 256 - 1) mod 256"
      by (simp add: mod_diff_left_eq add_diff_eq)
    also have "\<dots> = write_index s - 1" using b(1,2) by (simp flip: wi)
    finally show ?thesis by simp
  qed
  then have ok': "stdin_ok ?s" using ok b by (simp add: stdin_ok_def)
  have "pending ?s ! i = butlast (pending s) ! i" if i: "i < nat (s_count s - 1)" for i
  proof -
    have "(read_index s + int i) mod 256 \<noteq> write_index s - 1"
      unfolding wi' using i p(2) by (intro mod256_distinct) auto
    then have "nat ((read_index s + int i) mod 256) \<noteq> nat (write_index s - 1)"
      using b(1) by (simp add: nat_eq_iff2)
    then show ?thesis using i by (simp add: nth_butlast pending_nth)
  qed
  then have "pending ?s = butlast (pending s)" by (intro nth_equalityI) auto
  with wr ok' show ?thesis by simp
qed

section \<open>Properties\<close>

definition zero_stdin :: stdin_buffer where
  "zero_stdin = \<lparr>sbuf = replicate 256 0, read_index = 0, write_index = 0, s_count = 0,
     wait_process = 0, requested_len = 0\<rparr>"

lemma zero_stdin_ok: "stdin_ok zero_stdin" "pending zero_stdin = []"
  by (simp_all add: zero_stdin_def stdin_ok_def pending_def)

fun stdin_write_list :: "u8 list \<Rightarrow> stdin_buffer \<Rightarrow> stdin_buffer option" where
  "stdin_write_list [] s = Some s"
| "stdin_write_list (c # cs) s = do { (s', e) \<leftarrow> stdin_write c s; stdin_write_list cs s' }"

text \<open>C31: the characters a reader gets are the typed ones in order: writing characters other
  than backspace that fit in the buffer and reading as many pending ones as asked for returns
  and yields the oldest, with newlines and backspaces filtered out.\<close>

theorem stdin_write_read_fifo:
  assumes "stdin_ok s" "CH_BS \<notin> set cs" "length (pending s) + length cs \<le> 256"
    and "n \<le> length (pending s) + length cs"
  shows "\<exists>s1 s2. stdin_write_list cs s = Some s1 \<and>
    stdin_read (int n) s1 = Some (s2, filter (\<lambda>c. c \<noteq> CH_BS \<and> c \<noteq> CH_NL) (take n (pending s @ cs))) \<and>
    stdin_ok s2 \<and> pending s2 = drop n (pending s @ cs)"
proof -
  have "\<exists>s1. stdin_write_list cs s = Some s1 \<and> stdin_ok s1 \<and> pending s1 = pending s @ cs"
    using assms(1-3)
  proof (induction cs arbitrary: s)
    case (Cons c cs)
    then have "c \<noteq> CH_BS" "s_count s < 256" by (auto simp: stdin_ok_def)
    then obtain s' where "stdin_write c s = Some (s', [(c, WHITE)])" "stdin_ok s'"
      "pending s' = pending s @ [c]"
      using stdin_write_char [OF Cons.prems(1), of c] by blast
    with Cons.IH [of s'] Cons.prems show ?case by auto
  qed simp
  then obtain s1 where s1: "stdin_write_list cs s = Some s1" "stdin_ok s1" "pending s1 = pending s @ cs"
    by blast
  have "length (pending s1) = length (pending s) + length cs" using s1(3) by simp
  then have "n \<le> nat (s_count s1)" using assms(4) by simp
  from stdin_read_loop_spec [OF s1(2) this] s1 show ?thesis
    by (auto simp: stdin_read_def)
qed

theorem stdin_write_read_fifo_witness:
  "\<exists>s1 s2. stdin_write_list [108, 115, 10] zero_stdin = Some s1 \<and>
     stdin_read 3 s1 = Some (s2, [108, 115]) \<and> pending s2 = []"
  using stdin_write_read_fifo [OF zero_stdin_ok(1), of "[108, 115, 10]" 3]
  by (auto simp: zero_stdin_ok CH_BS_def CH_NL_def)

text \<open>a backspace when the write index has just wrapped to 0 erases nothing but still
  decrements the count: the two indices and the count disagree afterwards, and the next typed
  character (\<open>'x'\<close>) is read as the character that was to be erased (\<open>'a'\<close>).\<close>

theorem stdin_backspace_wrap_loses:
  "let s = zero_stdin\<lparr>read_index := 255, write_index := 255\<rparr> in
   stdin_ok s \<and>
   (\<exists>s1 s2 s3 s4. stdin_write 97 s = Some (s1, [(97, WHITE)]) \<and> stdin_ok s1 \<and>
      stdin_write CH_BS s1 = Some (s2, [(CH_BS, BRIGHT_RED)]) \<and> \<not> stdin_ok s2 \<and>
      stdin_write 120 s2 = Some (s3, [(120, WHITE)]) \<and> stdin_read 1 s3 = Some (s4, [97]))"
  by (simp add: zero_stdin_def stdin_ok_def stdin_write_def stdin_read_def CH_BS_def CH_NL_def
      CH_SP_def STANDARD_IN_BUFFER_SIZE_def smod_pos Let_def numeral_eq_Suc [of num.One])

end
