(* ===== verification/Font.thy ===== *)
theory Font
  imports Prelude
begin

text \<open>
  The bitmaps of \<^verbatim>\<open>kernel-space/lib/font.c\<close> that the kernel draws with: the 8 by 8 glyphs of
  the characters 32 to 126 and the 16 by 18 mouse cursors (two bytes per row). The other fonts
  of the file are not used by the kernel.
\<close>

definition font8x8 :: "u8 list list" where
  "font8x8 = [
    [0x00, 0x00, 0x00, 0x00, 0x00, 0x00, 0x00, 0x00],
    [0x18, 0x18, 0x18, 0x18, 0x18, 0x00, 0x18, 0x00],
    [0x6C, 0x6C, 0x24, 0x00, 0x00, 0x00, 0x00, 0x00],
    [0x24, 0x24, 0x7E, 0x24, 0x7E, 0x24, 0x24, 0x00],
    [0x18, 0x3E, 0x58, 0x3C, 0x1A, 0x7C, 0x18, 0x00],
    [0x62, 0x64, 0x08, 0x10, 0x20, 0x4C, 0x8C, 0x00],
    [0x30, 0x48, 0x48, 0x30, 0x4A, 0x44, 0x3A, 0x00],
    [0x18, 0x18, 0x10, 0x00, 0x00, 0x00, 0x00, 0x00],
    [0x0C, 0x18, 0x30, 0x30, 0x30, 0x18, 0x0C, 0x00],
    [0x30, 0x18, 0x0C, 0x0C, 0x0C, 0x18, 0x30, 0x00],
    [0x00, 0x24, 0x18, 0x7E, 0x18, 0x24, 0x00, 0x00],
    [0x00, 0x18, 0x18, 0x7E, 0x18, 0x18, 0x00, 0x00],
    [0x00, 0x00, 0x00, 0x00, 0x00, 0x18, 0x18, 0x10],
    [0x00, 0x00, 0x00, 0x7E, 0x00, 0x00, 0x00, 0x00],
    [0x00, 0x00, 0x00, 0x00, 0x00, 0x18, 0x18, 0x00],
    [0x02, 0x04, 0x08, 0x10, 0x20, 0x40, 0x80, 0x00],
    [0x3C, 0x46, 0x4A, 0x52, 0x62, 0x42, 0x3C, 0x00],
    [0x18, 0x38, 0x18, 0x18, 0x18, 0x18, 0x7E, 0x00],
    [0x3C, 0x42, 0x02, 0x0C, 0x30, 0x40, 0x7E, 0x00],
    [0x3C, 0x42, 0x02, 0x1C, 0x02, 0x42, 0x3C, 0x00],
    [0x0C, 0x14, 0x24, 0x44, 0x7E, 0x04, 0x04, 0x00],
    [0x7E, 0x40, 0x7C, 0x02, 0x02, 0x42, 0x3C, 0x00],
    [0x1C, 0x20, 0x40, 0x7C, 0x42, 0x42, 0x3C, 0x00],
    [0x7E, 0x02, 0x04, 0x08, 0x10, 0x10, 0x10, 0x00],
    [0x3C, 0x42, 0x42, 0x3C, 0x42, 0x42, 0x3C, 0x00],
    [0x3C, 0x42, 0x42, 0x3E, 0x02, 0x04, 0x38, 0x00],
    [0x00, 0x00, 0x18, 0x18, 0x00, 0x18, 0x18, 0x00],
    [0x00, 0x00, 0x18, 0x18, 0x00, 0x18, 0x18, 0x10],
    [0x06, 0x0C, 0x18, 0x30, 0x18, 0x0C, 0x06, 0x00],
    [0x00, 0x00, 0x7E, 0x00, 0x7E, 0x00, 0x00, 0x00],
    [0x60, 0x30, 0x18, 0x0C, 0x18, 0x30, 0x60, 0x00],
    [0x3C, 0x42, 0x02, 0x0C, 0x10, 0x00, 0x10, 0x00],
    [0x3C, 0x42, 0x4E, 0x52, 0x4E, 0x40, 0x3C, 0x00],
    [0x18, 0x24, 0x42, 0x42, 0x7E, 0x42, 0x42, 0x00],
    [0x7C, 0x42, 0x42, 0x7C, 0x42, 0x42, 0x7C, 0x00],
    [0x3C, 0x42, 0x40, 0x40, 0x40, 0x42, 0x3C, 0x00],
    [0x78, 0x44, 0x42, 0x42, 0x42, 0x44, 0x78, 0x00],
    [0x7E, 0x40, 0x40, 0x7C, 0x40, 0x40, 0x7E, 0x00],
    [0x7E, 0x40, 0x40, 0x7C, 0x40, 0x40, 0x40, 0x00],
    [0x3C, 0x42, 0x40, 0x4E, 0x42, 0x42, 0x3C, 0x00],
    [0x42, 0x42, 0x42, 0x7E, 0x42, 0x42, 0x42, 0x00],
    [0x7E, 0x18, 0x18, 0x18, 0x18, 0x18, 0x7E, 0x00],
    [0x1E, 0x04, 0x04, 0x04, 0x04, 0x44, 0x38, 0x00],
    [0x42, 0x44, 0x48, 0x70, 0x48, 0x44, 0x42, 0x00],
    [0x40, 0x40, 0x40, 0x40, 0x40, 0x40, 0x7E, 0x00],
    [0x42, 0x66, 0x5A, 0x5A, 0x42, 0x42, 0x42, 0x00],
    [0x42, 0x62, 0x52, 0x4A, 0x46, 0x42, 0x42, 0x00],
    [0x3C, 0x42, 0x42, 0x42, 0x42, 0x42, 0x3C, 0x00],
    [0x7C, 0x42, 0x42, 0x7C, 0x40, 0x40, 0x40, 0x00],
    [0x3C, 0x42, 0x42, 0x42, 0x4A, 0x44, 0x3A, 0x00],
    [0x7C, 0x42, 0x42, 0x7C, 0x48, 0x44, 0x42, 0x00],
    [0x3C, 0x42, 0x40, 0x3C, 0x02, 0x42, 0x3C, 0x00],
    [0x7E, 0x18, 0x18, 0x18, 0x18, 0x18, 0x18, 0x00],
    [0x42, 0x42, 0x42, 0x42, 0x42, 0x42, 0x3C, 0x00],
    [0x42, 0x42, 0x42, 0x42, 0x24, 0x24, 0x18, 0x00],
    [0x42, 0x42, 0x42, 0x5A, 0x5A, 0x66, 0x42, 0x00],
    [0x42, 0x42, 0x24, 0x18, 0x24, 0x42, 0x42, 0x00],
    [0x42, 0x42, 0x24, 0x18, 0x18, 0x18, 0x18, 0x00],
    [0x7E, 0x02, 0x04, 0x18, 0x20, 0x40, 0x7E, 0x00],
    [0x3C, 0x30, 0x30, 0x30, 0x30, 0x30, 0x3C, 0x00],
    [0x80, 0x40, 0x20, 0x10, 0x08, 0x04, 0x02, 0x00],
    [0x3C, 0x0C, 0x0C, 0x0C, 0x0C, 0x0C, 0x3C, 0x00],
    [0x18, 0x24, 0x42, 0x00, 0x00, 0x00, 0x00, 0x00],
    [0x00, 0x00, 0x00, 0x00, 0x00, 0x00, 0x7E, 0x00],
    [0x18, 0x18, 0x08, 0x00, 0x00, 0x00, 0x00, 0x00],
    [0x00, 0x00, 0x3C, 0x02, 0x3E, 0x42, 0x3E, 0x00],
    [0x40, 0x40, 0x7C, 0x42, 0x42, 0x42, 0x7C, 0x00],
    [0x00, 0x00, 0x3C, 0x42, 0x40, 0x42, 0x3C, 0x00],
    [0x02, 0x02, 0x3E, 0x42, 0x42, 0x42, 0x3E, 0x00],
    [0x00, 0x00, 0x3C, 0x42, 0x7E, 0x40, 0x3C, 0x00],
    [0x0C, 0x12, 0x10, 0x7C, 0x10, 0x10, 0x10, 0x00],
    [0x00, 0x00, 0x3E, 0x42, 0x42, 0x3E, 0x02, 0x3C],
    [0x40, 0x40, 0x7C, 0x42, 0x42, 0x42, 0x42, 0x00],
    [0x18, 0x00, 0x38, 0x18, 0x18, 0x18, 0x3C, 0x00],
    [0x0C, 0x00, 0x1C, 0x0C, 0x0C, 0x0C, 0x4C, 0x38],
    [0x40, 0x40, 0x44, 0x48, 0x70, 0x48, 0x44, 0x00],
    [0x38, 0x18, 0x18, 0x18, 0x18, 0x18, 0x3C, 0x00],
    [0x00, 0x00, 0x76, 0x4A, 0x4A, 0x4A, 0x4A, 0x00],
    [0x00, 0x00, 0x7C, 0x42, 0x42, 0x42, 0x42, 0x00],
    [0x00, 0x00, 0x3C, 0x42, 0x42, 0x42, 0x3C, 0x00],
    [0x00, 0x00, 0x7C, 0x42, 0x42, 0x7C, 0x40, 0x40],
    [0x00, 0x00, 0x3E, 0x42, 0x42, 0x3E, 0x02, 0x02],
    [0x00, 0x00, 0x5C, 0x62, 0x40, 0x40, 0x40, 0x00],
    [0x00, 0x00, 0x3E, 0x40, 0x3C, 0x02, 0x7C, 0x00],
    [0x10, 0x10, 0x7C, 0x10, 0x10, 0x12, 0x0C, 0x00],
    [0x00, 0x00, 0x42, 0x42, 0x42, 0x42, 0x3E, 0x00],
    [0x00, 0x00, 0x42, 0x42, 0x42, 0x24, 0x18, 0x00],
    [0x00, 0x00, 0x42, 0x42, 0x5A, 0x5A, 0x24, 0x00],
    [0x00, 0x00, 0x42, 0x24, 0x18, 0x24, 0x42, 0x00],
    [0x00, 0x00, 0x42, 0x42, 0x42, 0x3E, 0x02, 0x3C],
    [0x00, 0x00, 0x7E, 0x04, 0x18, 0x20, 0x7E, 0x00],
    [0x0E, 0x18, 0x18, 0x30, 0x18, 0x18, 0x0E, 0x00],
    [0x18, 0x18, 0x18, 0x18, 0x18, 0x18, 0x18, 0x00],
    [0x70, 0x18, 0x18, 0x0C, 0x18, 0x18, 0x70, 0x00],
    [0x00, 0x00, 0x32, 0x4C, 0x00, 0x00, 0x00, 0x00]]"

definition cursor_outline :: "u8 list" where
  "cursor_outline = [
    0x80, 0x00, 0xC0, 0x00, 0xE0, 0x00, 0xF0, 0x00, 0xF8, 0x00, 0xFC, 0x00,
    0xFE, 0x00, 0xFF, 0x00, 0xFF, 0x80, 0xFF, 0xC0, 0xFF, 0xE0, 0xFF, 0xE0,
    0xFE, 0x00, 0xEF, 0x00, 0xCF, 0x00, 0x87, 0x80, 0x07, 0x80, 0x03, 0x80]"

definition cursor_fill :: "u8 list" where
  "cursor_fill = [
    0x00, 0x00, 0x00, 0x00, 0x40, 0x00, 0x60, 0x00, 0x70, 0x00, 0x78, 0x00,
    0x7C, 0x00, 0x7E, 0x00, 0x7F, 0x00, 0x7F, 0x80, 0x7F, 0xC0, 0x7C, 0x00,
    0x6C, 0x00, 0x46, 0x00, 0x06, 0x00, 0x03, 0x00, 0x03, 0x00, 0x00, 0x00]"

definition pointer_outline :: "u8 list" where
  "pointer_outline = [
    0x06, 0x00, 0x06, 0x00, 0x06, 0x00, 0x06, 0x00, 0x06, 0x00, 0x06, 0xC0,
    0x06, 0xE0, 0xE6, 0xF0, 0xF7, 0xF0, 0x7F, 0xF0, 0x3F, 0xF0, 0x1F, 0xF0,
    0x1F, 0xE0, 0x0F, 0xE0, 0x0F, 0xC0, 0x07, 0xC0, 0x07, 0xC0, 0x03, 0x80]"

definition pointer_fill :: "u8 list" where
  "pointer_fill = [
    0x00, 0x00, 0x04, 0x00, 0x04, 0x00, 0x04, 0x00, 0x04, 0x00, 0x04, 0x80,
    0x04, 0xC0, 0x44, 0xE0, 0x65, 0xE0, 0x3F, 0xE0, 0x1F, 0xE0, 0x0F, 0xE0,
    0x0F, 0xC0, 0x07, 0xC0, 0x07, 0x80, 0x03, 0x80, 0x03, 0x80, 0x00, 0x00]"

lemma length_font8x8 [simp]: "length font8x8 = 95"
  by (simp add: font8x8_def)

lemma font8x8_rows: "\<forall>glyph\<in>set font8x8. length glyph = 8"
  by (simp add: font8x8_def)

lemma cursor_lengths [simp]:
  "length cursor_outline = 36" "length cursor_fill = 36"
  "length pointer_outline = 36" "length pointer_fill = 36"
  by (simp_all add: cursor_outline_def cursor_fill_def pointer_outline_def pointer_fill_def)

end
