(* ===== verification/Canvas.thy ===== *)
theory Canvas
  imports Prelude
begin

text \<open>
  Drawing in terms of a pixel store. The kernel draws rectangles, lines and glyphs twice, into
  the back buffer (\<^verbatim>\<open>drivers/vga-graphics.c\<close>) and into the buffer of a window
  (\<^verbatim>\<open>kernel/window.c\<close>), with the same loops around \<^verbatim>\<open>vga_put_pixel\<close> and
  \<^verbatim>\<open>window_put_pixel\<close>. The loops are modelled here with the pixel store as a
  parameter; the locale \<open>canvas\<close> states what a pixel store promises, and the shapes are proved
  once from it.
\<close>

section \<open>The drawing loops\<close>

type_synonym 's putter = "int \<Rightarrow> int \<Rightarrow> u8 \<Rightarrow> 's \<Rightarrow> 's option"

text \<open>\<^verbatim>\<open>for (i = x; i < x + w; i++) for (j = y; j < y + h; j++) put(i, j)\<close>\<close>

definition fill_rect :: "'s putter \<Rightarrow> int \<Rightarrow> int \<Rightarrow> int \<Rightarrow> int \<Rightarrow> u8 \<Rightarrow> 's \<Rightarrow> 's option" where
  "fill_rect put x y w h color s =
     foldM (\<lambda>i. foldM (\<lambda>j. put i j color) [y..y + h - 1]) [x..x + w - 1] s"

text \<open>The glyph loops: 8 rows of 8 bits, most significant bit left.\<close>

definition draw_glyph :: "'s putter \<Rightarrow> u8 list \<Rightarrow> int \<Rightarrow> int \<Rightarrow> u8 \<Rightarrow> 's \<Rightarrow> 's option" where
  "draw_glyph put glyph x y color s =
     foldM (\<lambda>row s. if row < length glyph then
         foldM (\<lambda>col s. if glyph ! row AND drop_bit col 0x80 \<noteq> 0
                        then put (x + int col) (y + int row) color s else Some s) [0..<8] s
       else None) [0..<8] s"

text \<open>
  Bresenham's loop, \<^verbatim>\<open>while (1)\<close> with its exit in the middle; \<open>dx\<close>, \<open>dy\<close> are the
  absolute differences and \<open>sx\<close>, \<open>sy\<close> the directions.
\<close>

partial_function (option) line_loop ::
  "'s putter \<Rightarrow> u8 \<Rightarrow> int \<Rightarrow> int \<Rightarrow> int \<Rightarrow> int \<Rightarrow> int \<Rightarrow> int \<Rightarrow> int \<Rightarrow> int \<Rightarrow> int \<Rightarrow> 's \<Rightarrow> 's option"
where
  "line_loop put color x1 y1 dx dy sx sy x0 y0 error s =
     do {
       s \<leftarrow> put x0 y0 color s;
       if x0 = x1 \<and> y0 = y1 then Some s
       else
         let error2 = 2 * error;
             (error, x0) = (if error2 > - dy then (error - dy, x0 + sx) else (error, x0));
             (error, y0) = (if error2 < dx then (error + dx, y0 + sy) else (error, y0))
         in line_loop put color x1 y1 dx dy sx sy x0 y0 error s
     }"

definition draw_line :: "'s putter \<Rightarrow> int \<Rightarrow> int \<Rightarrow> int \<Rightarrow> int \<Rightarrow> u8 \<Rightarrow> 's \<Rightarrow> 's option" where
  "draw_line put x0 y0 x1 y1 color s =
     (let dx = c_abs (x1 - x0); dy = c_abs (y1 - y0);
          sx = (if x0 < x1 then 1 else -1); sy = (if y0 < y1 then 1 else -1)
      in line_loop put color x1 y1 dx dy sx sy x0 y0 (dx - dy) s)"

text \<open>The box spanned by the end points of a line.\<close>

definition box :: "int \<Rightarrow> int \<Rightarrow> int \<Rightarrow> int \<Rightarrow> (int \<times> int) set" where
  "box x0 y0 x1 y1 = {(a, b). min x0 x1 \<le> a \<and> a \<le> max x0 x1 \<and> min y0 y1 \<le> b \<and> b \<le> max y0 y1}"

section \<open>What a pixel store promises\<close>

text \<open>
  \<open>inside\<close> tells which coordinates are visible and \<open>px\<close> reads a pixel. A put never faults,
  sets exactly one visible pixel, and ignores coordinates that are not visible. The coordinates
  are values of a C \<^verbatim>\<open>int\<close>.
\<close>

locale canvas =
  fixes put :: "'s putter"
    and inv :: "'s \<Rightarrow> bool"
    and inside :: "'s \<Rightarrow> int \<Rightarrow> int \<Rightarrow> bool"
    and px :: "'s \<Rightarrow> int \<Rightarrow> int \<Rightarrow> u8"
  assumes put_spec: "inv s \<Longrightarrow> c_int x \<Longrightarrow> c_int y \<Longrightarrow> \<exists>s'. put x y c s = Some s' \<and> inv s' \<and> inside s' = inside s
     \<and> (\<forall>a b. inside s a b \<longrightarrow> px s' a b = (if (a, b) = (x, y) then c else px s a b))"
begin

definition painted :: "(int \<times> int) set \<Rightarrow> u8 \<Rightarrow> 's \<Rightarrow> 's \<Rightarrow> bool" where
  "painted P c s s' \<longleftrightarrow> inv s' \<and> inside s' = inside s
     \<and> (\<forall>a b. inside s a b \<longrightarrow> px s' a b = (if (a, b) \<in> P then c else px s a b))"

lemma painted_empty: "inv s \<Longrightarrow> painted {} c s s"
  by (simp add: painted_def)

lemma painted_put: "inv s \<Longrightarrow> c_int x \<Longrightarrow> c_int y \<Longrightarrow> \<exists>s'. put x y c s = Some s' \<and> painted {(x, y)} c s s'"
  using put_spec [of s x y c] by (auto simp: painted_def)

lemma painted_union: "painted P c s t \<Longrightarrow> painted Q c t u \<Longrightarrow> painted (P \<union> Q) c s u"
  by (auto simp: painted_def)

lemma painted_inv: "painted P c s t \<Longrightarrow> inv t"
  by (simp add: painted_def)

lemma paint_points:
  "inv s \<Longrightarrow> \<forall>(x, y)\<in>set ps. c_int x \<and> c_int y \<Longrightarrow>
     \<exists>s'. foldM (\<lambda>(x, y). put x y c) ps s = Some s' \<and> painted (set ps) c s s'"
proof (induction ps arbitrary: s)
  case Nil
  then show ?case by (simp add: painted_empty)
next
  case (Cons p ps)
  obtain x y where p: "p = (x, y)" by (cases p)
  obtain t where t: "put x y c s = Some t" "painted {(x, y)} c s t"
    using painted_put [OF Cons.prems(1), of x y c] Cons.prems(2) p by auto
  obtain u where "foldM (\<lambda>(x, y). put x y c) ps t = Some u" "painted (set ps) c t u"
    using Cons.IH [OF painted_inv [OF t(2)]] Cons.prems(2) by auto
  with t p painted_union [OF t(2)] show ?case by fastforce
qed

lemma fill_rect_paints:
  assumes "inv s" "c_int x" "c_int y" "c_int (x + w)" "c_int (y + h)"
  shows "\<exists>s'. fill_rect put x y w h c s = Some s'
     \<and> painted {(a, b). x \<le> a \<and> a < x + w \<and> y \<le> b \<and> b < y + h} c s s'"
proof -
  let ?ps = "concat (map (\<lambda>i. map (\<lambda>j. (i, j)) [y..y + h - 1]) [x..x + w - 1])"
  have inner: "foldM (\<lambda>(x, y). put x y c) (map (Pair i) ys) = foldM (\<lambda>j. put i j c) ys" for i ys
    by (rule ext) (simp add: foldM_map)
  have "foldM (\<lambda>i. foldM (\<lambda>j. put i j c) [y..y + h - 1]) [x..x + w - 1] s
      = foldM (\<lambda>(x, y). put x y c) ?ps s"
    unfolding foldM_concat [symmetric] foldM_map inner ..
  moreover have "set ?ps = {(a, b). x \<le> a \<and> a < x + w \<and> y \<le> b \<and> b < y + h}" by auto
  ultimately show ?thesis
    using paint_points [OF assms(1), of ?ps c] assms by (fastforce simp: fill_rect_def c_int_def)
qed

lemma draw_glyph_paints:
  assumes "inv s" "length glyph = 8" "c_int x" "c_int y" "c_int (x + 8)" "c_int (y + 8)"
  shows "\<exists>s'. draw_glyph put glyph x y c s = Some s'
     \<and> painted {(x + int col, y + int row) | row col. row < 8 \<and> col < 8 \<and> bit (glyph ! row) (7 - col)} c s s'"
proof -
  let ?P = "\<lambda>row col. glyph ! row AND drop_bit col 0x80 \<noteq> 0"
  let ?row = "\<lambda>row. map (\<lambda>col. (x + int col, y + int row)) (filter (?P row) [0..<8])"
  let ?ps = "concat (map ?row [0..<8])"
  have row: "foldM (\<lambda>col s. if ?P row col then put (x + int col) (y + int row) c s else Some s) [0..<8]
      = foldM (\<lambda>(x, y). put x y c) (?row row)" for row
    by (rule ext) (simp add: foldM_skip foldM_map)
  have "draw_glyph put glyph x y c s = foldM (foldM (\<lambda>(x, y). put x y c)) (map ?row [0..<8]) s"
    unfolding draw_glyph_def row foldM_map by (rule foldM_cong) (simp add: assms(2))
  also have "\<dots> = foldM (\<lambda>(x, y). put x y c) ?ps s" by (rule foldM_concat)
  finally have eq: "draw_glyph put glyph x y c s = foldM (\<lambda>(x, y). put x y c) ?ps s" .
  have P: "?P row col \<longleftrightarrow> bit (glyph ! row) (7 - col)" if "col < 8" for row col
  proof -
    have "drop_bit col (0x80 :: u8) = push_bit (7 - col) 1"
    proof -
      have "col \<in> {0, 1, 2, 3, 4, 5, 6, 7}" using that by auto
      then show ?thesis by (elim insertE) simp_all
    qed
    then show ?thesis by (simp add: bit_iff_and_push_bit_not_eq_0)
  qed
  have "set ?ps = {(x + int col, y + int row) | row col. row < 8 \<and> col < 8 \<and> bit (glyph ! row) (7 - col)}"
  proof -
    have "filter (?P row) [0..<8] = filter (\<lambda>col. bit (glyph ! row) (7 - col)) [0..<8]" for row
      by (rule filter_cong [OF refl]) (rule P, simp)
    then have "set ?ps = (\<Union>row\<in>{0..<8}. (\<lambda>col. (x + int col, y + int row))
        ` {col \<in> {0..<8}. bit (glyph ! row) (7 - col)})" by (simp only: set_concat set_map set_filter set_upt image_image)
    then show ?thesis by auto
  qed
  moreover have "\<forall>(a, b)\<in>set ?ps. c_int a \<and> c_int b" using assms by (auto simp: c_int_def)
  ultimately show ?thesis using paint_points [OF assms(1), of ?ps c] unfolding eq by simp
qed

text \<open>
  Bresenham's invariant: with \<open>a\<close>, \<open>b\<close> the distances still to go in both directions, the error
  is \<open>dy (a - 1) - dx (b - 1)\<close>. It never steps past an end point and always makes a step, so
  the loop ends after at most \<open>a + b\<close> of them, inside the bounding box.
\<close>

lemma line_step_x: "(0::int) \<le> b \<Longrightarrow> 0 \<le> dx \<Longrightarrow> 0 \<le> dy \<Longrightarrow> a = 0 \<Longrightarrow> 0 < b \<Longrightarrow>
    \<not> 2 * (dy * (a - 1) - dx * (b - 1)) > - dy"
proof -
  assume h: "0 \<le> b" "0 \<le> dx" "0 \<le> dy" "a = 0" "0 < b"
  then have "0 \<le> dx * (b - 1)" by simp
  then show ?thesis using h by (simp add: algebra_simps)
qed

lemma line_step_y: "(0::int) \<le> a \<Longrightarrow> 0 \<le> dx \<Longrightarrow> 0 \<le> dy \<Longrightarrow> b = 0 \<Longrightarrow> 0 < a \<Longrightarrow>
    \<not> 2 * (dy * (a - 1) - dx * (b - 1)) < dx"
proof -
  assume h: "0 \<le> a" "0 \<le> dx" "0 \<le> dy" "b = 0" "0 < a"
  then have "0 \<le> dy * (a - 1)" by simp
  then show ?thesis using h by (simp add: algebra_simps)
qed

lemma line_loop_paints:
  assumes "inv s" and "c_int x0" "c_int y0" "c_int x1" "c_int y1"
    and "x1 = x0 + sx * int a" "y1 = y0 + sy * int b"
    and "\<bar>sx\<bar> = 1" "\<bar>sy\<bar> = 1" "0 \<le> dx" "0 \<le> dy" "0 < dx + dy \<or> a = 0 \<and> b = 0"
    and "error = dy * (int a - 1) - dx * (int b - 1)"
  shows "\<exists>s' P. line_loop put c x1 y1 dx dy sx sy x0 y0 error s = Some s' \<and> painted P c s s'
     \<and> (x0, y0) \<in> P \<and> (x1, y1) \<in> P
     \<and> P \<subseteq> {(x0 + sx * int i, y0 + sy * int j) | i j. i \<le> a \<and> j \<le> b}"
  using assms
proof (induction "a + b" arbitrary: a b x0 y0 error s rule: less_induct)
  case less
  obtain t where t: "put x0 y0 c s = Some t" "painted {(x0, y0)} c s t"
    using painted_put [OF less.prems(1,2,3)] by blast
  have here: "(x0, y0) \<in> {(x0 + sx * int i, y0 + sy * int j) | i j. i \<le> a \<and> j \<le> b}"
    by (rule CollectI, intro exI [of _ 0]) simp
  show ?case
  proof (cases "a = 0 \<and> b = 0")
    case True
    then show ?thesis using t less.prems here
      by (subst line_loop.simps) (auto intro!: exI [of _ "{(x0, y0)}"])
  next
    case False
    have ne: "\<not> (x0 = x1 \<and> y0 = y1)" using False less.prems(6-9) by auto
    have pos: "0 < dx + dy" using less.prems(12) False by blast
    let ?gx = "2 * error > - dy" and ?gy = "2 * error < dx"
    have gx: "?gx \<Longrightarrow> 0 < a"
      using line_step_x [of "int b" dx dy "int a"] less.prems(10,11,13) False by (cases "a = 0") auto
    have gy: "?gy \<Longrightarrow> 0 < b"
      using line_step_y [of "int a" dx dy "int b"] less.prems(10,11,13) False by (cases "b = 0") auto
    have some: "?gx \<or> ?gy" using pos less.prems(10,11) by linarith
    define a' where "a' = (if ?gx then a - 1 else a)"
    define b' where "b' = (if ?gy then b - 1 else b)"
    define x' where "x' = (if ?gx then x0 + sx else x0)"
    define y' where "y' = (if ?gy then y0 + sy else y0)"
    define e' where "e' = (if ?gx then error - dy else error) + (if ?gy then dx else 0)"
    have lt: "a' + b' < a + b" using gx gy some by (auto simp: a'_def b'_def)
    have ia: "int a' = (if ?gx then int a - 1 else int a)" "int b' = (if ?gy then int b - 1 else int b)"
      using gx gy by (auto simp: a'_def b'_def of_nat_diff)
    have loop: "line_loop put c x1 y1 dx dy sx sy x0 y0 error s
        = line_loop put c x1 y1 dx dy sx sy x' y' e' t"
      by (subst line_loop.simps) (simp add: t(1) if_not_P [OF ne] x'_def y'_def e'_def Let_def)
    have x': "x1 = x' + sx * int a'" "y1 = y' + sy * int b'"
      using less.prems(6,7) ia by (auto simp: x'_def y'_def algebra_simps)
    have ci: "c_int x'" "c_int y'"
      using less.prems(2-9) gx gy by (auto simp: c_int_def x'_def y'_def abs_if split: if_splits)
    have e': "e' = dy * (int a' - 1) - dx * (int b' - 1)"
      unfolding ia e'_def using less.prems(13) by (auto simp: algebra_simps)
    obtain u P where u: "line_loop put c x1 y1 dx dy sx sy x' y' e' t = Some u" "painted P c t u"
        "(x', y') \<in> P" "(x1, y1) \<in> P"
        "P \<subseteq> {(x' + sx * int i, y' + sy * int j) | i j. i \<le> a' \<and> j \<le> b'}"
      using less.hyps [OF lt painted_inv [OF t(2)] ci less.prems(4,5) x' less.prems(8-11) _ e'] pos by blast
    have "P \<subseteq> {(x0 + sx * int i, y0 + sy * int j) | i j. i \<le> a \<and> j \<le> b}"
    proof
      fix p assume "p \<in> P"
      then obtain i j where ij: "p = (x' + sx * int i, y' + sy * int j)" "i \<le> a'" "j \<le> b'" using u(5) by blast
      let ?i = "if ?gx then Suc i else i" and ?j = "if ?gy then Suc j else j"
      have "p = (x0 + sx * int ?i, y0 + sy * int ?j)"
        unfolding ij(1) by (simp add: x'_def y'_def algebra_simps)
      moreover have "?i \<le> a" "?j \<le> b" using ij(2,3) gx gy by (auto simp: a'_def b'_def)
      ultimately show "p \<in> {(x0 + sx * int i, y0 + sy * int j) | i j. i \<le> a \<and> j \<le> b}" by blast
    qed
    then have "\<exists>s' P. line_loop put c x1 y1 dx dy sx sy x' y' e' t = Some s' \<and> painted P c s s'
     \<and> (x0, y0) \<in> P \<and> (x1, y1) \<in> P
     \<and> P \<subseteq> {(x0 + sx * int i, y0 + sy * int j) | i j. i \<le> a \<and> j \<le> b}"
      using u painted_union [OF t(2) u(2)] here by (intro exI [of _ u] exI [of _ "{(x0, y0)} \<union> P"]) auto
    then show ?thesis unfolding loop .
  qed
qed

lemma draw_line_paints:
  assumes "inv s" "c_int x0" "c_int y0" "c_int x1" "c_int y1"
  shows "\<exists>s' P. draw_line put x0 y0 x1 y1 c s = Some s' \<and> painted P c s s'
     \<and> (x0, y0) \<in> P \<and> (x1, y1) \<in> P \<and> P \<subseteq> box x0 y0 x1 y1"
proof -
  let ?a = "nat \<bar>x1 - x0\<bar>" and ?b = "nat \<bar>y1 - y0\<bar>"
  let ?sx = "if x0 < x1 then 1 else -1 :: int" and ?sy = "if y0 < y1 then 1 else -1 :: int"
  have "\<exists>s' P. line_loop put c x1 y1 \<bar>x1 - x0\<bar> \<bar>y1 - y0\<bar> ?sx ?sy x0 y0 (\<bar>x1 - x0\<bar> - \<bar>y1 - y0\<bar>) s = Some s'
     \<and> painted P c s s' \<and> (x0, y0) \<in> P \<and> (x1, y1) \<in> P
     \<and> P \<subseteq> {(x0 + ?sx * int i, y0 + ?sy * int j) | i j. i \<le> ?a \<and> j \<le> ?b}"
    by (rule line_loop_paints [OF assms]) (auto simp: algebra_simps)
  moreover have "{(x0 + ?sx * int i, y0 + ?sy * int j) | i j. i \<le> ?a \<and> j \<le> ?b} \<subseteq> box x0 y0 x1 y1"
    by (auto simp: box_def)
  ultimately show ?thesis unfolding draw_line_def by (fastforce simp: Let_def)
qed

end

end
