(* ===== verification/Mouse.thy ===== *)
theory Mouse
  imports Prelude
begin

text \<open>
  The PS/2 mouse, \<^verbatim>\<open>drivers/mouse.c\<close>: the interrupt handler receives one byte at a time,
  assembles packets of three and moves the cursor inside the screen. The byte read from the
  controller is an argument; acknowledging the interrupt (\<^verbatim>\<open>outb\<close>) and programming the
  controller have no effect on this state.
\<close>

section \<open>Model\<close>

datatype cursor_type = CURSOR_ARROW | CURSOR_POINTER

record mouse =
  mouse_cycle :: u8
  mouse_bytes :: "u8 list"
  mouse_buttons :: u8
  prev_mouse_buttons :: u8
  mouse_x :: int
  mouse_y :: int
  prev_mouse_x :: int
  prev_mouse_y :: int
  drag_offset_x :: int
  drag_offset_y :: int
  current_cursor :: cursor_type

definition mouse_start :: mouse where
  "mouse_start = \<lparr>mouse_cycle = 0, mouse_bytes = [0, 0, 0], mouse_buttons = 0, prev_mouse_buttons = 0,
     mouse_x = 400, mouse_y = 300, prev_mouse_x = 400, prev_mouse_y = 300,
     drag_offset_x = 0, drag_offset_y = 0, current_cursor = CURSOR_ARROW\<rparr>"

text \<open>\<^verbatim>\<open>b | 0xFFFFFF00\<close> stored in an \<^verbatim>\<open>int\<close>: the byte with nine-bit sign.\<close>

definition mouse_delta :: "bool \<Rightarrow> u8 \<Rightarrow> int" where
  "mouse_delta negative b = sint (if negative then ucast b OR 0xFFFFFF00 else ucast b :: u32)"

text \<open>
  The clamp: \<^verbatim>\<open>mouse_x > screen_width - 1\<close> compares unsigned, after the negative case
  was removed.
\<close>

definition clamp :: "u32 \<Rightarrow> int \<Rightarrow> int" where
  "clamp limit p =
     (let p = (if p < 0 then 0 else p)
      in if (word_of_int p :: u32) > limit - 1 then sint (limit - 1) else p)"

definition mouse_handler_main :: "u32 \<Rightarrow> u32 \<Rightarrow> u8 \<Rightarrow> mouse \<Rightarrow> mouse" where
  "mouse_handler_main screen_width screen_height input m =
     (if mouse_cycle m = 0 then
        let m = m\<lparr>mouse_bytes := (mouse_bytes m)[0 := input]\<rparr>
        in if input AND push_bit 3 1 = 0 then m
           else m\<lparr>mouse_cycle := (mouse_cycle m + 1) mod 3\<rparr>
      else if mouse_cycle m = 1 then
        m\<lparr>mouse_bytes := (mouse_bytes m)[1 := input], mouse_cycle := (mouse_cycle m + 1) mod 3\<rparr>
      else
        let m = m\<lparr>mouse_bytes := (mouse_bytes m)[2 := input]\<rparr>;
            b0 = mouse_bytes m ! 0
        in if b0 AND push_bit 6 1 \<noteq> 0 \<or> b0 AND push_bit 7 1 \<noteq> 0 then m\<lparr>mouse_cycle := 0\<rparr>
           else
             let dx = mouse_delta (b0 AND push_bit 4 1 \<noteq> 0) (mouse_bytes m ! 1);
                 dy = mouse_delta (b0 AND push_bit 5 1 \<noteq> 0) (mouse_bytes m ! 2);
                 m = m\<lparr>prev_mouse_x := mouse_x m, prev_mouse_y := mouse_y m\<rparr>;
                 m = m\<lparr>mouse_x := clamp screen_width (mouse_x m + dx),
                       mouse_y := clamp screen_height (mouse_y m - dy)\<rparr>;
                 m = m\<lparr>prev_mouse_buttons := mouse_buttons m, mouse_buttons := b0 AND 0x07\<rparr>
             in m\<lparr>mouse_cycle := (mouse_cycle m + 1) mod 3\<rparr>)"

section \<open>The cursor stays on the screen\<close>

definition mouse_ok :: "u32 \<Rightarrow> u32 \<Rightarrow> mouse \<Rightarrow> bool" where
  "mouse_ok w h m \<longleftrightarrow> mouse_cycle m \<in> {0, 1, 2} \<and> length (mouse_bytes m) = 3
     \<and> 0 \<le> mouse_x m \<and> mouse_x m < int (unat w) \<and> 0 \<le> mouse_y m \<and> mouse_y m < int (unat h)"

lemma sint_of_c_int: "c_int k \<Longrightarrow> sint (word_of_int k :: u32) = k"
  unfolding c_int_def sint_sbintrunc' by (rule signed_take_bit_int_eq_self) simp_all

lemma mouse_delta_eq: "mouse_delta neg b = int (unat b) - (if neg then 256 else 0)"
proof -
  have b: "0 \<le> uint b" "uint b < 256" using uint_bounded [of b] by simp_all
  have u: "(ucast b :: u32) = word_of_int (uint b)" by (rule ucast_eq)
  have hi: "(0xFFFFFF00 :: u32) = push_bit 8 (mask 24)" by (simp add: mask_eq_exp_minus_1)
  have "bit (ucast b :: u32) n \<longrightarrow> \<not> bit (push_bit 8 (mask 24) :: u32) n" for n
    by (auto simp: bit_ucast_iff bit_push_bit_iff dest: bit_imp_le_length)
  then have "(ucast b AND 0xFFFFFF00 :: u32) = 0"
    unfolding hi by (auto intro!: bit_eqI simp: bit_and_iff)
  then have "(ucast b OR 0xFFFFFF00 :: u32) = ucast b + 0xFFFFFF00"
    using word_plus_and_or [of "ucast b :: u32" "0xFFFFFF00"] by simp
  also have "\<dots> = word_of_int (uint b) + word_of_int (- 256)" unfolding u by simp
  also have "\<dots> = word_of_int (uint b - 256)" by (simp only: wi_hom_add diff_conv_add_uminus)
  finally have o: "(ucast b OR 0xFFFFFF00 :: u32) = word_of_int (uint b - 256)" .
  have "c_int (uint b)" "c_int (uint b - 256)" unfolding c_int_def using b by linarith+
  then have "sint (word_of_int (uint b - 256) :: u32) = uint b - 256" "sint (word_of_int (uint b) :: u32) = uint b"
    by (auto simp only: sint_of_c_int)
  then have "sint (ucast b OR 0xFFFFFF00 :: u32) = uint b - 256" "sint (ucast b :: u32) = uint b"
    unfolding o [symmetric] u [symmetric] .
  then show ?thesis by (cases neg) (simp_all add: mouse_delta_def)
qed

lemma mouse_delta_range: "- 256 \<le> mouse_delta g v" "mouse_delta g v < 256"
  using uint_bounded [of v] unfolding mouse_delta_eq by (auto simp: le_diff_eq intro: order_trans [OF _ uint_ge_0])

lemma clamp_range:
  assumes "0 < unat n" "unat n < 2 ^ 31" "c_int p"
  shows "clamp n p = max 0 (min p (int (unat n) - 1))"
proof -
  have n1: "unat (n - 1) = unat n - 1" using assms(1) by (subst unat_minus32) (auto simp: word_le_nat_alt)
  then have s: "sint (n - 1) = int (unat n - 1)" using assms(2) by (subst sint_small) simp_all
  define q where "q = max 0 p"
  have q: "0 \<le> q" "q < 2 ^ 32" using assms(3) by (auto simp: q_def c_int_def)
  then have "unat (word_of_int q :: u32) = nat q" by (rule unat_u32_of)
  then have "(word_of_int q :: u32) > n - 1 \<longleftrightarrow> int (unat n - 1) < q"
    unfolding word_less_nat_alt n1 using q(1) by linarith
  moreover have "clamp n p = (if (word_of_int q :: u32) > n - 1 then int (unat n - 1) else q)"
    unfolding clamp_def s q_def by (simp add: max_def)
  moreover define N where "N = unat n"
  moreover have "1 \<le> N" using assms(1) unfolding N_def by linarith
  ultimately have "clamp n p = (if int N - 1 < q then int N - 1 else q)" by (simp add: of_nat_diff)
  then show ?thesis using \<open>1 \<le> N\<close> unfolding q_def N_def [symmetric] by (simp add: max_def min_def)
qed

lemma handler_keeps [inv_kept]:
  assumes "mouse_ok w h m" "unat w \<le> 65536" "unat h \<le> 65536"
  shows "mouse_ok w h (mouse_handler_main w h b m)"
proof -
  define W H where "W = unat w" and "H = unat h"
  have m: "0 \<le> mouse_x m" "mouse_x m < int W" "0 \<le> mouse_y m" "mouse_y m < int H"
    and c: "mouse_cycle m \<in> {0, 1, 2}" "length (mouse_bytes m) = 3"
    using assms(1) unfolding W_def H_def mouse_ok_def by simp_all
  have wh: "0 < W" "W \<le> 65536" "0 < H" "H \<le> 65536"
    using m assms(2,3) unfolding W_def [symmetric] H_def [symmetric] by linarith+
  note d = mouse_delta_range
  have cx: "c_int (mouse_x m + mouse_delta g v)" for g v
    using m wh d [of g v] unfolding c_int_def by linarith
  have cy: "c_int (mouse_y m - mouse_delta g v)" for g v
    using m wh d [of g v] unfolding c_int_def by linarith
  have cl: "0 \<le> clamp n p \<and> clamp n p < int (unat n)"
    if "c_int p" "0 < unat n" "unat n \<le> 65536" for n p
  proof -
    have "clamp n p = max 0 (min p (int (unat n) - 1))"
      by (rule clamp_range) (use that in simp_all)
    moreover have "1 \<le> int (unat n)" using that(2) by linarith
    ultimately show ?thesis unfolding max_def min_def by auto
  qed
  have x: "0 \<le> clamp w p \<and> clamp w p < int (unat w)" if "c_int p" for p
    by (rule cl) (use that wh in \<open>simp_all add: W_def\<close>)
  have y: "0 \<le> clamp h p \<and> clamp h p < int (unat h)" if "c_int p" for p
    by (rule cl) (use that wh in \<open>simp_all add: H_def\<close>)
  show ?thesis
    using assms(1) c x [OF cx] y [OF cy] unfolding mouse_ok_def mouse_handler_main_def Let_def
    by (elim conjE insertE emptyE; simp)
qed

text \<open>
  From the position the module starts with, no stream of bytes, however garbled, moves the
  cursor off a screen that contains it.
\<close>

theorem cursor_stays_on_screen:
  assumes "400 < unat w" "unat w \<le> 65536" "300 < unat h" "unat h \<le> 65536"
  shows "mouse_ok w h (fold (mouse_handler_main w h) bytes mouse_start)"
proof -
  have less_iff: "400 < int (unat w)" "300 < int (unat h)" using assms(1,3) by linarith+
  have "mouse_ok w h m \<Longrightarrow> mouse_ok w h (fold (mouse_handler_main w h) bytes m)" for m
    by (induction bytes arbitrary: m) (simp_all add: handler_keeps assms)
  moreover have "mouse_ok w h mouse_start"
    using assms(1,3) by (simp add: mouse_ok_def mouse_start_def less_iff [simplified])
  ultimately show ?thesis by simp
qed

theorem cursor_stays_on_screen_witness:
  "mouse_ok 1024 768 (fold (mouse_handler_main 1024 768) [0x38, 0xFF, 0x80, 0x07] mouse_start)"
  by (rule cursor_stays_on_screen) simp_all

lemma noise_skipped:
  assumes "\<forall>b \<in> set noise. b AND 8 = 0" "mouse_cycle m = 0" "length (mouse_bytes m) = 3"
  shows "\<exists>bs. length bs = 3 \<and> fold (mouse_handler_main w h) noise m = m\<lparr>mouse_bytes := bs\<rparr>"
  using assms
proof (induction noise arbitrary: m)
  case Nil
  show ?case by (rule exI [of _ "mouse_bytes m"]) (simp add: Nil)
next
  case (Cons b noise)
  have "mouse_handler_main w h b m = m\<lparr>mouse_bytes := (mouse_bytes m)[0 := b]\<rparr>"
    using Cons.prems by (simp add: mouse_handler_main_def)
  then show ?case using Cons.IH [of "m\<lparr>mouse_bytes := (mouse_bytes m)[0 := b]\<rparr>"] Cons.prems by simp
qed

text \<open>
  A complete packet, read from the start of a cycle, moves the cursor by the two nine-bit
  deltas (the vertical axis of the device points up), clamped to the screen, records the
  previous position and the buttons, and leaves the handler at the start of a cycle. Bytes
  that cannot start a packet are skipped, which is how the handler finds the packet boundary
  again.
\<close>

theorem packet_moves_cursor:
  assumes "mouse_ok w h m" "mouse_cycle m = 0" "unat w \<le> 65536" "unat h \<le> 65536"
    and noise: "\<forall>b \<in> set noise. b AND 8 = 0"
    and first: "b0 AND 8 \<noteq> 0" "b0 AND 64 = 0" "b0 AND 128 = 0"
  shows "fold (mouse_handler_main w h) (noise @ [b0, b1, b2]) m = m\<lparr>
    mouse_cycle := 0, mouse_bytes := [b0, b1, b2],
    mouse_buttons := b0 AND 7, prev_mouse_buttons := mouse_buttons m,
    mouse_x := max 0 (min (mouse_x m + (int (unat b1) - (if b0 AND 16 \<noteq> 0 then 256 else 0))) (int (unat w) - 1)),
    mouse_y := max 0 (min (mouse_y m - (int (unat b2) - (if b0 AND 32 \<noteq> 0 then 256 else 0))) (int (unat h) - 1)),
    prev_mouse_x := mouse_x m, prev_mouse_y := mouse_y m\<rparr>"
proof -
  define W H where "W = unat w" and "H = unat h"
  have m: "0 \<le> mouse_x m" "mouse_x m < int W" "0 \<le> mouse_y m" "mouse_y m < int H"
    and len: "length (mouse_bytes m) = 3"
    using assms(1) unfolding W_def H_def mouse_ok_def by simp_all
  have wh: "0 < W" "W \<le> 65536" "0 < H" "H \<le> 65536"
    using m assms(3,4) unfolding W_def [symmetric] H_def [symmetric] by linarith+
  note d = mouse_delta_range
  have x: "clamp w (mouse_x m + mouse_delta g v)
      = max 0 (min (mouse_x m + mouse_delta g v) (int (unat w) - 1))" for g v
  proof (rule clamp_range)
    show "c_int (mouse_x m + mouse_delta g v)"
      using m wh d [of g v] unfolding c_int_def by linarith
  qed (use wh in \<open>simp_all add: W_def\<close>)
  have y: "clamp h (mouse_y m - mouse_delta g v)
      = max 0 (min (mouse_y m - mouse_delta g v) (int (unat h) - 1))" for g v
  proof (rule clamp_range)
    show "c_int (mouse_y m - mouse_delta g v)"
      using m wh d [of g v] unfolding c_int_def by linarith
  qed (use wh in \<open>simp_all add: H_def\<close>)
  obtain bs where bs: "length bs = 3"
      "fold (mouse_handler_main w h) noise m = m\<lparr>mouse_bytes := bs\<rparr>"
    using noise_skipped [OF noise assms(2) len] by blast
  obtain u v t where "bs = [u, v, t]" using bs(1) by (auto simp: length_Suc_conv numeral_eq_Suc)
  then show ?thesis
    using assms(2) first x y bs(2) by (simp add: mouse_handler_main_def Let_def mouse_delta_eq)
qed

theorem packet_moves_cursor_witness:
  "fold (mouse_handler_main 1024 768) ([0x04] @ [0x19, 0xF6, 0x05]) mouse_start
     = mouse_start\<lparr>mouse_bytes := [0x19, 0xF6, 0x05], mouse_buttons := 1,
         mouse_x := 390, mouse_y := 295\<rparr>"
  using packet_moves_cursor [of 1024 768 mouse_start "[0x04]" "0x19" "0xF6" "0x05"]
  by (simp add: mouse_ok_def mouse_start_def)

end
