(* ===== verification/Vga.thy ===== *)
theory Vga
  imports Canvas Font Strings Mouse
begin

text \<open>
  The graphics driver, \<^verbatim>\<open>drivers/vga-graphics.c\<close>: all drawing goes to a back buffer and
  records the range of rows it touched; \<^verbatim>\<open>vga_flip\<close> copies those rows to the screen. The
  buffers are byte lists (an access outside is a fault), the globals keep their 32-bit unsigned
  types because C compares them with signed coordinates after conversion.
\<close>

section \<open>Model\<close>

record vga =
  backbuf :: "u8 list"
  fbmem :: "u8 list"
  scr_w :: u32
  scr_h :: u32
  scr_pitch :: u32
  scr_size :: u32
  dirty_min :: u32
  dirty_max :: u32

definition font_row :: u32 where "font_row = 8"
definition font_col :: u32 where "font_col = 8"
definition font_spacing :: u32 where "font_spacing = 9"

abbreviation u32_of :: "int \<Rightarrow> u32" where "u32_of \<equiv> word_of_int"

definition mark_dirty :: "int \<Rightarrow> int \<Rightarrow> vga \<Rightarrow> vga" where
  "mark_dirty y_top y_bottom v =
     (let y_top = (if y_top < 0 then 0 else y_top);
          y_bottom = (if y_bottom \<ge> sint (scr_h v) then sint (scr_h v - 1) else y_bottom);
          v = (if u32_of y_top < dirty_min v then v\<lparr>dirty_min := u32_of y_top\<rparr> else v)
      in if u32_of y_bottom > dirty_max v then v\<lparr>dirty_max := u32_of y_bottom\<rparr> else v)"

definition vga_put_pixel :: "int \<Rightarrow> int \<Rightarrow> u8 \<Rightarrow> vga \<Rightarrow> vga option" where
  "vga_put_pixel x y color v =
     (let v = mark_dirty y y v in
      if u32_of x \<ge> scr_w v \<or> x < 0 \<or> u32_of y \<ge> scr_h v \<or> y < 0 then Some v
      else let index = u32_of y * scr_pitch v + u32_of x in
        do { b \<leftarrow> put (backbuf v) (unat index) color; Some (v\<lparr>backbuf := b\<rparr>) })"

definition vga_clear_screen :: "u8 \<Rightarrow> vga \<Rightarrow> vga option" where
  "vga_clear_screen color v =
     (let v = mark_dirty 0 (sint (scr_h v - 1)) v in
      do { b \<leftarrow> memset (backbuf v) color (unat (scr_size v)); Some (v\<lparr>backbuf := b\<rparr>) })"

definition vga_draw_rect :: "int \<Rightarrow> int \<Rightarrow> int \<Rightarrow> int \<Rightarrow> u8 \<Rightarrow> vga \<Rightarrow> vga option" where
  "vga_draw_rect x y w h color v = fill_rect vga_put_pixel x y w h color (mark_dirty y (y + h - 1) v)"

definition vga_draw_rect_outline :: "int \<Rightarrow> int \<Rightarrow> int \<Rightarrow> int \<Rightarrow> u8 \<Rightarrow> u8 \<Rightarrow> vga \<Rightarrow> vga option" where
  "vga_draw_rect_outline x y w h outline_color color v =
     do {
       v \<leftarrow> vga_draw_rect x y w h outline_color v;
       vga_draw_rect (x + 1) (y + 1) (w - 2) (h - 2) color v
     }"

definition vga_draw_line :: "int \<Rightarrow> int \<Rightarrow> int \<Rightarrow> int \<Rightarrow> u8 \<Rightarrow> vga \<Rightarrow> vga option" where
  "vga_draw_line x0 y0 x1 y1 color v = draw_line vga_put_pixel x0 y0 x1 y1 color v"

text \<open>\<^verbatim>\<open>font8x8[c - 32]\<close> with a signed character: other characters read outside the font.\<close>

definition glyph_of :: "u8 \<Rightarrow> u8 list option" where
  "glyph_of c = (if sint c - 32 < 0 then None else get font8x8 (nat (sint c - 32)))"

definition vga_draw_char :: "int \<Rightarrow> int \<Rightarrow> u8 \<Rightarrow> u8 \<Rightarrow> vga \<Rightarrow> vga option" where
  "vga_draw_char x y c color v =
     (let v = mark_dirty y (sint (u32_of y + font_row)) v in
      do { glyph \<leftarrow> glyph_of c; draw_glyph vga_put_pixel glyph x y color v })"

definition vga_draw_string :: "int \<Rightarrow> int \<Rightarrow> u8 list \<Rightarrow> u8 \<Rightarrow> vga \<Rightarrow> vga option" where
  "vga_draw_string x y c color v =
     do {
       size \<leftarrow> strlen c;
       foldM (\<lambda>i v. do {
           ch \<leftarrow> get c i;
           vga_draw_char (sint (u32_of x + of_nat i * font_spacing)) y ch color v }) [0..<size] v
     }"

definition vga_flip :: "vga \<Rightarrow> vga option" where
  "vga_flip v =
     (if dirty_min v > dirty_max v then Some v
      else
        let offset = dirty_min v * scr_pitch v;
            size = (dirty_max v - dirty_min v + 1) * scr_pitch v
        in do {
          b \<leftarrow> memcpy (drop (unat offset) (fbmem v)) (drop (unat offset) (backbuf v)) (unat size);
          Some (v\<lparr>fbmem := take (unat offset) (fbmem v) @ b, dirty_min := scr_h v, dirty_max := 0\<rparr>)
        })"

definition vga_draw_cursor :: "cursor_type \<Rightarrow> int \<Rightarrow> int \<Rightarrow> u8 \<Rightarrow> vga \<Rightarrow> vga option" where
  "vga_draw_cursor cursor x y color v =
     (let (outline, fill) = (case cursor of CURSOR_POINTER \<Rightarrow> (pointer_outline, pointer_fill)
                                          | CURSOR_ARROW \<Rightarrow> (cursor_outline, cursor_fill));
          pair = (\<lambda>t row. push_bit 8 (ucast (t ! (row * 2)) :: u16) OR ucast (t ! (row * 2 + 1)))
      in foldM (\<lambda>row. foldM (\<lambda>col v. do {
             v \<leftarrow> (if pair outline row AND drop_bit col 0x8000 \<noteq> 0
                  then vga_put_pixel (x + int col) (y + int row) 0xF v else Some v);
             (if pair fill row AND drop_bit col 0x8000 \<noteq> 0
              then vga_put_pixel (x + int col) (y + int row) color v else Some v)
           }) [0..<16]) [0..<18] v)"

text \<open>One row of \<^verbatim>\<open>vga_blit\<close>: the clipping and the copy of the visible part.\<close>

definition blit_row :: "int \<Rightarrow> int \<Rightarrow> u32 \<Rightarrow> u8 list \<Rightarrow> nat \<Rightarrow> vga \<Rightarrow> vga option" where
  "blit_row x y width buffer row v =
     (let dest_y = y + int row in
      if dest_y < 0 \<or> dest_y \<ge> sint (scr_h v) then Some v
      else
        let (src_x, dst_x, copy_width) = (0, x, sint width);
            (src_x, copy_width, dst_x) = (if dst_x < 0 then (- dst_x, copy_width + dst_x, 0) else (src_x, copy_width, dst_x));
            copy_width = (if dst_x + copy_width > sint (scr_w v) then sint (scr_w v) - dst_x else copy_width)
        in if copy_width \<le> 0 then Some v
           else
             let d = unat (u32_of dest_y * scr_pitch v + u32_of dst_x);
                 s = unat (of_nat row * width + u32_of src_x)
             in do {
               b \<leftarrow> memcpy (drop d (backbuf v)) (drop s buffer) (nat copy_width);
               Some (v\<lparr>backbuf := take d (backbuf v) @ b\<rparr>)
             })"

definition vga_blit :: "int \<Rightarrow> int \<Rightarrow> u32 \<Rightarrow> u32 \<Rightarrow> u8 list \<Rightarrow> vga \<Rightarrow> vga option" where
  "vga_blit x y width height buffer v =
     (let v = mark_dirty y (sint (u32_of y + height - 1)) v in
      foldM (blit_row x y width buffer) [0..<unat height] v)"

text \<open>\<^verbatim>\<open>init_vga\<close> takes the mode from the boot loader's mode information block.\<close>

definition init_vga :: "u16 \<Rightarrow> u16 \<Rightarrow> u16 \<Rightarrow> u8 list \<Rightarrow> vga" where
  "init_vga w h pitch mem =
     \<lparr>backbuf = replicate (unat (ucast pitch * ucast h :: u32)) 0, fbmem = mem, scr_w = ucast w, scr_h = ucast h,
      scr_pitch = ucast pitch, scr_size = ucast pitch * ucast h, dirty_min = ucast h, dirty_max = 0\<rparr>"

section \<open>The screen as a canvas\<close>

definition vga_ok :: "vga \<Rightarrow> bool" where
  "vga_ok v \<longleftrightarrow> unat (scr_w v) \<le> unat (scr_pitch v) \<and> unat (scr_pitch v) < 2 ^ 16 \<and> unat (scr_h v) < 2 ^ 15
     \<and> unat (scr_size v) = unat (scr_pitch v) * unat (scr_h v)
     \<and> length (backbuf v) = unat (scr_size v) \<and> length (fbmem v) = unat (scr_size v)"

definition vga_inside :: "vga \<Rightarrow> int \<Rightarrow> int \<Rightarrow> bool" where
  "vga_inside v a b \<longleftrightarrow> 0 \<le> a \<and> nat a < unat (scr_w v) \<and> 0 \<le> b \<and> nat b < unat (scr_h v)"

definition pixel :: "vga \<Rightarrow> int \<Rightarrow> int \<Rightarrow> u8" where
  "pixel v a b = backbuf v ! (nat b * unat (scr_pitch v) + nat a)"

lemma mark_dirty_rest [simp]:
  "backbuf (mark_dirty a b v) = backbuf v" "fbmem (mark_dirty a b v) = fbmem v"
  "scr_w (mark_dirty a b v) = scr_w v" "scr_h (mark_dirty a b v) = scr_h v"
  "scr_pitch (mark_dirty a b v) = scr_pitch v" "scr_size (mark_dirty a b v) = scr_size v"
  by (simp_all add: mark_dirty_def Let_def)

lemma vga_ok_mark_dirty [simp]: "vga_ok (mark_dirty a b v) = vga_ok v"
  by (simp add: vga_ok_def)

lemma inside_mark_dirty [simp]: "vga_inside (mark_dirty a b v) = vga_inside v"
  by (intro ext) (simp add: vga_inside_def)

lemma pixel_mark_dirty [simp]: "pixel (mark_dirty a b v) = pixel v"
  by (intro ext) (simp add: pixel_def)

lemma pixel_index_inj:
  fixes p :: nat
  assumes "a < p" "c < p"
  shows "b * p + a = d * p + c \<longleftrightarrow> a = c \<and> b = d"
proof
  assume eq: "b * p + a = d * p + c"
  have "(b * p + a) mod p = a" "(d * p + c) mod p = c" using assms by simp_all
  then have ac: "a = c" using eq by metis
  then have "b * p = d * p" using eq by simp
  then show "a = c \<and> b = d" using ac assms by auto
qed simp

lemma pixel_index_bound:
  fixes p :: nat
  assumes "a < p" "b < h"
  shows "b * p + a < p * h"
proof -
  have "b * p + a < Suc b * p" using assms(1) by simp
  also have "\<dots> \<le> h * p" using assms(2) by (intro mult_le_mono1) simp
  finally show ?thesis by (simp add: mult.commute)
qed

lemma pixel_offset:
  assumes "vga_ok v" "vga_inside v x y"
  shows "unat (u32_of y * scr_pitch v + u32_of x) = nat y * unat (scr_pitch v) + nat x"
    and "nat y * unat (scr_pitch v) + nat x < length (backbuf v)"
proof -
  have x: "nat x < unat (scr_pitch v)" and y: "nat y < unat (scr_h v)"
    using assms by (auto simp: vga_ok_def vga_inside_def)
  from pixel_index_bound [OF x y] show lt: "nat y * unat (scr_pitch v) + nat x < length (backbuf v)"
    using assms(1) by (simp add: vga_ok_def)
  then have lt32: "nat y * unat (scr_pitch v) + nat x < 2 ^ 32"
    using assms(1) unat_lt32 [of "scr_size v"] by (simp add: vga_ok_def)
  have ux: "unat (u32_of x) = nat x" and uy: "unat (u32_of y) = nat y"
    using assms unat_lt32 [of "scr_w v"] unat_lt32 [of "scr_h v"]
    by (auto simp: vga_inside_def intro!: unat_u32_of)
  have "unat (u32_of y * scr_pitch v) = nat y * unat (scr_pitch v)"
    using lt32 uy by (simp add: unat_times32)
  then show "unat (u32_of y * scr_pitch v + u32_of x) = nat y * unat (scr_pitch v) + nat x"
    using lt32 ux by (simp add: unat_plus32)
qed

lemma visible_iff:
  assumes "c_int x" "c_int y"
  shows "u32_of x \<ge> scr_w v \<or> x < 0 \<or> u32_of y \<ge> scr_h v \<or> y < 0 \<longleftrightarrow> \<not> vga_inside v x y"
proof (cases "0 \<le> x \<and> 0 \<le> y")
  case True
  then show ?thesis using assms by (auto simp: vga_inside_def word_le_nat_alt unat_u32_of c_int_def)
qed (auto simp: vga_inside_def)

lemma vga_ok_back:
  "length b = length (backbuf v) \<Longrightarrow> vga_ok (v\<lparr>backbuf := b\<rparr>) = vga_ok v"
  by (simp add: vga_ok_def)

lemma pixel_update:
  assumes ok: "vga_ok v" and "vga_inside v x y" "vga_inside v a b"
  shows "pixel (v\<lparr>backbuf := (backbuf v)[nat y * unat (scr_pitch v) + nat x := c]\<rparr>) a b
     = (if (a, b) = (x, y) then c else pixel v a b)"
proof -
  have "nat a < unat (scr_pitch v)" "nat x < unat (scr_pitch v)"
    using assms by (auto simp: vga_ok_def vga_inside_def)
  then have "nat b * unat (scr_pitch v) + nat a = nat y * unat (scr_pitch v) + nat x \<longleftrightarrow> (a, b) = (x, y)"
    using pixel_index_inj assms(2,3) by (simp add: vga_inside_def nat_eq_iff)
  then show ?thesis using pixel_offset(2) [OF ok assms(2)] by (auto simp: pixel_def nth_list_update)
qed

interpretation vc: canvas vga_put_pixel vga_ok vga_inside pixel
proof unfold_locales
  fix v x y c
  assume ok: "vga_ok v" and c: "c_int x" "c_int y"
  let ?v = "mark_dirty y y v"
  show "\<exists>s'. vga_put_pixel x y c v = Some s' \<and> vga_ok s' \<and> vga_inside s' = vga_inside v
     \<and> (\<forall>a b. vga_inside v a b \<longrightarrow> pixel s' a b = (if (a, b) = (x, y) then c else pixel v a b))"
  proof (cases "vga_inside v x y")
    case False
    then have "vga_put_pixel x y c v = Some ?v"
      using visible_iff [OF c, of v] by (simp add: vga_put_pixel_def Let_def)
    then show ?thesis using ok False by auto
  next
    case True
    let ?i = "nat y * unat (scr_pitch v) + nat x"
    let ?v' = "?v\<lparr>backbuf := (backbuf ?v)[nat y * unat (scr_pitch ?v) + nat x := c]\<rparr>"
    have "vga_put_pixel x y c v = Some ?v'"
      using visible_iff [OF c, of v] True pixel_offset [OF ok True]
      by (simp add: vga_put_pixel_def Let_def put_def)
    moreover have "vga_ok ?v'" using ok by (simp add: vga_ok_back del: mark_dirty_rest)
    moreover have "vga_inside ?v' = vga_inside v" by (intro ext) (simp add: vga_inside_def)
    moreover have "pixel ?v' a b = (if (a, b) = (x, y) then c else pixel v a b)" if "vga_inside v a b" for a b
      using pixel_update [of ?v x y a b c] ok True that by simp
    ultimately show ?thesis by blast
  qed
qed

lemma painted_mark_dirty: "vc.painted P c (mark_dirty a b v) v' = vc.painted P c v v'"
  by (simp add: vc.painted_def)

text \<open>\<^verbatim>\<open>vga_draw_rect\<close> sets exactly the visible pixels of the rectangle and
  leaves every other visible pixel, wherever the rectangle lies.\<close>

theorem vga_draw_rect_paints:
  assumes "vga_ok v" "c_int x" "c_int y" "c_int (x + w)" "c_int (y + h)"
  shows "\<exists>v'. vga_draw_rect x y w h c v = Some v' \<and> vga_ok v'
     \<and> (\<forall>a b. vga_inside v a b \<longrightarrow> pixel v' a b
          = (if x \<le> a \<and> a < x + w \<and> y \<le> b \<and> b < y + h then c else pixel v a b))"
proof -
  have "vga_ok (mark_dirty y (y + h - 1) v)" using assms(1) by simp
  from vc.fill_rect_paints [OF this assms(2-5), of c] show ?thesis
    unfolding vga_draw_rect_def by (auto simp: vc.painted_def)
qed

definition tiny_screen :: vga where
  "tiny_screen = \<lparr>backbuf = [0, 0, 0, 0, 0, 0, 0, 0], fbmem = [0, 0, 0, 0, 0, 0, 0, 0],
     scr_w = 4, scr_h = 2, scr_pitch = 4, scr_size = 8, dirty_min = 2, dirty_max = 0\<rparr>"

lemma tiny_screen_ok: "vga_ok tiny_screen"
  by (simp add: vga_ok_def tiny_screen_def)

theorem vga_draw_rect_paints_witness:
  "\<exists>v'. vga_draw_rect 1 (- 5) 2 6 7 tiny_screen = Some v' \<and> pixel v' 1 0 = 7 \<and> pixel v' 1 1 = 0"
proof -
  have "vga_inside tiny_screen 1 0" "vga_inside tiny_screen 1 1"
    by (simp_all add: vga_inside_def tiny_screen_def)
  moreover have "pixel tiny_screen 1 1 = 0" by (simp add: pixel_def tiny_screen_def)
  ultimately show ?thesis
    using vga_draw_rect_paints [OF tiny_screen_ok, of 1 "- 5" 2 6 7] by (auto simp: c_int_def)
qed

text \<open>\<^verbatim>\<open>vga_draw_line\<close> terminates for all end points, sets both of them and
  changes nothing outside the box they span.\<close>

theorem vga_draw_line_ends:
  assumes "vga_ok v" "c_int x0" "c_int y0" "c_int x1" "c_int y1"
  shows "\<exists>v'. vga_draw_line x0 y0 x1 y1 c v = Some v' \<and> vga_ok v'
     \<and> (vga_inside v x0 y0 \<longrightarrow> pixel v' x0 y0 = c) \<and> (vga_inside v x1 y1 \<longrightarrow> pixel v' x1 y1 = c)
     \<and> (\<forall>a b. vga_inside v a b \<and> (a, b) \<notin> box x0 y0 x1 y1 \<longrightarrow> pixel v' a b = pixel v a b)"
proof -
  obtain v' P where "draw_line vga_put_pixel x0 y0 x1 y1 c v = Some v'" "vc.painted P c v v'"
      "(x0, y0) \<in> P" "(x1, y1) \<in> P" "P \<subseteq> box x0 y0 x1 y1"
    using vc.draw_line_paints [OF assms, of c] by blast
  then show ?thesis unfolding vga_draw_line_def by (auto simp: vc.painted_def)
qed

theorem vga_draw_line_ends_witness:
  "\<exists>v'. vga_draw_line 0 0 3 1 9 tiny_screen = Some v' \<and> pixel v' 0 0 = 9 \<and> pixel v' 3 1 = 9"
proof -
  have "vga_inside tiny_screen 0 0" "vga_inside tiny_screen 3 1"
    by (simp_all add: vga_inside_def tiny_screen_def)
  then show ?thesis
    using vga_draw_line_ends [OF tiny_screen_ok, of 0 0 3 1 9] by (auto simp: c_int_def)
qed

text \<open>Glyphs: the printable ASCII characters have one, the other characters read outside the font.\<close>

lemma glyph_of_printable:
  assumes "32 \<le> unat c" "unat c < 127"
  obtains g where "glyph_of c = Some g" "length g = 8" "g = font8x8 ! (unat c - 32)"
proof -
  have c: "sint c = int (unat c)" using assms(2) by (intro sint_char) simp
  have i: "\<not> sint c - 32 < 0" "nat (sint c - 32) = unat c - 32" unfolding c using assms(1) by linarith+
  have "font8x8 ! (unat c - 32) \<in> set font8x8" using assms by (intro nth_mem) simp
  moreover have "glyph_of c = Some (font8x8 ! (unat c - 32))"
    unfolding glyph_of_def i using i(1) assms by (simp add: get_def)
  ultimately show ?thesis using that font8x8_rows by blast
qed

section \<open>The dirty rows\<close>

text \<open>Rows outside the recorded range show what the back buffer holds.\<close>

definition synced :: "vga \<Rightarrow> bool" where
  "synced v \<longleftrightarrow> (\<forall>i<length (backbuf v). i div unat (scr_pitch v) < unat (dirty_min v)
     \<or> unat (dirty_max v) < i div unat (scr_pitch v) \<longrightarrow> fbmem v ! i = backbuf v ! i)"

definition frame_ok :: "vga \<Rightarrow> bool" where
  "frame_ok v \<longleftrightarrow> vga_ok v \<and> synced v \<and> dirty_max v < scr_h v"

lemma flip_copies:
  assumes "frame_ok v"
  shows "\<exists>v'. vga_flip v = Some v' \<and> fbmem v' = backbuf v \<and> backbuf v' = backbuf v \<and> frame_ok v'"
proof -
  let ?p = "unat (scr_pitch v)" and ?a = "unat (dirty_min v)" and ?b = "unat (dirty_max v)"
  have len: "length (backbuf v) = ?p * unat (scr_h v)" "length (fbmem v) = ?p * unat (scr_h v)"
    and p16: "?p < 2 ^ 16" and h15: "unat (scr_h v) < 2 ^ 15"
    using assms by (auto simp: frame_ok_def vga_ok_def)
  have b: "?b < unat (scr_h v)" using assms by (simp add: frame_ok_def word_less_nat_alt)
  have sy: "i div ?p < ?a \<or> ?b < i div ?p \<Longrightarrow> fbmem v ! i = backbuf v ! i" if "i < length (backbuf v)" for i
    using assms that unfolding frame_ok_def synced_def by blast
  show ?thesis
  proof (cases "dirty_min v > dirty_max v")
    case True
    then have "i div ?p < ?a \<or> ?b < i div ?p" for i by (auto simp: word_less_nat_alt)
    then have "fbmem v = backbuf v" using sy len by (intro nth_equalityI) auto
    then show ?thesis using True assms by (simp add: vga_flip_def)
  next
    case False
    then have ab: "?a \<le> ?b" by (simp add: not_less word_le_nat_alt)
    have d: "unat (dirty_max v - dirty_min v + 1) = ?b - ?a + 1"
      using ab unat_lt32 [of "dirty_max v"] b h15
      by (subst unat_plus32) (simp_all add: unat_minus32 word_le_nat_alt)
    have total: "?a * ?p + (?b - ?a + 1) * ?p \<le> ?p * unat (scr_h v)"
    proof -
      have "?a * ?p + (?b - ?a + 1) * ?p = Suc ?b * ?p" using ab by (simp add: add_mult_distrib [symmetric])
      also have "\<dots> \<le> unat (scr_h v) * ?p" using b by (intro mult_le_mono1) simp
      finally show ?thesis by (simp add: mult.commute)
    qed
    have "?p * unat (scr_h v) \<le> 2 ^ 16 * 2 ^ 15" using p16 h15 by (intro mult_mono) auto
    then have lt: "?p * unat (scr_h v) < 2 ^ 32" by simp
    have off: "unat (dirty_min v * scr_pitch v) = ?a * ?p"
      using total lt by (intro unat_times32) simp
    have size: "unat ((dirty_max v - dirty_min v + 1) * scr_pitch v) = (?b - ?a + 1) * ?p"
      using total lt d unat_times32 [of "dirty_max v - dirty_min v + 1" "scr_pitch v"] by simp
    let ?off = "?a * ?p" and ?size = "(?b - ?a + 1) * ?p"
    let ?new = "take ?off (fbmem v) @ take ?size (drop ?off (backbuf v)) @ drop (?off + ?size) (fbmem v)"
    have fl: "vga_flip v = Some (v\<lparr>fbmem := ?new, dirty_min := scr_h v, dirty_max := 0\<rparr>)"
    proof -
      have c: "?size \<le> length (drop ?off (fbmem v)) \<and> ?size \<le> length (drop ?off (backbuf v))"
        using total len by simp
      show ?thesis
        unfolding vga_flip_def Let_def off size memcpy_copies using False c
        by (simp add: ac_simps)
    qed
    have "?new = backbuf v"
    proof (rule nth_equalityI)
      show "length ?new = length (backbuf v)" using total len by simp
      fix i assume "i < length ?new"
      then have i: "i < length (backbuf v)" using total len by simp
      have p0: "0 < ?p" using i len by (cases "?p") auto
      let ?mid = "take ?size (drop ?off (backbuf v))"
      have lm: "length ?mid = ?size" using total len by simp
      have "?new ! i = (if ?off \<le> i \<and> i < ?off + ?size then ?mid ! (i - ?off) else fbmem v ! i)"
        using nth_splice [of ?off ?mid "fbmem v" i] total len i unfolding lm by simp
      also have "\<dots> = backbuf v ! i"
      proof (cases "?off \<le> i \<and> i < ?off + ?size")
        case True
        then have "i - ?off < ?size" by linarith
        then have "?mid ! (i - ?off) = backbuf v ! i" unfolding nth_take using True i by simp
        then show ?thesis using True by simp
      next
        case False
        have "?off + ?size = Suc ?b * ?p" using ab by (simp add: add_mult_distrib [symmetric])
        then have "i div ?p < ?a \<or> Suc ?b \<le> i div ?p"
          using False p0 by (auto simp: less_mult_imp_div_less less_eq_div_iff_mult_less_eq)
        then have "fbmem v ! i = backbuf v ! i" using sy [OF i] by auto
        then show ?thesis using False by auto
      qed
      finally show "?new ! i = backbuf v ! i" .
    qed
    then show ?thesis using fl assms b by (auto simp: frame_ok_def vga_ok_def synced_def word_less_nat_alt)
  qed
qed

lemma mark_dirty_range:
  assumes "0 \<le> a" "a \<le> b" "c_int b" "0 < unat (scr_h v)" "unat (scr_h v) < 2 ^ 15"
  shows "unat (dirty_min (mark_dirty a b v)) = min (unat (dirty_min v)) (nat a)"
    and "unat (dirty_max (mark_dirty a b v)) = max (unat (dirty_max v)) (min (nat b) (unat (scr_h v) - 1))"
proof -
  define H where "H = unat (scr_h v)"
  have H: "0 < H" "H < 2 ^ 15" using assms(4,5) by (simp_all add: H_def)
  have h: "sint (scr_h v) = int H" using H by (simp add: sint_small H_def)
  have "unat (scr_h v - 1) = H - 1"
    unfolding H_def using assms(4) by (subst unat_minus32) (auto simp: word_le_nat_alt)
  then have h1: "sint (scr_h v - 1) = int (H - 1)" using H by (subst sint_small) simp_all
  define q where "q = (if b \<ge> int H then int (H - 1) else b)"
  have q: "0 \<le> q" "q < 2 ^ 32" "nat q = min (nat b) (H - 1)"
    using assms(1-3) H by (auto simp: q_def c_int_def)
  have a: "unat (u32_of a) = nat a" using assms(1-3) by (intro unat_u32_of) (auto simp: c_int_def)
  have uq: "unat (u32_of q) = nat q" by (rule unat_u32_of [OF q(1,2)])
  have md: "mark_dirty a b v =
     (let v = (if u32_of a < dirty_min v then v\<lparr>dirty_min := u32_of a\<rparr> else v)
      in if u32_of q > dirty_max v then v\<lparr>dirty_max := u32_of q\<rparr> else v)"
    using assms(1) unfolding mark_dirty_def h h1 q_def by (simp add: Let_def)
  show "unat (dirty_min (mark_dirty a b v)) = min (unat (dirty_min v)) (nat a)"
    unfolding md by (auto simp: Let_def word_less_nat_alt a min_def)
  show "unat (dirty_max (mark_dirty a b v)) = max (unat (dirty_max v)) (min (nat b) (unat (scr_h v) - 1))"
    unfolding md H_def [symmetric] q(3) [symmetric] by (auto simp: Let_def word_less_nat_alt uq max_def)
qed

lemma frame_ok_mark_dirty:
  assumes "frame_ok v" "0 \<le> a" "a \<le> b" "c_int b"
  shows "frame_ok (mark_dirty a b v)"
proof -
  have h: "0 < unat (scr_h v)" "unat (scr_h v) < 2 ^ 15" "unat (dirty_max v) < unat (scr_h v)"
    using assms(1) by (auto simp: frame_ok_def vga_ok_def word_less_nat_alt)
  show ?thesis
    using assms h mark_dirty_range [OF assms(2-4) h(1,2)]
      le_less_trans [OF min.cobounded2 diff_less [OF zero_less_one h(1)], of "nat b"]
    unfolding frame_ok_def synced_def by (auto simp: word_less_nat_alt)
qed

lemma put_pixel_keeps_frame [inv_kept]:
  assumes ok: "frame_ok v" and y: "0 \<le> y" and c: "c_int x" "c_int y"
    and put: "vga_put_pixel x y col v = Some v'"
  shows "frame_ok v'"
proof -
  let ?v = "mark_dirty y y v"
  have fr: "frame_ok ?v" by (rule frame_ok_mark_dirty [OF ok y order_refl c(2)])
  have vok: "vga_ok v" and h: "0 < unat (scr_h v)" "unat (scr_h v) < 2 ^ 15"
    using ok by (auto simp: frame_ok_def vga_ok_def word_less_nat_alt)
  note rng = mark_dirty_range [OF y order_refl c(2) h]
  show ?thesis
  proof (cases "vga_inside v x y")
    case False
    then have "v' = ?v" using visible_iff [OF c, of v] put by (simp add: vga_put_pixel_def Let_def)
    then show ?thesis using fr by simp
  next
    case True
    let ?i = "nat y * unat (scr_pitch v) + nat x"
    have v': "v' = ?v\<lparr>backbuf := (backbuf ?v)[?i := col]\<rparr>"
      using visible_iff [OF c, of v] True pixel_offset [OF vok True] put
      by (simp add: vga_put_pixel_def Let_def put_def)
    have "nat x < unat (scr_pitch v)" "nat y < unat (scr_h v)"
      using True vok by (auto simp: vga_inside_def vga_ok_def)
    then have row: "?i div unat (scr_pitch v) = nat y" by simp
    have "min (nat y) (unat (scr_h v) - 1) = nat y" using \<open>nat y < unat (scr_h v)\<close> by simp
    then have "\<not> (nat y < unat (dirty_min ?v) \<or> unat (dirty_max ?v) < nat y)"
      unfolding rng by auto
    then have "(backbuf v)[?i := col] ! i = backbuf v ! i"
      if "i div unat (scr_pitch v) < unat (dirty_min ?v) \<or> unat (dirty_max ?v) < i div unat (scr_pitch v)" for i
      using that row by (metis nth_list_update_neq)
    then have "synced v'"
      using fr unfolding v' frame_ok_def synced_def by (simp add: disj_imp)
    then show ?thesis using fr vok unfolding v' frame_ok_def by (simp add: vga_ok_back)
  qed
qed

lemma clear_keeps_frame [inv_kept]:
  assumes ok: "frame_ok v" and cl: "vga_clear_screen col v = Some v'"
  shows "frame_ok v'"
proof -
  have h: "0 < unat (scr_h v)" "unat (scr_h v) < 2 ^ 15"
    using ok by (auto simp: frame_ok_def vga_ok_def word_less_nat_alt)
  have "unat (scr_h v - 1) = unat (scr_h v) - 1"
    using h(1) by (subst unat_minus32) (auto simp: word_le_nat_alt)
  then have b: "sint (scr_h v - 1) = int (unat (scr_h v) - 1)" using h(2) by (subst sint_small) simp_all
  have c: "0 \<le> int (unat (scr_h v) - 1)" "c_int (int (unat (scr_h v) - 1))"
  proof -
    have "unat (scr_h v) < 32768" using h(2) by simp
    then have "int (unat (scr_h v) - 1) < 32768" by linarith
    then show "0 \<le> int (unat (scr_h v) - 1)" "c_int (int (unat (scr_h v) - 1))"
      unfolding c_int_def by linarith+
  qed
  let ?v = "mark_dirty 0 (int (unat (scr_h v) - 1)) v"
  have fr: "frame_ok ?v" by (rule frame_ok_mark_dirty [OF ok order_refl c])
  note rng = mark_dirty_range [OF order_refl c h]
  have len: "length (backbuf v) = unat (scr_size v)" "unat (scr_size v) = unat (scr_pitch v) * unat (scr_h v)"
    using ok by (simp_all add: frame_ok_def vga_ok_def)
  have v': "v' = ?v\<lparr>backbuf := replicate (length (backbuf v)) col\<rparr>"
    using cl len by (simp add: vga_clear_screen_def Let_def b memset_spec)
  have "i div unat (scr_pitch v) \<le> unat (scr_h v) - 1" if "i < length (backbuf v)" for i
  proof -
    have "i div unat (scr_pitch v) < unat (scr_h v)"
      using that unfolding len by (simp add: less_mult_imp_div_less mult.commute)
    then show ?thesis by simp
  qed
  then have "synced v'" unfolding v' synced_def using rng by (auto simp: not_less [symmetric])
  then show ?thesis using fr unfolding v' frame_ok_def by (simp add: vga_ok_back)
qed

text \<open>
  Between two flips the drivers put pixels on rows that are not negative, or clear the screen.
\<close>

inductive vga_step :: "vga \<Rightarrow> vga \<Rightarrow> bool" where
  step_put: "0 \<le> y \<Longrightarrow> c_int x \<Longrightarrow> c_int y \<Longrightarrow> vga_put_pixel x y col v = Some v' \<Longrightarrow> vga_step v v'"
| step_clear: "vga_clear_screen col v = Some v' \<Longrightarrow> vga_step v v'"
| step_flip: "vga_flip v = Some v' \<Longrightarrow> vga_step v v'"

inductive_cases vga_stepE: "vga_step v v'"

definition vga_start :: "vga \<Rightarrow> bool" where
  "vga_start v \<longleftrightarrow> vga_ok v \<and> fbmem v = backbuf v \<and> dirty_max v < scr_h v"

interpretation screen: invariant_system vga_start vga_step frame_ok
proof unfold_locales
  fix v v'
  assume "frame_ok v" "vga_step v v'"
  then show "frame_ok v'"
    by (auto elim!: vga_stepE intro: inv_kept dest: flip_copies)
qed (auto simp: vga_start_def frame_ok_def synced_def)



text \<open>a pixel above the screen (a window dragged over the upper edge draws some) is
  not ignored: it stores \<open>-1\<close> as the last dirty row, the number of bytes to copy overflows to
  0, and the next flip shows nothing of what was drawn.\<close>

theorem negative_row_freezes_screen:
  "\<exists>v1 v2 v3. vga_put_pixel 0 0 5 tiny_screen = Some v1 \<and> vga_put_pixel 0 (- 1) 5 v1 = Some v2
     \<and> vga_flip v2 = Some v3 \<and> backbuf v3 ! 0 = 5 \<and> fbmem v3 = [0, 0, 0, 0, 0, 0, 0, 0]"
proof -
  let ?v1 = "tiny_screen\<lparr>backbuf := [5, 0, 0, 0, 0, 0, 0, 0], dirty_min := 0\<rparr>"
  let ?v2 = "?v1\<lparr>dirty_max := - 1\<rparr>"
  have "vga_put_pixel 0 0 5 tiny_screen = Some ?v1"
    by (simp add: vga_put_pixel_def tiny_screen_def put_def mark_dirty_def Let_def word_less_nat_alt)
  moreover have "vga_put_pixel 0 (- 1) 5 ?v1 = Some ?v2"
    by (simp add: vga_put_pixel_def tiny_screen_def put_def mark_dirty_def Let_def word_neq_0_conv [symmetric])
  moreover have "vga_flip ?v2 = Some (?v2\<lparr>dirty_min := 2, dirty_max := 0\<rparr>)"
    by (simp add: vga_flip_def memcpy_copies tiny_screen_def)
  ultimately show ?thesis by (simp add: tiny_screen_def)
qed

section \<open>Copying a window to the screen\<close>

lemma row_range:
  fixes p :: nat
  assumes "a < p" "c + n \<le> p"
  shows "d * p + c \<le> b * p + a \<and> b * p + a < d * p + c + n \<longleftrightarrow> b = d \<and> c \<le> a \<and> a < c + n"
proof (cases "b = d")
  case False
  then consider "Suc b \<le> d" | "Suc d \<le> b" by linarith
  then show ?thesis
  proof cases
    case 1
    then have "Suc b * p \<le> d * p" by (rule mult_le_mono1)
    then show ?thesis using False assms by auto
  next
    case 2
    then have "Suc d * p \<le> b * p" by (rule mult_le_mono1)
    then show ?thesis using False assms by auto
  qed
qed auto

definition blit_value :: "int \<Rightarrow> int \<Rightarrow> u32 \<Rightarrow> u8 list \<Rightarrow> int \<Rightarrow> int \<Rightarrow> u8" where
  "blit_value x y width buffer a b = buffer ! (nat (b - y) * unat width + nat (a - x))"

lemma spliced_row_pixel:
  assumes ok: "vga_ok v" and ins: "vga_inside v dx dy"
    and fits: "nat dx + length z \<le> unat (scr_w v)"
    and d: "d = nat dy * unat (scr_pitch v) + nat dx"
    and bs: "bs = take d (backbuf v) @ z @ drop (d + length z) (backbuf v)"
  shows "d + length z \<le> length (backbuf v)"
    and "length bs = length (backbuf v)"
    and "vga_inside v a b \<Longrightarrow> pixel (v\<lparr>backbuf := bs\<rparr>) a b =
          (if b = dy \<and> dx \<le> a \<and> a < dx + int (length z) then z ! nat (a - dx) else pixel v a b)"
proof -
  define P where "P = unat (scr_pitch v)"
  have dims: "unat (scr_w v) \<le> P" "length (backbuf v) = P * unat (scr_h v)"
    using ok by (simp_all add: vga_ok_def P_def)
  have dxy: "0 \<le> dx" "0 \<le> dy" "nat dy < unat (scr_h v)" using ins by (simp_all add: vga_inside_def)
  have in_row: "nat dx + length z \<le> P" using fits dims by linarith
  have "d + length z \<le> Suc (nat dy) * P" using in_row d by (simp add: P_def)
  also have "\<dots> \<le> unat (scr_h v) * P" using dxy by (intro mult_le_mono1) linarith
  finally show room: "d + length z \<le> length (backbuf v)" using dims by (simp add: mult.commute)
  then show "length bs = length (backbuf v)" using bs by simp
  assume i: "vga_inside v a b"
  then have ab: "0 \<le> a" "nat a < P" "0 \<le> b" using dims by (simp_all add: vga_inside_def)
  let ?i = "nat b * P + nat a"
  have il: "?i < length (backbuf v)" using pixel_offset(2) [OF ok i] by (simp add: P_def)
  have rng: "d \<le> ?i \<and> ?i < d + length z \<longleftrightarrow> b = dy \<and> dx \<le> a \<and> a < dx + int (length z)"
    using row_range [OF ab(2) in_row, of "nat dy" "nat b"] ab(1,3) dxy(1,2) d
    by (auto simp: P_def nat_less_iff)
  have "pixel (v\<lparr>backbuf := bs\<rparr>) a b = (if d \<le> ?i \<and> ?i < d + length z then z ! (?i - d) else backbuf v ! ?i)"
    using nth_splice [of d z "backbuf v" ?i] room il by (simp add: pixel_def P_def bs)
  moreover have "?i - d = nat (a - dx)" if "b = dy" "dx \<le> a"
    using that d dxy(1) by (simp add: P_def nat_diff_distrib)
  ultimately show "pixel (v\<lparr>backbuf := bs\<rparr>) a b =
      (if b = dy \<and> dx \<le> a \<and> a < dx + int (length z) then z ! nat (a - dx) else pixel v a b)"
    unfolding rng by (simp add: pixel_def P_def)
qed

lemma blit_source_offset:
  assumes row: "row < h" and w: "unat width < 2 ^ 15" and h: "h < 2 ^ 15"
    and sx: "0 \<le> sx" "c_int sx" "nat sx + n \<le> unat width"
  shows "unat (of_nat row * width + u32_of sx :: u32) = row * unat width + nat sx"
    and "row * unat width + nat sx + n \<le> unat width * h"
proof -
  have rw: "row * unat width + unat width \<le> h * unat width"
    using row mult_le_mono1 [of "Suc row" h "unat width"] by simp
  then show "row * unat width + nat sx + n \<le> unat width * h" using sx by (simp add: mult.commute)
  have "h * unat width \<le> 2 ^ 15 * 2 ^ 15" using w h by (intro mult_mono) auto
  then have small: "row * unat width + unat width < 2 ^ 32" using rw by simp
  have "unat (of_nat row :: u32) = row" using row h by simp
  then have m: "unat (of_nat row * width) = row * unat width" using small by (simp add: unat_times32)
  have "unat (u32_of sx) = nat sx" using sx by (intro unat_u32_of) (auto simp: c_int_def)
  then show "unat (of_nat row * width + u32_of sx :: u32) = row * unat width + nat sx"
    using small sx m by (simp add: unat_plus32)
qed

lemma blit_row_copies:
  assumes ok: "vga_ok v" and ins: "vga_inside v dx (y + int row)"
    and sx: "0 \<le> sx" "c_int sx" "dx - sx = x" "sx + cw \<le> int (unat width)"
    and cw: "0 < cw" "dx + cw \<le> int (unat (scr_w v))"
    and row: "row < h" and w: "unat width < 2 ^ 15" and h: "h < 2 ^ 15"
    and buf: "unat width * h \<le> length buffer"
  obtains z v' where "memcpy (drop (unat (u32_of (y + int row) * scr_pitch v + u32_of dx)) (backbuf v))
        (drop (unat (of_nat row * width + u32_of sx)) buffer) (nat cw) = Some z"
    and "v\<lparr>backbuf := take (unat (u32_of (y + int row) * scr_pitch v + u32_of dx)) (backbuf v) @ z\<rparr> = v'"
    and "vga_ok v'" and "vga_inside v' = vga_inside v"
    and "\<And>a b. vga_inside v a b \<Longrightarrow> pixel v' a b =
          (if dx \<le> a \<and> a < dx + cw \<and> b = y + int row then blit_value x y width buffer a b else pixel v a b)"
proof -
  let ?dy = "y + int row"
  let ?d = "nat ?dy * unat (scr_pitch v) + nat dx" and ?s = "row * unat width + nat sx"
  let ?z = "take (nat cw) (drop ?s buffer)"
  let ?b = "take ?d (backbuf v) @ ?z @ drop (?d + nat cw) (backbuf v)"
  have dx: "0 \<le> dx" using ins by (simp add: vga_inside_def)
  have n: "nat sx + nat cw \<le> unat width" using sx cw by linarith
  note s = blit_source_offset [OF row w h sx(1,2) n]
  have lz: "length ?z = nat cw" using s(2) buf by simp
  have "nat dx + nat cw \<le> unat (scr_w v)" using cw dx by linarith
  note sp = spliced_row_pixel [OF ok ins, of ?z ?d ?b, unfolded lz, OF this refl refl]
  have d: "unat (u32_of ?dy * scr_pitch v + u32_of dx) = ?d" by (rule pixel_offset(1) [OF ok ins])
  have "nat cw \<le> length (drop ?d (backbuf v)) \<and> nat cw \<le> length (drop ?s buffer)"
    unfolding length_drop using sp(1) s(2) buf by linarith
  then have m: "memcpy (drop ?d (backbuf v)) (drop ?s buffer) (nat cw) = Some (?z @ drop (?d + nat cw) (backbuf v))"
    by (simp add: memcpy_copies add.commute [of "nat cw"])
  have val: "?z ! nat (a - dx) = blit_value x y width buffer a ?dy" if "dx \<le> a" "a < dx + cw" for a
  proof -
    have "nat (a - dx) < nat cw" using that by linarith
    then have "?z ! nat (a - dx) = buffer ! (?s + nat (a - dx))" using s(2) buf by simp
    also have "?s + nat (a - dx) = row * unat width + nat (a - x)" using that sx(1,3) by linarith
    finally show ?thesis by (simp add: blit_value_def)
  qed
  have "pixel (v\<lparr>backbuf := ?b\<rparr>) a b =
      (if dx \<le> a \<and> a < dx + cw \<and> b = ?dy then blit_value x y width buffer a b else pixel v a b)"
    if "vga_inside v a b" for a b using sp(3) [OF that] cw val [of a] by auto
  moreover have "vga_ok (v\<lparr>backbuf := ?b\<rparr>)" using ok sp(2) by (simp only: vga_ok_back)
  moreover have "vga_inside (v\<lparr>backbuf := ?b\<rparr>) = vga_inside v" by (intro ext) (simp add: vga_inside_def)
  ultimately show thesis using that [unfolded d s(1), OF m refl] by blast
qed

lemma blit_row_spec:
  assumes ok: "vga_ok v" and x: "c_int x" and y: "c_int (y + int row)" and row: "row < h"
    and w: "unat width < 2 ^ 15" and h: "h < 2 ^ 15" and buf: "unat width * h \<le> length buffer"
  shows "\<exists>v'. blit_row x y width buffer row v = Some v' \<and> vga_ok v' \<and> vga_inside v' = vga_inside v
     \<and> (\<forall>a b. vga_inside v a b \<longrightarrow> pixel v' a b =
          (if x \<le> a \<and> a < x + int (unat width) \<and> b = y + int row
           then blit_value x y width buffer a b else pixel v a b))"
proof -
  define W where "W = int (unat width)"
  define SW where "SW = unat (scr_w v)"
  define SH where "SH = unat (scr_h v)"
  have dims: "SW < 2 ^ 16" "SH < 2 ^ 15" using ok by (simp_all add: vga_ok_def SW_def SH_def)
  have sh: "sint (scr_h v) = int SH" "sint (scr_w v) = int SW" "sint width = W"
    using dims w by (simp_all add: sint_small SH_def SW_def W_def)
  let ?dy = "y + int row"
  define sx where "sx = (if x < 0 then - x else 0)"
  define dx where "dx = (if x < 0 then 0 else x)"
  define cw0 where "cw0 = (if x < 0 then W + x else W)"
  define cw where "cw = (if dx + cw0 > int SW then int SW - dx else cw0)"
  have vis: "x \<le> a \<and> a < x + W \<longleftrightarrow> dx \<le> a \<and> a < dx + cw" if "vga_inside v a b" for a b
    using that by (auto simp: dx_def cw_def cw0_def vga_inside_def SW_def nat_less_iff)
  have br: "blit_row x y width buffer row v = (if ?dy < 0 \<or> ?dy \<ge> int SH \<or> cw \<le> 0 then Some v
         else let d = unat (u32_of ?dy * scr_pitch v + u32_of dx);
               s = unat (of_nat row * width + u32_of sx)
           in do {
             b \<leftarrow> memcpy (drop d (backbuf v)) (drop s buffer) (nat cw);
             Some (v\<lparr>backbuf := take d (backbuf v) @ b\<rparr>)
           })"
    unfolding blit_row_def sh by (simp add: Let_def sx_def dx_def cw0_def cw_def)
  show ?thesis
  proof (cases "?dy < 0 \<or> ?dy \<ge> int SH \<or> cw \<le> 0")
    case True
    then have "\<not> (x \<le> a \<and> a < x + W \<and> b = ?dy)" if "vga_inside v a b" for a b
      using vis [OF that] that by (auto simp: vga_inside_def SH_def [symmetric] nat_less_iff)
    then show ?thesis using br True ok by (auto simp: W_def)
  next
    case False
    have "0 < cw0" using False by (auto simp: cw_def split: if_splits)
    moreover from w have "int (unat width) < int (2 ^ 15)" by (simp only: of_nat_less_iff)
    then have "W < 2 ^ 15" by (simp add: W_def)
    ultimately have "c_int sx" using x unfolding c_int_def sx_def cw0_def by (simp split: if_splits) linarith?
    then have c: "0 \<le> sx" "c_int sx" "dx - sx = x" "sx + cw \<le> int (unat width)" "0 < cw"
      "dx + cw \<le> int (unat (scr_w v))"
      using False by (auto simp: dx_def cw_def cw0_def sx_def W_def SW_def)
    have ins: "vga_inside v dx ?dy"
      using False c(6) by (auto simp: vga_inside_def dx_def SH_def [symmetric] nat_less_iff)
    obtain z v' where v': "memcpy (drop (unat (u32_of ?dy * scr_pitch v + u32_of dx)) (backbuf v))
        (drop (unat (of_nat row * width + u32_of sx)) buffer) (nat cw) = Some z"
      "v\<lparr>backbuf := take (unat (u32_of ?dy * scr_pitch v + u32_of dx)) (backbuf v) @ z\<rparr> = v'"
      "vga_ok v'" "vga_inside v' = vga_inside v"
      "\<And>a b. vga_inside v a b \<Longrightarrow> pixel v' a b =
        (if dx \<le> a \<and> a < dx + cw \<and> b = ?dy then blit_value x y width buffer a b else pixel v a b)"
      by (rule blit_row_copies [OF ok ins c row w h buf]) (rule that; assumption)
    have "blit_row x y width buffer row v = Some v'"
      unfolding br Let_def v'(1) using False v'(2) by simp
    moreover have "pixel v' a b = (if x \<le> a \<and> a < x + int (unat width) \<and> b = ?dy
        then blit_value x y width buffer a b else pixel v a b)" if "vga_inside v a b" for a b
      using v'(5) [OF that] vis [OF that] unfolding W_def by auto
    ultimately show ?thesis using v'(3,4) by blast
  qed
qed

text \<open>\<^verbatim>\<open>vga_blit\<close> copies a window of \<open>width\<close> by \<open>height\<close> pixels to the
  screen at any position, also partly or wholly outside: every visible pixel of its area shows
  the pixel of the buffer and every other visible pixel is unchanged.\<close>

theorem vga_blit_copies:
  assumes "vga_ok v" "c_int x" "c_int y" "c_int (y + int (unat height))"
    and "unat width < 2 ^ 15" "unat height < 2 ^ 15" "unat width * unat height \<le> length buffer"
  shows "\<exists>v'. vga_blit x y width height buffer v = Some v' \<and> vga_ok v'
     \<and> (\<forall>a b. vga_inside v a b \<longrightarrow> pixel v' a b =
          (if x \<le> a \<and> a < x + int (unat width) \<and> y \<le> b \<and> b < y + int (unat height)
           then blit_value x y width buffer a b else pixel v a b))"
proof -
  have rows: "\<exists>v'. foldM (blit_row x y width buffer) [0..<n] v = Some v' \<and> vga_ok v'
     \<and> vga_inside v' = vga_inside v
     \<and> (\<forall>a b. vga_inside v a b \<longrightarrow> pixel v' a b =
          (if x \<le> a \<and> a < x + int (unat width) \<and> y \<le> b \<and> b < y + int n
           then blit_value x y width buffer a b else pixel v a b))"
    if "n \<le> unat height" "vga_ok v" for n v
    using that(1)
  proof (induction n)
    case 0
    then show ?case using that(2) by auto
  next
    case (Suc n)
    then obtain t where t: "foldM (blit_row x y width buffer) [0..<n] v = Some t" "vga_ok t"
        "vga_inside t = vga_inside v"
      and tp: "\<And>a b. vga_inside v a b \<Longrightarrow> pixel t a b =
          (if x \<le> a \<and> a < x + int (unat width) \<and> y \<le> b \<and> b < y + int n
           then blit_value x y width buffer a b else pixel v a b)" by auto
    have "c_int (y + int n)" using assms(3,4) Suc.prems unfolding c_int_def by linarith
    from blit_row_spec [OF t(2) assms(2) this, of "unat height" width buffer] Suc.prems assms(5-7)
    obtain u where u: "blit_row x y width buffer n t = Some u" "vga_ok u" "vga_inside u = vga_inside t"
      and up: "\<And>a b. vga_inside t a b \<Longrightarrow> pixel u a b =
          (if x \<le> a \<and> a < x + int (unat width) \<and> b = y + int n
           then blit_value x y width buffer a b else pixel t a b)" by auto
    have "pixel u a b = (if x \<le> a \<and> a < x + int (unat width) \<and> y \<le> b \<and> b < y + int (Suc n)
           then blit_value x y width buffer a b else pixel v a b)" if "vga_inside v a b" for a b
      using up [of a b] tp [OF that] that t(3) by auto
    then show ?case using t(1) u t(3) by simp
  qed
  have "vga_ok (mark_dirty y (sint (u32_of y + height - 1)) v)" using assms(1) by simp
  from rows [OF order_refl this] show ?thesis
    unfolding vga_blit_def Let_def inside_mark_dirty pixel_mark_dirty by blast
qed

theorem vga_blit_copies_witness:
  "\<exists>v'. vga_blit (- 1) 0 2 1 [7, 9] tiny_screen = Some v' \<and> pixel v' 0 0 = 9 \<and> pixel v' 1 0 = 0"
proof -
  have "vga_inside tiny_screen 0 0" "vga_inside tiny_screen 1 0"
    by (simp_all add: vga_inside_def tiny_screen_def)
  moreover have "pixel tiny_screen 1 0 = 0" by (simp add: pixel_def tiny_screen_def)
  ultimately show ?thesis
    using vga_blit_copies [OF tiny_screen_ok, of "- 1" 0 1 2 "[7, 9]"]
    by (auto simp: c_int_def blit_value_def)
qed

end
