(* ===== verification/Exceptions.thy ===== *)
theory Exceptions
  imports Vga Stdin
begin

text \<open>
  The handler of processor exceptions, \<^verbatim>\<open>cpu/exceptions.c\<close>: it draws what happened and the
  registers on the screen and halts. The result is the screen it halts with.
\<close>

section \<open>Model\<close>

definition BLUE :: u8 where "BLUE = 0x01"
definition PADDING :: int where "PADDING = 20"

definition exception_texts :: "string list" where
  "exception_texts =
     [''Division By Zero'', ''Debug'', ''Non Maskable Interrupt'', ''Breakpoint'', ''Overflow'', ''Out of Bounds'',
      ''Invalid Opcode'', ''No Coprocessor'', ''Double Fault'', ''Coprocessor Segment Overrun'', ''Bad TSS'',
      ''Segment Not Present'', ''Stack Fault'', ''General Protection Fault'', ''Page Fault'', ''Unknown Interrupt'',
      ''Coprocessor Fault'', ''Alignment Check'', ''Machine Check'', ''Reserved'']"

definition exception_messages :: "u8 list list" where
  "exception_messages = map cstr exception_texts"

text \<open>The calls of the handler: a string, and a number printed into \<^verbatim>\<open>buf\<close> in decimal or hexadecimal.\<close>

datatype report =
    Say int int string
  | Dec int int u32
  | Hex int int u32

fun draw_report :: "report \<Rightarrow> u8 list \<times> vga \<Rightarrow> (u8 list \<times> vga) option" where
  "draw_report (Say x y s) (buf, v) = do { v \<leftarrow> vga_draw_string x y (cstr s) WHITE v; Some (buf, v) }"
| "draw_report (Dec x y n) (buf, v) = do { buf \<leftarrow> itos buf (sint n); v \<leftarrow> vga_draw_string x y buf WHITE v; Some (buf, v) }"
| "draw_report (Hex x y n) (buf, v) = do { buf \<leftarrow> itohs buf (sint n); v \<leftarrow> vga_draw_string x y buf WHITE v; Some (buf, v) }"

definition numbers_report :: "registers \<Rightarrow> report list" where
  "numbers_report regs =
     [Say PADDING (PADDING + 20) ''Exception: '', Dec (PADDING + 100) (PADDING + 20) (r_int_no regs),
      Say PADDING (PADDING + 30) ''Error Code: '', Dec (PADDING + 100) (PADDING + 30) (r_err_code regs)]"

definition page_fault_report :: "u32 \<Rightarrow> registers \<Rightarrow> report list" where
  "page_fault_report cr2 regs =
     [Say PADDING (PADDING + 40) ''Faulting address: '', Hex (PADDING + 200) (PADDING + 40) cr2,
      Say PADDING (PADDING + 50) ''Caused by: '']
     @ (if r_err_code regs AND 0x1 = 0 then [Say PADDING (PADDING + 60) ''Page not present''] else [])
     @ [Say (PADDING + 200) (PADDING + 60) (if r_err_code regs AND 0x2 \<noteq> 0 then ''Write operation'' else ''Read operation''),
        Say (PADDING + 400) (PADDING + 60) (if r_err_code regs AND 0x4 \<noteq> 0 then ''User mode'' else ''Kernel mode'')]"

definition gpf_report :: "registers \<Rightarrow> report list" where
  "gpf_report regs =
     [Say PADDING (PADDING + 70) ''Segment selector: '', Hex (PADDING + 200) (PADDING + 70) (drop_bit 3 (r_err_code regs))]"

definition two_registers :: "int \<Rightarrow> string \<Rightarrow> u32 \<Rightarrow> string \<Rightarrow> u32 \<Rightarrow> report list" where
  "two_registers y a m b n =
     [Say PADDING (PADDING + y) a, Hex (PADDING + 100) (PADDING + y) m,
      Say (PADDING + 220) (PADDING + y) b, Hex (PADDING + 320) (PADDING + y) n]"

definition registers_report :: "registers \<Rightarrow> report list" where
  "registers_report regs =
     Say PADDING (PADDING + 80) ''Registers: ''
     # two_registers 90 ''EAX='' (r_eax regs) ''EBX='' (r_ebx regs)
     @ two_registers 100 ''ECX='' (r_ecx regs) ''EDX='' (r_edx regs)
     @ two_registers 110 ''ESI='' (r_esi regs) ''EDI='' (r_edi regs)
     @ two_registers 120 ''EBP='' (r_ebp regs) ''ESP='' (r_esp regs)
     @ two_registers 130 ''EIP='' (r_eip regs) ''EFLAGS='' (r_eflags regs)
     @ [Say PADDING (PADDING + 140) ''System halted.'']"

definition exception_report :: "u32 \<Rightarrow> registers \<Rightarrow> report list" where
  "exception_report cr2 regs =
     numbers_report regs @ (if r_int_no regs = 14 then page_fault_report cr2 regs else [])
     @ (if r_int_no regs = 13 then gpf_report regs else []) @ registers_report regs"

definition exception_handler_c :: "u8 list \<Rightarrow> u32 \<Rightarrow> registers \<Rightarrow> vga \<Rightarrow> vga option" where
  "exception_handler_c buf cr2 regs v =
     do {
       v \<leftarrow> vga_draw_rect 0 0 800 800 BLUE v;
       v \<leftarrow> vga_draw_string PADDING PADDING (cstr ''*** EXCEPTION ***'') WHITE v;
       v \<leftarrow> (if r_int_no regs < 20 then do {
               message \<leftarrow> get exception_messages (unat (r_int_no regs));
               vga_draw_string PADDING (PADDING + 10) message WHITE v }
             else vga_draw_string PADDING (PADDING + 10) (cstr ''Reserved Exception'') WHITE v);
       (buf, v) \<leftarrow> foldM draw_report (exception_report cr2 regs) (buf, v);
       vga_flip v
     }"

section \<open>Drawing keeps the frame\<close>

definition draws_ok :: "(vga \<Rightarrow> vga option) \<Rightarrow> bool" where
  "draws_ok f \<longleftrightarrow> (\<forall>v. frame_ok v \<longrightarrow> (\<exists>v'. f v = Some v' \<and> frame_ok v'))"

lemma draws_ok_foldM: "(\<And>x. x \<in> set xs \<Longrightarrow> draws_ok (f x)) \<Longrightarrow> draws_ok (foldM f xs)"
  unfolding draws_ok_def by (intro allI impI foldM_total) auto

lemma draws_ok_put: "0 \<le> y \<Longrightarrow> c_int x \<Longrightarrow> c_int y \<Longrightarrow> draws_ok (vga_put_pixel x y c)"
  unfolding draws_ok_def
  using vc.put_spec put_pixel_keeps_frame by (metis frame_ok_def)

lemma draws_ok_rect:
  assumes "0 \<le> y" "0 < h" "c_int x" "c_int (x + w)" "c_int (y + h)"
  shows "draws_ok (vga_draw_rect x y w h c)"
proof -
  have "draws_ok (fill_rect vga_put_pixel x y w h c)"
    unfolding fill_rect_def [abs_def] using assms by (intro draws_ok_foldM draws_ok_put) (auto simp: c_int_def)
  moreover have "frame_ok (mark_dirty y (y + h - 1) v)" if "frame_ok v" for v
    using assms that by (intro frame_ok_mark_dirty) (auto simp: c_int_def)
  ultimately show ?thesis by (simp add: draws_ok_def vga_draw_rect_def)
qed

lemma draws_ok_char:
  assumes "32 \<le> unat ch" "unat ch < 127" "0 \<le> y" "y < 2000000" "c_int x" "c_int (x + 8)"
  shows "draws_ok (vga_draw_char x y ch c)"
proof -
  obtain g where g: "glyph_of ch = Some g" "length g = 8" using glyph_of_printable [OF assms(1,2)] by blast
  have "draws_ok (draw_glyph vga_put_pixel g x y c)"
    unfolding draw_glyph_def [abs_def] g(2)
  proof (intro draws_ok_foldM)
    fix row assume "row \<in> set [0..<8::nat]"
    then have "draws_ok (foldM (\<lambda>col s. if g ! row AND drop_bit col 0x80 \<noteq> 0
        then vga_put_pixel (x + int col) (y + int row) c s else Some s) [0..<8])"
      using assms draws_ok_put [of "y + int row"]
      by (intro draws_ok_foldM) (auto simp: draws_ok_def c_int_def)
    then show "draws_ok (\<lambda>s. if row < 8 then foldM (\<lambda>col s. if g ! row AND drop_bit col 0x80 \<noteq> 0
        then vga_put_pixel (x + int col) (y + int row) c s else Some s) [0..<8] s else None)"
      using \<open>row \<in> set [0..<8]\<close> by (simp add: draws_ok_def)
  qed
  moreover have "frame_ok (mark_dirty y (sint (u32_of y + font_row)) v)" if "frame_ok v" for v
  proof -
    have "u32_of y + font_row = u32_of (y + 8)" by (simp add: font_row_def)
    moreover have "sint (u32_of (y + 8)) = y + 8"
      using assms(3,4) by (intro sint_of_c_int) (simp add: c_int_def)
    ultimately show ?thesis using assms that by (intro frame_ok_mark_dirty) (auto simp: c_int_def)
  qed
  ultimately show ?thesis by (simp add: draws_ok_def vga_draw_char_def Let_def g(1))
qed

lemma draws_ok_string:
  assumes "terminated str" "\<forall>ch \<in> set (text_of str). 32 \<le> unat ch \<and> unat ch < 127" "length (text_of str) < 1000"
    "0 \<le> x" "x < 2000" "0 \<le> y" "y < 2000000"
  shows "draws_ok (vga_draw_string x y str c)"
proof -
  have "draws_ok (\<lambda>v. do { ch \<leftarrow> get str i; vga_draw_char (sint (u32_of x + of_nat i * font_spacing)) y ch c v })"
    if i: "i < length (text_of str)" for i
  proof -
    have "get str i = Some (text_of str ! i)"
      using i text_shorter [OF assms(1)] by (simp add: get_def text_of_def takeWhile_nth)
    moreover have "sint (u32_of x + of_nat i * font_spacing) = x + int i * 9"
    proof -
      have "u32_of x + of_nat i * font_spacing = u32_of (x + int i * 9)" by (simp add: font_spacing_def)
      moreover have "sint (u32_of (x + int i * 9)) = x + int i * 9" using i assms by (intro sint_of_c_int) (simp add: c_int_def)
      ultimately show ?thesis by simp
    qed
    moreover have "32 \<le> unat (text_of str ! i) \<and> unat (text_of str ! i) < 127" using assms(2) i by simp
    ultimately show ?thesis using draws_ok_char assms i by (simp add: c_int_def)
  qed
  then have "draws_ok (foldM (\<lambda>i v. do { ch \<leftarrow> get str i; vga_draw_char (sint (u32_of x + of_nat i * font_spacing)) y ch c v })
      [0..<length (text_of str)])"
    by (intro draws_ok_foldM) simp
  then show ?thesis unfolding vga_draw_string_def [abs_def] strlen_text [OF assms(1)] bind.bind_lunit .
qed

lemma cstr_ok:
  assumes "\<forall>ch \<in> set s. (of_char ch :: u8) \<noteq> 0"
  shows "terminated (cstr s)" "text_of (cstr s) = map of_char s"
  using assms by (auto simp: cstr_def terminated_def intro!: text_of_append)

definition printable :: "string \<Rightarrow> bool" where
  "printable s \<longleftrightarrow> (\<forall>ch \<in> set s. 32 \<le> unat (of_char ch :: u8) \<and> unat (of_char ch :: u8) < 127) \<and> length s < 1000"

lemma draws_ok_say:
  assumes "printable s" "0 \<le> x" "x < 2000" "0 \<le> y" "y < 2000000"
  shows "draws_ok (vga_draw_string x y (cstr s) c)"
proof -
  have "\<forall>ch \<in> set s. (of_char ch :: u8) \<noteq> 0" using assms(1) by (fastforce simp: printable_def)
  then show ?thesis using cstr_ok [of s] assms by (intro draws_ok_string) (auto simp: printable_def)
qed

lemma hexadecimal_printable: "c \<in> set (hexadecimal n) \<Longrightarrow> 32 \<le> unat c \<and> unat c < 127"
proof -
  assume "c \<in> set (hexadecimal n)"
  then obtain d where d: "d \<in> set (digits 16 n)" "c = digits_16 ! d" by (auto simp: hexadecimal_def)
  then have "d < 16" using digits_range [of 16 d n] by simp
  then have "c \<in> set digits_16" using d(2) nth_mem [of d digits_16] by (simp add: digits_16_def)
  then show ?thesis by (auto simp: digits_16_def)
qed

text \<open>Where a report lands on the screen, and that its number can be printed.\<close>

fun report_ok :: "report \<Rightarrow> bool" where
  "report_ok (Say x y s) \<longleftrightarrow> printable s \<and> 0 \<le> x \<and> x < 2000 \<and> 0 \<le> y \<and> y < 2000"
| "report_ok (Dec x y n) \<longleftrightarrow> n \<noteq> 0x80000000 \<and> 0 \<le> x \<and> x < 2000 \<and> 0 \<le> y \<and> y < 2000"
| "report_ok (Hex x y n) \<longleftrightarrow> 0 \<le> sint n \<and> 0 \<le> x \<and> x < 2000 \<and> 0 \<le> y \<and> y < 2000"

lemma number_draws:
  assumes "terminated out" "text_of out = t" "\<forall>ch \<in> set t. 32 \<le> unat ch \<and> unat ch < 127" "length t < 1000"
    "0 \<le> x" "x < 2000" "0 \<le> y" "y < 2000" "frame_ok v"
  shows "\<exists>v'. vga_draw_string x y out WHITE v = Some v' \<and> frame_ok v'"
  using draws_ok_string [of out x y WHITE] assms by (auto simp: draws_ok_def)

lemma report_draws:
  assumes "report_ok r" "length buf = 20" "frame_ok v"
  shows "\<exists>buf' v'. draw_report r (buf, v) = Some (buf', v') \<and> length buf' = 20 \<and> frame_ok v'"
proof (cases r)
  case (Say x y s)
  then show ?thesis using assms draws_ok_say [of s x y WHITE] by (fastforce simp: draws_ok_def)
next
  case (Dec x y n)
  have "- 2147483648 \<le> sint n" "sint n < 2147483648" using sint_range_size [of n] by (simp_all add: word_size)
  moreover have "sint n \<noteq> - 2147483648"
  proof
    assume "sint n = - 2147483648"
    moreover have "n = of_int (sint n)" by simp
    ultimately have "n = - 2147483648" by simp
    then show False using assms(1) Dec by simp
  qed
  ultimately have n: "INT_MIN < sint n" "sint n < 2147483648" by (simp_all add: INT_MIN_def)
  obtain out where out: "itos buf (sint n) = Some out" "length out = 20" "terminated out" "text_of out = dec_text (sint n)"
    using itos_print [OF n, of buf] assms(2) by auto
  have p: "\<forall>ch \<in> set (dec_text (sint n)). 32 \<le> unat ch \<and> unat ch < 127"
    by (auto simp: dec_text_def dest!: decimal_chars)
  have "length (dec_text (sint n)) < 1000" using text_shorter [OF out(3)] out(2,4) by simp
  from number_draws [OF out(3,4) p this] show ?thesis using Dec assms out(1,2) by fastforce
next
  case (Hex x y n)
  have n: "0 \<le> sint n \<and> sint n < 2147483648" using assms(1) Hex sint_range_size [of n] by (simp add: word_size)
  let ?t = "[48, 88] @ hexadecimal (nat (sint n))"
  obtain out where out: "itohs buf (sint n) = Some out" "out = ?t @ 0 # drop (Suc (length (hexadecimal (nat (sint n))))) (drop 2 buf)"
    using itohs_eq(1) [OF _ n, of buf] assms(2) by simp
  have len: "length (hexadecimal (nat (sint n))) \<le> 8" using itohs_eq(2) [OF _ n, of buf] assms(2) by simp
  have "0 \<notin> set ?t" by (simp add: hexadecimal_nonzero)
  then have "text_of out = ?t" unfolding out(2) by (rule text_of_append)
  moreover have "terminated out" by (simp add: out(2) terminated_def)
  moreover have "\<forall>ch \<in> set ?t. 32 \<le> unat ch \<and> unat ch < 127" using hexadecimal_printable by auto
  moreover have "length out = 20" using len assms(2) by (simp add: out(2))
  ultimately show ?thesis using number_draws [of out ?t x y v] Hex assms out(1) len by fastforce
qed

lemma reports_draw:
  "\<forall>r \<in> set rs. report_ok r \<Longrightarrow> length buf = 20 \<Longrightarrow> frame_ok v \<Longrightarrow>
    \<exists>buf' v'. foldM draw_report rs (buf, v) = Some (buf', v') \<and> frame_ok v'"
proof (induction rs arbitrary: buf v)
  case (Cons r rs)
  then obtain b w where "draw_report r (buf, v) = Some (b, w)" "length b = 20" "frame_ok w"
    using report_draws [of r buf v] by auto
  then show ?case using Cons.IH [of b w] Cons.prems(1) by auto
qed simp

lemma itohs_length: "itohs buf n = Some out \<Longrightarrow> 2 \<le> length buf \<Longrightarrow> length out = length buf"
proof -
  have copy: "strcpy d s = Some d' \<Longrightarrow> length d' = length d" for d s d'
    by (induction d s arbitrary: d' rule: strcpy.induct) (auto split: if_splits)
  show "itohs buf n = Some out \<Longrightarrow> 2 \<le> length buf \<Longrightarrow> length out = length buf"
    by (auto simp: itohs_def put_def min_def split: bind_splits if_splits dest!: copy)
qed

lemma report_keeps_buffer: "draw_report r (buf, v) = Some (b, w) \<Longrightarrow> length buf = 20 \<Longrightarrow> length b = 20"
proof (cases r)
  case (Dec x y n)
  have n: "INT_MIN \<le> sint n" "sint n < 2147483648" using sint_range_size [of n] by (simp_all add: word_size INT_MIN_def)
  moreover assume "draw_report r (buf, v) = Some (b, w)" "length buf = 20"
  ultimately show ?thesis
    using Dec itos_int_min [of buf] itos_print [of "sint n" buf] by (cases "sint n = INT_MIN") (auto split: bind_splits)
qed (auto split: bind_splits dest: itohs_length)

lemma reports_fail:
  "Hex x y n \<in> set rs \<Longrightarrow> sint n < 0 \<Longrightarrow> sint n mod 16 \<noteq> 0 \<Longrightarrow> length buf = 20 \<Longrightarrow> foldM draw_report rs (buf, v) = None"
proof (induction rs arbitrary: buf v)
  case (Cons r rs)
  show ?case
  proof (cases "draw_report r (buf, v)")
    case (Some bw)
    obtain b w where bw: "bw = (b, w)" by (cases bw)
    then have "length b = 20" using Some Cons.prems(4) report_keeps_buffer by simp
    moreover have "r \<noteq> Hex x y n" using Some Cons.prems itohs_prints [of buf "sint n"] by auto
    ultimately show ?thesis using Cons.IH [of b w] Cons.prems Some bw by auto
  qed simp
qed simp

section \<open>Properties\<close>

definition printed_registers :: "registers \<Rightarrow> u32 set" where
  "printed_registers regs = {r_eax regs, r_ebx regs, r_ecx regs, r_edx regs, r_esi regs, r_edi regs, r_ebp regs, r_esp regs,
     r_eip regs, r_eflags regs}"

fun hex_values :: "report \<Rightarrow> u32 set" where
  "hex_values (Hex x y n) = {n}"
| "hex_values _ = {}"

lemma hex_registers: "\<Union> (hex_values ` set (registers_report regs)) = printed_registers regs"
  by (simp add: registers_report_def two_registers_def printed_registers_def) blast

lemma report_all_ok:
  assumes "\<forall>n \<in> insert cr2 (printed_registers regs). 0 \<le> sint n" "r_int_no regs \<noteq> 0x80000000" "r_err_code regs \<noteq> 0x80000000"
  shows "\<forall>r \<in> set (exception_report cr2 regs). report_ok r"
proof -
  have "unat (drop_bit 3 (r_err_code regs)) = unat (r_err_code regs) div 8"
  proof -
    have "(2::nat) ^ 3 = 8" by simp
    then show ?thesis unfolding unat_drop_bit_eq by (simp only: drop_bit_eq_div)
  qed
  moreover have "unat (r_err_code regs) div 8 < 2147483648" using unat_lt32 [of "r_err_code regs"] by linarith
  ultimately have "unat (drop_bit 3 (r_err_code regs)) < 2 ^ 31" by (simp del: unat_div)
  then have "0 \<le> sint (drop_bit 3 (r_err_code regs))" by (subst sint_small) simp_all
  moreover have "\<forall>r \<in> set (numbers_report regs). report_ok r"
    using assms(2,3) by (simp add: numbers_report_def PADDING_def printable_def)
  moreover have "\<forall>r \<in> set (page_fault_report cr2 regs). report_ok r"
    using assms(1) by (simp add: page_fault_report_def PADDING_def printable_def)
  moreover have "\<forall>r \<in> set (registers_report regs). report_ok r"
    using assms(1) by (simp add: registers_report_def two_registers_def printed_registers_def PADDING_def printable_def)
  ultimately show ?thesis by (auto simp: exception_report_def gpf_report_def PADDING_def printable_def)
qed

text \<open>C28: As long as the registers and the faulting address, read as \<^verbatim>\<open>int\<close>, are not negative, the
  handler draws its report without leaving the message table, its buffer, the fonts or the back buffer,
  and halts with everything it has drawn on the screen.\<close>

theorem exception_report_shown:
  assumes "frame_ok v" "length buf = 20" "\<forall>n \<in> insert cr2 (printed_registers regs). 0 \<le> sint n"
    and "r_int_no regs \<noteq> 0x80000000" "r_err_code regs \<noteq> 0x80000000"
  shows "\<exists>v'. exception_handler_c buf cr2 regs v = Some v' \<and> fbmem v' = backbuf v'"
proof -
  have texts: "list_all printable exception_texts" "length exception_texts = 20" by code_simp+
  let ?m = "\<lambda>v. if r_int_no regs < 20 then do {
      message \<leftarrow> get exception_messages (unat (r_int_no regs)); vga_draw_string PADDING (PADDING + 10) message WHITE v }
    else vga_draw_string PADDING (PADDING + 10) (cstr ''Reserved Exception'') WHITE v"
  have m: "draws_ok ?m"
  proof (cases "r_int_no regs < 20")
    case True
    then have i: "unat (r_int_no regs) < 20" by (simp add: word_less_nat_alt)
    then have "printable (exception_texts ! unat (r_int_no regs))" using texts by (simp add: list_all_length)
    then show ?thesis
      using True i texts(2) draws_ok_say by (simp add: get_def exception_messages_def PADDING_def)
  next
    case False
    have "printable ''Reserved Exception''" by code_simp
    then show ?thesis using False draws_ok_say by (simp add: PADDING_def)
  qed
  have "draws_ok (vga_draw_rect 0 0 800 800 BLUE)" by (intro draws_ok_rect) (simp_all add: c_int_def)
  then obtain v1 where v1: "vga_draw_rect 0 0 800 800 BLUE v = Some v1" "frame_ok v1" using assms(1) by (auto simp: draws_ok_def)
  have "printable ''*** EXCEPTION ***''" by code_simp
  then have "draws_ok (vga_draw_string PADDING PADDING (cstr ''*** EXCEPTION ***'') WHITE)"
    using draws_ok_say by (simp add: PADDING_def)
  then obtain v2 where v2: "vga_draw_string PADDING PADDING (cstr ''*** EXCEPTION ***'') WHITE v1 = Some v2" "frame_ok v2"
    using v1(2) by (auto simp: draws_ok_def)
  obtain v3 where v3: "?m v2 = Some v3" "frame_ok v3" using m v2(2) by (auto simp: draws_ok_def)
  obtain b v4 where v4: "foldM draw_report (exception_report cr2 regs) (buf, v3) = Some (b, v4)" "frame_ok v4"
    using reports_draw [OF report_all_ok [OF assms(3-5)] assms(2) v3(2)] by blast
  obtain v5 where "vga_flip v4 = Some v5" "fbmem v5 = backbuf v4" "backbuf v5 = backbuf v4" using flip_copies [OF v4(2)] by blast
  then show ?thesis using v1(1) v2(1) v3(1) v4(1) by (simp add: exception_handler_c_def)
qed

text \<open>\<^verbatim>\<open>itohs\<close> takes an \<^verbatim>\<open>int\<close>, so a register that holds a value from 0x80000000 on
  (and is not a multiple of 16) makes the handler read before the table of hexadecimal digits.\<close>

theorem negative_register_faults:
  assumes "length buf = 20" "n \<in> printed_registers regs" "sint n < 0" "sint n mod 16 \<noteq> 0"
  shows "exception_handler_c buf cr2 regs v = None"
proof -
  have "n \<in> \<Union> (hex_values ` set (registers_report regs))" using assms(2) unfolding hex_registers .
  then obtain r where "r \<in> set (registers_report regs)" "n \<in> hex_values r" by blast
  moreover obtain x y where "r = Hex x y n" using \<open>n \<in> hex_values r\<close> by (cases r) auto
  ultimately have "Hex x y n \<in> set (exception_report cr2 regs)" unfolding exception_report_def set_append by blast
  then have "foldM draw_report (exception_report cr2 regs) (buf, w) = None" for w
    using reports_fail assms by blast
  then show ?thesis by (auto simp: exception_handler_c_def split: bind_splits)
qed

text \<open>A page fault of a program at address 0x1000 on a screen of 4 by 2 pixels.\<close>

theorem exception_report_shown_witness:
  "\<exists>v'. exception_handler_c (replicate 20 0) 0x1000 (zero_registers\<lparr>r_int_no := 14, r_err_code := 4\<rparr>) tiny_screen = Some v'
    \<and> fbmem v' = backbuf v'"
proof (rule exception_report_shown)
  show "frame_ok tiny_screen"
    using tiny_screen_ok unfolding frame_ok_def by (simp add: synced_def tiny_screen_def)
qed (simp_all add: printed_registers_def zero_registers_def)

theorem negative_register_faults_witness:
  "exception_handler_c (replicate 20 0) 0 (zero_registers\<lparr>r_int_no := 13, r_eax := 0xFFFFFFFF\<rparr>) tiny_screen = None"
  by (rule negative_register_faults [where n = "0xFFFFFFFF"]) (simp_all add: printed_registers_def)

end
