(* ===== verification/Window.thy ===== *)
theory Window
  imports Vga Kmalloc EventQueue
begin

text \<open>
  The window manager, \<^verbatim>\<open>kernel-space/kernel/window.c\<close>: the list of windows with their
  pixel buffers and event queues, the stacking order, focus, dragging and closing, and the order
  in which the compositor paints. The list \<open>windows\<close> holds the nodes in \<open>next\<close> order. A window
  keeps its address and the address of its pixel buffer for the kernel heap; the contents of the
  pixel buffer are a list of bytes. The compositor itself, which also paints the desktop and the
  status bar, is with the desktop.
\<close>

section \<open>Model\<close>

definition PADDING :: int where "PADDING = 5"
definition HEADER_OFFSET :: u32 where "HEADER_OFFSET = 25"
definition MAX_WINDOWS :: nat where "MAX_WINDOWS = 32"
definition CLOSE_BTN_W :: u32 where "CLOSE_BTN_W = 30"
definition STATUS_BAR_HEIGHT :: int where "STATUS_BAR_HEIGHT = 30"
definition sizeof_window :: u32 where "sizeof_window = 1364"

record window =
  w_addr :: u32
  window_id :: u32
  w_x :: int
  w_y :: int
  w_width :: u32
  w_height :: u32
  pixel_buffer :: u32
  pixels :: "u8 list"
  title :: "u8 list"
  w_pid :: u32
  z_index :: u32
  is_visible :: bool
  is_focused :: bool
  is_dragging :: bool
  w_events :: event_queue

record wm =
  wm_heap :: kheap
  windows :: "window list"
  wm_dirty :: bool
  window_z_index :: u32
  next_window_id :: u32

text \<open>A sum of an \<^verbatim>\<open>int\<close> and an \<^verbatim>\<open>unsigned\<close> that ends in an \<^verbatim>\<open>int\<close> again.\<close>

definition wrap32 :: "int \<Rightarrow> int" where
  "wrap32 k = sint (word_of_int k :: u32)"

definition point_in_rect :: "int \<Rightarrow> int \<Rightarrow> int \<Rightarrow> int \<Rightarrow> int \<Rightarrow> int \<Rightarrow> bool" where
  "point_in_rect px py x y w h \<longleftrightarrow> px \<ge> x \<and> px < wrap32 (x + w) \<and> py \<ge> y \<and> py < wrap32 (y + h)"

definition window_count :: "wm \<Rightarrow> u32" where
  "window_count s = of_nat (length (windows s))"

definition wm_get_focused_window :: "wm \<Rightarrow> window option" where
  "wm_get_focused_window s = find is_focused (windows s)"

definition get_window :: "u32 \<Rightarrow> wm \<Rightarrow> window option" where
  "get_window wid s = find (\<lambda>w. window_id w = wid) (windows s)"

definition wm_create_window ::
  "int \<Rightarrow> int \<Rightarrow> u32 \<Rightarrow> u32 \<Rightarrow> u8 list \<Rightarrow> u32 \<Rightarrow> wm \<Rightarrow> (window \<times> wm) option" where
  "wm_create_window x y width height t pid s =
     do {
       (p, h) \<leftarrow> kmalloc sizeof_window (wm_heap s);
       if p = 0 then None
       else do {
         let buf_size = width * (height + HEADER_OFFSET);
         (b, h) \<leftarrow> kmalloc buf_size h;
         if b = 0 \<and> buf_size \<noteq> 0 then None
         else do {
           t \<leftarrow> strcpy (replicate 32 0) t;
           let window = \<lparr>w_addr = p, window_id = next_window_id s, w_x = x,
               w_y = wrap32 (y + STATUS_BAR_HEIGHT), w_width = width, w_height = height,
               pixel_buffer = b, pixels = replicate (unat buf_size) 0, title = t, w_pid = pid,
               z_index = window_z_index s, is_visible = True, is_focused = False,
               is_dragging = False, w_events = zero_queue\<rparr>;
           Some (window, s\<lparr>wm_heap := h, windows := windows s @ [window],
             window_z_index := window_z_index s + 1, next_window_id := next_window_id s + 1\<rparr>)
         }
       }
     }"

fun drop_first :: "('a \<Rightarrow> bool) \<Rightarrow> 'a list \<Rightarrow> 'a list" where
  "drop_first P [] = []"
| "drop_first P (x # xs) = (if P x then xs else x # drop_first P xs)"

definition lower_above :: "u32 \<Rightarrow> window \<Rightarrow> window" where
  "lower_above z w = (if z_index w > z then w\<lparr>z_index := z_index w - 1\<rparr> else w)"

definition remove_window :: "u32 \<Rightarrow> wm \<Rightarrow> wm option" where
  "remove_window wid s =
     (case get_window wid s of
        None \<Rightarrow> Some s
      | Some window \<Rightarrow> do {
          let s = s\<lparr>windows := drop_first (\<lambda>w. window_id w = wid) (windows s)\<rparr>;
          let s = s\<lparr>windows := map (lower_above (z_index window)) (windows s),
                    window_z_index := window_z_index s - 1\<rparr>;
          h \<leftarrow> kfree (pixel_buffer window) (wm_heap s);
          h \<leftarrow> kfree (w_addr window) h;
          Some (s\<lparr>wm_heap := h\<rparr>)
        })"

text \<open>
  The loop reads \<^verbatim>\<open>window->next\<close> from the freed window: \<^verbatim>\<open>kfree\<close> leaves the
  contents of the block, so the loop follows the list as it was at its start.
\<close>

definition remove_window_process :: "u32 \<Rightarrow> wm \<Rightarrow> wm option" where
  "remove_window_process pid s =
     foldM (\<lambda>w s. if w_pid w = pid then remove_window (window_id w) s else Some s) (windows s) s"

definition draw_window :: "window \<Rightarrow> vga \<Rightarrow> vga option" where
  "draw_window w v =
     (let border_color = (if is_focused w then 0x11 else 0x99);
          total_h = w_height w + HEADER_OFFSET;
          right = (\<lambda>k. wrap32 (w_x w + uint (w_width w) - PADDING - k))
      in do {
        v \<leftarrow> vga_blit (w_x w) (w_y w) (w_width w) total_h (pixels w) v;
        v \<leftarrow> vga_draw_rect (w_x w) (w_y w) (sint (w_width w)) (sint HEADER_OFFSET) border_color v;
        v \<leftarrow> vga_draw_string (wrap32 (w_x w + PADDING)) (wrap32 (w_y w + PADDING + 5)) (title w) 0x0F v;
        v \<leftarrow> vga_draw_rect (right 15) (wrap32 (w_y w + PADDING)) 15 15 0x0C v;
        vga_draw_string (right 12) (wrap32 (w_y w + PADDING + 4)) [88, 0] 0xF v
      })"

text \<open>
  The two loops of \<^verbatim>\<open>wm_composite\<close> that find out what is drawn, in which order. The
  array \<^verbatim>\<open>sorted\<close> has \<open>MAX_WINDOWS\<close> slots; a slot beyond it, and the dereference of an
  empty slot, is a fault.
\<close>

definition sort_windows :: "window list \<Rightarrow> window option list" where
  "sort_windows ws = foldl (\<lambda>slots w.
       if z_index w > 0 \<and> unat (z_index w) \<le> MAX_WINDOWS
       then slots[unat (z_index w) - 1 := Some w] else slots)
     (replicate MAX_WINDOWS None) ws"

definition paint_slots ::
  "window option list \<Rightarrow> nat list \<Rightarrow> window list \<times> window option \<Rightarrow> (window list \<times> window option) option" where
  "paint_slots slots =
     foldM (\<lambda>i (drawn, focused). do {
       slot \<leftarrow> get slots i;
       case slot of
         None \<Rightarrow> None
       | Some w \<Rightarrow>
           if \<not> is_visible w \<or> is_focused w
           then Some (drawn, if is_focused w then Some w else None)
           else Some (drawn @ [w], focused) })"

definition composite_order :: "wm \<Rightarrow> window list option" where
  "composite_order s =
     (if window_count s = 0 then Some []
      else do {
        (drawn, focused) \<leftarrow>
          paint_slots (sort_windows (windows s)) [0..<unat (window_count s)] ([], None);
        Some (drawn @ (case focused of None \<Rightarrow> [] | Some w \<Rightarrow> [w]))
      })"

text \<open>Drawing into a window: below the \<open>HEADER_OFFSET\<close> rows of the title bar.\<close>

definition window_put_pixel :: "int \<Rightarrow> int \<Rightarrow> u8 \<Rightarrow> window \<Rightarrow> window option" where
  "window_put_pixel x y color w =
     (if (word_of_int x :: u32) \<ge> w_width w \<or> x < 0 \<or> (word_of_int y :: u32) \<ge> w_height w \<or> y < 0
      then Some w
      else do {
        p \<leftarrow> put (pixels w)
          (unat ((word_of_int y + HEADER_OFFSET) * w_width w + word_of_int x :: u32)) color;
        Some (w\<lparr>pixels := p\<rparr>)
      })"

definition fill_row :: "u32 \<Rightarrow> nat \<Rightarrow> u8 \<Rightarrow> window \<Rightarrow> window option" where
  "fill_row offset n color w =
     (if unat offset \<le> length (pixels w) then do {
        d \<leftarrow> memset (drop (unat offset) (pixels w)) color n;
        Some (w\<lparr>pixels := take (unat offset) (pixels w) @ d\<rparr>)
      } else None)"

definition window_draw_rect :: "int \<Rightarrow> int \<Rightarrow> int \<Rightarrow> int \<Rightarrow> u8 \<Rightarrow> window \<Rightarrow> window option" where
  "window_draw_rect x y w h color window =
     (let x0 = (if x < 0 then 0 else x);
          y0 = (if y < 0 then 0 else y);
          x1 = (if wrap32 (x + w) > sint (w_width window) then sint (w_width window) else wrap32 (x + w));
          y1 = (if wrap32 (y + h) > sint (w_height window) then sint (w_height window) else wrap32 (y + h));
          clipped_w = wrap32 (x1 - x0)
      in if clipped_w \<le> 0 \<or> y0 \<ge> y1 then Some window
         else foldM (\<lambda>row. fill_row ((word_of_int row + HEADER_OFFSET) * w_width window + word_of_int x0)
                (nat clipped_w) color) [y0..y1 - 1] window)"

definition window_draw_line :: "int \<Rightarrow> int \<Rightarrow> int \<Rightarrow> int \<Rightarrow> u8 \<Rightarrow> window \<Rightarrow> window option" where
  "window_draw_line = draw_line window_put_pixel"

text \<open>\<^verbatim>\<open>char\<close> is signed: characters from 128 on are negative and are not drawn.\<close>

definition window_draw_char :: "int \<Rightarrow> int \<Rightarrow> u8 \<Rightarrow> u8 \<Rightarrow> window \<Rightarrow> window option" where
  "window_draw_char x y c color w =
     (if sint c < 32 then Some w
      else do { glyph \<leftarrow> glyph_of c; draw_glyph window_put_pixel glyph x y color w })"

fun window_draw_string :: "int \<Rightarrow> int \<Rightarrow> u8 list \<Rightarrow> u8 \<Rightarrow> nat \<Rightarrow> window \<Rightarrow> window option" where
  "window_draw_string x y [] color i w = None"
| "window_draw_string x y (c # str) color i w =
     (if c = 0 then Some w
      else do {
        w \<leftarrow> window_draw_char (wrap32 (x + int i * uint font_spacing)) y c color w;
        window_draw_string x y str color (Suc i) w
      })"

fun update_first :: "('a \<Rightarrow> bool) \<Rightarrow> ('a \<Rightarrow> 'a option) \<Rightarrow> 'a list \<Rightarrow> 'a list option" where
  "update_first P f [] = Some []"
| "update_first P f (x # xs) =
     (if P x then do { x \<leftarrow> f x; Some (x # xs) } else do { xs \<leftarrow> update_first P f xs; Some (x # xs) })"

text \<open>The event on the stack starts with whatever \<open>stale\<close> values are there.\<close>

definition fill_event :: "event_type \<Rightarrow> u8 \<Rightarrow> u8 \<Rightarrow> u8 \<Rightarrow> int \<Rightarrow> int \<Rightarrow> event \<Rightarrow> event" where
  "fill_event type scancode c mouse_button mx my stale =
     (let event = stale\<lparr>ev_type := type\<rparr> in
      case type of
        EVENT_KEYPRESS \<Rightarrow> event\<lparr>keyboard_scancode := scancode, ev_c := c\<rparr>
      | EVENT_MOUSE_MOVE \<Rightarrow> event\<lparr>ev_mouse_button := mouse_button, ev_mouse_x := mx, ev_mouse_y := my\<rparr>
      | EVENT_MOUSE_CLICK \<Rightarrow> event\<lparr>ev_mouse_button := mouse_button, ev_mouse_x := mx, ev_mouse_y := my\<rparr>
      | EVENT_KEYRELEASE \<Rightarrow> event)"

definition update_focused_window ::
  "event_type \<Rightarrow> u8 \<Rightarrow> u8 \<Rightarrow> u8 \<Rightarrow> int \<Rightarrow> int \<Rightarrow> event \<Rightarrow> wm \<Rightarrow> wm option" where
  "update_focused_window type scancode c mouse_button mx my stale s =
     do {
       ws \<leftarrow> update_first is_focused (\<lambda>w. do {
           q \<leftarrow> event_queue_push (fill_event type scancode c mouse_button mx my stale) (w_events w);
           Some (w\<lparr>w_events := q\<rparr>) }) (windows s);
       Some (s\<lparr>windows := ws\<rparr>)
     }"

definition over_close_button :: "int \<Rightarrow> int \<Rightarrow> window \<Rightarrow> bool" where
  "over_close_button px py w =
     point_in_rect px py (wrap32 (w_x w + uint (w_width w) - uint CLOSE_BTN_W)) (w_y w)
       (sint CLOSE_BTN_W) (sint HEADER_OFFSET)"

definition over_window :: "int \<Rightarrow> int \<Rightarrow> window \<Rightarrow> bool" where
  "over_window px py w =
     point_in_rect px py (w_x w) (w_y w) (sint (w_width w)) (sint (w_height w + HEADER_OFFSET))"

definition drag_window :: "mouse \<Rightarrow> window \<Rightarrow> window" where
  "drag_window m w =
     (if \<not> is_dragging w then w
      else if mouse_buttons m AND 1 = 0 then w\<lparr>is_dragging := False\<rparr>
      else w\<lparr>w_x := wrap32 (mouse_x m - drag_offset_x m), w_y := wrap32 (mouse_y m - drag_offset_y m)\<rparr>)"

definition update_window_drag :: "wm \<Rightarrow> mouse \<Rightarrow> wm \<times> mouse" where
  "update_window_drag s m =
     (s\<lparr>windows := map (drag_window m) (windows s)\<rparr>,
      foldl (\<lambda>m w. m\<lparr>current_cursor :=
          (if over_close_button (prev_mouse_x m) (prev_mouse_y m) w then CURSOR_POINTER else CURSOR_ARROW)\<rparr>)
        m (windows s))"

fun top_window :: "(window \<Rightarrow> bool) \<Rightarrow> window list \<Rightarrow> nat \<Rightarrow> u32 \<Rightarrow> nat option \<Rightarrow> nat option" where
  "top_window hit [] i top_z clicked = clicked"
| "top_window hit (w # ws) i top_z clicked =
     (if \<not> hit w then top_window hit ws (Suc i) top_z clicked
      else if z_index w \<ge> top_z then top_window hit ws (Suc i) (z_index w) (Some i)
      else top_window hit ws (Suc i) top_z clicked)"

text \<open>The loop that brings the clicked window to the front, and the two assignments after it.\<close>

definition raise_window :: "nat \<Rightarrow> wm \<Rightarrow> wm" where
  "raise_window i s =
     (let ws = map (\<lambda>w. (lower_above (z_index (windows s ! i)) w)\<lparr>is_focused := False\<rparr>) (windows s)
      in s\<lparr>windows := ws[i := (ws ! i)\<lparr>is_focused := True, z_index := window_z_index s - 1\<rparr>]\<rparr>)"

definition update_window_click :: "event \<Rightarrow> wm \<Rightarrow> mouse \<Rightarrow> (wm \<times> mouse) option" where
  "update_window_click stale s m =
     (case top_window (over_window (prev_mouse_x m) (prev_mouse_y m)) (windows s) 0 0 None of
        None \<Rightarrow> Some (s, m)
      | Some i \<Rightarrow>
          let s = raise_window i s; clicked = windows s ! i in
          if over_close_button (prev_mouse_x m) (prev_mouse_y m) clicked then
            do { s \<leftarrow> remove_window (window_id clicked) s; Some (s, m) }
          else do {
            let (s, m) =
              (if prev_mouse_y m < wrap32 (w_y clicked + uint HEADER_OFFSET) then
                 (s\<lparr>windows := (windows s)[i := clicked\<lparr>is_dragging := True\<rparr>]\<rparr>,
                  m\<lparr>drag_offset_x := wrap32 (prev_mouse_x m - w_x clicked),
                    drag_offset_y := wrap32 (prev_mouse_y m - w_y clicked)\<rparr>)
               else (s, m));
            s \<leftarrow> update_focused_window EVENT_MOUSE_CLICK 0 0 (mouse_buttons m)
              (wrap32 (mouse_x m - w_x clicked)) (wrap32 (mouse_y m - w_y clicked)) stale s;
            Some (s, m)
          })"

section \<open>The stacking order\<close>

text \<open>
  The z indices of \<open>n\<close> windows are the numbers from 1 to \<open>n\<close>, each once, and
  \<^verbatim>\<open>window_z_index\<close> is the next one. Every window is visible and at most one is focused.
\<close>

definition ranked :: "nat list \<Rightarrow> bool" where
  "ranked zs \<longleftrightarrow> distinct zs \<and> set zs = {1..length zs}"

definition z_of :: "window \<Rightarrow> nat" where
  "z_of w = unat (z_index w)"

definition stacked :: "wm \<Rightarrow> bool" where
  "stacked s \<longleftrightarrow> ranked (map z_of (windows s)) \<and> unat (window_z_index s) = length (windows s) + 1
     \<and> (\<forall>w \<in> set (windows s). is_visible w) \<and> length (filter is_focused (windows s)) \<le> 1"

definition close_up :: "nat \<Rightarrow> nat \<Rightarrow> nat" where
  "close_up k z = (if z > k then z - 1 else z)"

lemma close_up_bij: "k \<in> {1..n} \<Longrightarrow> bij_betw (close_up k) ({1..n} - {k}) {1..n - 1}"
  by (rule bij_betw_byWitness [where f' = "\<lambda>z. if z \<ge> k then z + 1 else z"])
    (auto simp: close_up_def)

lemma ranked_snoc: "ranked zs \<Longrightarrow> ranked (zs @ [Suc (length zs)])"
  by (auto simp: ranked_def)

lemma ranked_without:
  assumes "ranked (as @ k # bs)"
  shows "k \<in> {1..Suc (length as + length bs)}"
    and "distinct (as @ bs)" "set (as @ bs) = {1..Suc (length as + length bs)} - {k}"
  using assms by (auto simp: ranked_def)

lemma ranked_close:
  assumes "ranked (as @ k # bs)"
  shows "ranked (map (close_up k) (as @ bs))"
proof -
  note w = ranked_without [OF assms]
  have b: "bij_betw (close_up k) (set (as @ bs)) {1..length as + length bs}"
    using close_up_bij [OF w(1)] w(3) by simp
  then have "distinct (map (close_up k) (as @ bs))"
    using w(2) by (simp only: distinct_map bij_betw_def)
  moreover have "set (map (close_up k) (as @ bs)) = {1..length as + length bs}"
    using b by (simp only: set_map bij_betw_def)
  ultimately show ?thesis by (simp only: ranked_def length_map length_append)
qed

lemma ranked_raise:
  assumes "ranked (as @ k # bs)"
  shows "ranked (map (close_up k) as @ Suc (length as + length bs) # map (close_up k) bs)"
  using ranked_snoc [OF ranked_close [OF assms]] by (auto simp: ranked_def)

lemma z_of_lower [simp]: "z_of (lower_above k w) = close_up (unat k) (z_of w)"
proof (cases "k < z_index w")
  case True
  then have "1 \<le> z_index w" unfolding word_less_nat_alt word_le_nat_alt by simp
  with True show ?thesis
    by (simp add: z_of_def lower_above_def close_up_def unat_minus32 word_less_nat_alt)
next
  case False
  then show ?thesis by (simp add: z_of_def lower_above_def close_up_def word_less_nat_alt)
qed

lemma lower_above_rest [simp]:
  "is_visible (lower_above k w) = is_visible w" "is_focused (lower_above k w) = is_focused w"
  "window_id (lower_above k w) = window_id w"
  by (simp_all add: lower_above_def)

lemma find_split:
  "find P xs = Some x \<Longrightarrow> \<exists>as bs. xs = as @ x # bs \<and> drop_first P xs = as @ bs \<and> P x"
proof (induction xs)
  case (Cons y ys)
  show ?case
  proof (cases "P y")
    case False
    then obtain as bs where "ys = as @ x # bs \<and> drop_first P ys = as @ bs \<and> P x" using Cons by auto
    then have "y # ys = (y # as) @ x # bs \<and> drop_first P (y # ys) = (y # as) @ bs \<and> P x"
      using False by auto
    then show ?thesis by blast
  next
    case True
    then have "y # ys = [] @ x # ys \<and> drop_first P (y # ys) = [] @ ys \<and> P x" using Cons.prems by simp
    then show ?thesis by blast
  qed
qed simp

lemma create_stacked [inv_kept]:
  assumes "stacked s" "length (windows s) < 2 ^ 31" "wm_create_window x y wd h t pid s = Some (w, s')"
  shows "stacked s'"
proof -
  have s': "windows s' = windows s @ [w]" "z_index w = window_z_index s"
      "window_z_index s' = window_z_index s + 1" "is_visible w" "\<not> is_focused w"
    using assms(3) by (auto simp: wm_create_window_def Let_def split: bind_splits if_splits)
  have "unat (window_z_index s') = Suc (unat (window_z_index s))"
    unfolding s'(3) using assms(1,2) by (subst unat_plus32) (simp_all add: stacked_def)
  then show ?thesis
    using assms(1) ranked_snoc [of "map z_of (windows s)"] s'
    by (auto simp: stacked_def z_of_def [of w])
qed

lemma remove_stacked [inv_kept]:
  assumes "stacked s" "remove_window wid s = Some s'"
  shows "stacked s'"
proof (cases "get_window wid s")
  case None
  then show ?thesis using assms by (simp add: remove_window_def)
next
  case (Some w)
  obtain as bs where ws: "windows s = as @ w # bs"
      "drop_first (\<lambda>w. window_id w = wid) (windows s) = as @ bs"
    using find_split [OF Some [unfolded get_window_def]] by auto
  have s': "windows s' = map (lower_above (z_index w)) (as @ bs)"
      "window_z_index s' = window_z_index s - 1"
    using assms(2) Some ws by (auto simp: remove_window_def Let_def split: bind_splits)
  have "1 \<le> window_z_index s" using assms(1) by (auto simp: stacked_def word_le_nat_alt)
  then have "unat (window_z_index s') = length (windows s') + 1"
    using assms(1) by (simp add: s' ws stacked_def unat_minus32)
  moreover have "ranked (map z_of as @ z_of w # map z_of bs)"
    using assms(1) by (simp add: stacked_def ws)
  from ranked_close [OF this] have "ranked (map z_of (windows s'))"
    by (simp add: s' o_def z_of_def [of w])
  moreover have "\<forall>w \<in> set (windows s'). is_visible w"
    using assms(1) by (auto simp: s' ws stacked_def)
  moreover have "length (filter is_focused (windows s')) \<le> length (filter is_focused (windows s))"
    by (simp add: s' ws filter_map o_def)
  ultimately show ?thesis using assms(1) unfolding stacked_def by linarith
qed

lemma raise_stacked [inv_kept]:
  assumes "stacked s" "i < length (windows s)"
  shows "stacked (raise_window i s)"
proof -
  define w as bs where "w = windows s ! i" and "as = take i (windows s)" and "bs = drop (Suc i) (windows s)"
  have ws: "windows s = as @ w # bs" and i: "i = length as"
    using assms(2) by (simp_all add: w_def as_def bs_def id_take_nth_drop)
  let ?f = "\<lambda>v. (lower_above (z_index w) v)\<lparr>is_focused := False\<rparr>"
  define w' where "w' = (?f w)\<lparr>is_focused := True, z_index := window_z_index s - 1\<rparr>"
  have s': "windows (raise_window i s) = map ?f as @ w' # map ?f bs"
    by (simp add: raise_window_def Let_def ws i nth_append list_update_append w'_def)
  have zf: "z_of (?f v) = close_up (z_of w) (z_of v)" for v
    using z_of_lower [of "z_index w" v] by (simp add: z_of_def)
  have n: "unat (window_z_index s) = Suc (Suc (length as + length bs))"
    using assms(1) by (simp add: stacked_def ws)
  then have zw: "z_of w' = Suc (length as + length bs)"
    by (simp add: z_of_def w'_def unat_minus32 word_le_nat_alt)
  have "ranked (map z_of as @ z_of w # map z_of bs)"
    using assms(1) by (simp add: stacked_def ws)
  from ranked_raise [OF this] have r: "ranked (map z_of (windows (raise_window i s)))"
    by (simp add: s' o_def zf zw)
  have "\<forall>v \<in> set (windows (raise_window i s)). is_visible v"
    using assms(1) by (auto simp: s' ws w'_def stacked_def)
  moreover have "filter is_focused (map ?f vs) = []" for vs by (simp add: filter_map o_def)
  then have "length (filter is_focused (windows (raise_window i s))) \<le> 1"
    unfolding s' filter_append by simp
  moreover have "window_z_index (raise_window i s) = window_z_index s"
    by (simp add: raise_window_def Let_def)
  ultimately show ?thesis using r n unfolding stacked_def s' by simp
qed

lemma update_first_parts:
  "update_first P f xs = Some ys \<Longrightarrow> (\<And>x y. f x = Some y \<Longrightarrow> g y = g x) \<Longrightarrow> map g ys = map g xs"
  by (induction xs arbitrary: ys) (auto split: if_splits bind_splits)

text \<open>What the invariant reads of a window.\<close>

definition shape :: "window \<Rightarrow> u32 \<times> bool \<times> bool" where
  "shape w = (z_index w, is_visible w, is_focused w)"

lemma shapes_stacked:
  assumes "stacked s" "map shape (windows s') = map shape (windows s)"
    "window_z_index s' = window_z_index s"
  shows "stacked s'"
proof -
  let ?f = "\<lambda>(z, v, g). g :: bool" and ?v = "\<lambda>(z, v, g). v :: bool" and ?z = "\<lambda>(z :: u32, v, g). unat z"
  have len: "length (windows s') = length (windows s)" using assms(2) by (rule map_eq_imp_length_eq)
  have zs: "map z_of (windows t) = map ?z (map shape (windows t))" for t
    by (simp add: z_of_def shape_def o_def)
  have vis: "(\<forall>w \<in> set (windows t). is_visible w) \<longleftrightarrow> list_all ?v (map shape (windows t))" for t
    by (simp add: shape_def o_def list_all_iff)
  have foc: "length (filter is_focused (windows t)) = length (filter ?f (map shape (windows t)))" for t
    by (simp add: filter_map o_def shape_def)
  show ?thesis using assms(1) unfolding stacked_def zs vis foc len assms(2,3) .
qed

lemma focused_stacked [inv_kept]:
  assumes "stacked s" "update_focused_window type sc c b mx my stale s = Some s'"
  shows "stacked s'"
proof (rule shapes_stacked [OF assms(1)])
  show "map shape (windows s') = map shape (windows s)"
    using assms(2) unfolding update_focused_window_def
    by (auto split: bind_splits elim!: update_first_parts simp: shape_def)
  show "window_z_index s' = window_z_index s"
    using assms(2) by (auto simp: update_focused_window_def split: bind_splits)
qed

lemma drag_stacked [inv_kept]:
  assumes "stacked s"
  shows "stacked (fst (update_window_drag s m))"
  by (rule shapes_stacked [OF assms]) (simp_all add: update_window_drag_def drag_window_def shape_def)

lemma top_window_range:
  assumes "top_window hit ws i z c = Some k"
  shows "c = Some k \<or> i \<le> k \<and> k < i + length ws \<and> hit (ws ! (k - i))"
  using assms
proof (induction ws arbitrary: i z c)
  case (Cons w ws)
  have "c = Some k \<or> k = i \<and> hit w \<or> Suc i \<le> k \<and> k < Suc i + length ws \<and> hit (ws ! (k - Suc i))"
    using Cons by (fastforce split: if_splits)
  then show ?case by (auto simp: nth_Cons' Suc_diff_Suc)
qed simp

lemma click_stacked [inv_kept]:
  assumes "stacked s" "update_window_click stale s m = Some (s', m')"
  shows "stacked s'"
proof (cases "top_window (over_window (prev_mouse_x m) (prev_mouse_y m)) (windows s) 0 0 None")
  case None
  then show ?thesis using assms by (simp add: update_window_click_def)
next
  case (Some i)
  then have "i < length (windows s)" using top_window_range by fastforce
  note r = raise_stacked [OF assms(1) this]
  let ?t = "raise_window i s"
  have d: "stacked (?t\<lparr>windows := (windows ?t)[i := (windows ?t ! i)\<lparr>is_dragging := True\<rparr>]\<rparr>)"
  proof (rule shapes_stacked [OF r])
    let ?w = "(windows ?t ! i)\<lparr>is_dragging := True\<rparr>"
    have "shape ?w = map shape (windows ?t) ! i"
      using \<open>i < length (windows s)\<close> by (simp add: shape_def raise_window_def Let_def)
    then show "map shape (windows (?t\<lparr>windows := (windows ?t)[i := ?w]\<rparr>)) = map shape (windows ?t)"
      by (simp add: map_update)
  qed simp
  show ?thesis
    using assms(2) r d remove_stacked [OF r] focused_stacked [OF r] focused_stacked [OF d]
    unfolding update_window_click_def Some Let_def
    by (auto split: if_splits bind_splits)
qed

lemma process_stacked [inv_kept]:
  assumes "stacked s" "remove_window_process pid s = Some s'"
  shows "stacked s'"
proof -
  have "stacked t \<Longrightarrow> foldM (\<lambda>w s. if w_pid w = pid then remove_window (window_id w) s else Some s) ws t
      = Some t' \<Longrightarrow> stacked t'" for ws t t'
    by (induction ws arbitrary: t) (auto split: if_splits bind_splits intro: remove_stacked)
  then show ?thesis using assms unfolding remove_window_process_def by blast
qed

text \<open>
  The operations of the window manager as a transition system. The heap holds fewer than
  \<open>2 ^ 31\<close> windows, so the guard of \<open>wm_create\<close> only keeps the counter from wrapping.
\<close>

inductive wm_step :: "wm \<Rightarrow> wm \<Rightarrow> bool" where
  wm_create: "length (windows s) < 2 ^ 31 \<Longrightarrow> wm_create_window x y wd h t pid s = Some (w, s') \<Longrightarrow> wm_step s s'"
| wm_remove: "remove_window wid s = Some s' \<Longrightarrow> wm_step s s'"
| wm_process: "remove_window_process pid s = Some s' \<Longrightarrow> wm_step s s'"
| wm_event: "update_focused_window type sc c b mx my stale s = Some s' \<Longrightarrow> wm_step s s'"
| wm_drag: "s' = fst (update_window_drag s m) \<Longrightarrow> wm_step s s'"
| wm_click: "update_window_click stale s m = Some (s', m') \<Longrightarrow> wm_step s s'"

inductive_cases wm_stepE: "wm_step s s'"

definition wm_start :: "kheap \<Rightarrow> wm" where
  "wm_start h = \<lparr>wm_heap = h, windows = [], wm_dirty = False, window_z_index = 1, next_window_id = 1\<rparr>"

interpretation desk: invariant_system "\<lambda>s. \<exists>h. s = wm_start h" wm_step stacked
proof unfold_locales
  fix s assume "\<exists>h. s = wm_start h"
  then show "stacked s" by (auto simp: wm_start_def stacked_def ranked_def)
next
  fix s t assume "stacked s" "wm_step s t"
  from this(2, 1) show "stacked t"
  proof cases
    case wm_drag
    then show ?thesis using drag_stacked \<open>stacked s\<close> by simp
  qed (rule create_stacked remove_stacked process_stacked focused_stacked click_stacked; assumption)+
qed

text \<open>C20: 
  After any sequence of creating, closing, clicking and dragging windows the z indices of the
  \<open>n\<close> windows are the numbers from 1 to \<open>n\<close>, the counter is \<open>n + 1\<close>, every window is visible and at
  most one has the focus.
\<close>

theorem windows_stay_stacked:
  assumes "reach (\<lambda>s. \<exists>h. s = wm_start h) wm_step s"
  shows "distinct (map (\<lambda>w. unat (z_index w)) (windows s))
    \<and> (\<lambda>w. unat (z_index w)) ` set (windows s) = {1..length (windows s)}
    \<and> unat (window_z_index s) = length (windows s) + 1
    \<and> (\<forall>w \<in> set (windows s). is_visible w) \<and> length (filter is_focused (windows s)) \<le> 1"
proof -
  have s: "stacked s" by (rule desk.reach_inv [OF assms])
  have z: "(\<lambda>w. unat (z_index w)) = z_of" by (simp add: z_of_def [abs_def])
  show ?thesis unfolding z using s by (simp add: stacked_def ranked_def)
qed

lemma title_buffer: "strcpy (replicate 32 0) t = strcpy (0 # 0 # replicate 30 0) t"
  by (simp add: numeral_eq_Suc)

lemmas create_eval = title_buffer wm_create_window_def wm_start_def heap_eval sizeof_window_def HEADER_OFFSET_def
  STATUS_BAR_HEIGHT_def

theorem windows_stay_stacked_witness:
  "\<exists>s. reach (\<lambda>s. \<exists>h. s = wm_start h) wm_step s \<and> length (windows s) = 2
     \<and> (\<lambda>w. unat (z_index w)) ` set (windows s) = {1..2}"
proof -
  let ?s0 = "wm_start (init_heap boot_heap)"
  obtain w s where w: "wm_create_window 10 20 4 3 [65, 0] 7 ?s0 = Some (w, s)" "length (windows s) = 1"
    by (simp add: create_eval)
  obtain w' s' where w': "wm_create_window 10 20 4 3 [66, 0] 8 s = Some (w', s')" "length (windows s') = 2"
    using w by (auto simp: create_eval)
  have "reach (\<lambda>s. \<exists>h. s = wm_start h) wm_step s'"
  proof (rule reach_step [OF reach_step [OF reach_init]])
    show "\<exists>h. ?s0 = wm_start h" by blast
    show "wm_step ?s0 s" by (rule wm_create [OF _ w(1)]) (simp add: wm_start_def)
    show "wm_step s s'" by (rule wm_create [OF _ w'(1)]) (simp add: w(2))
  qed
  from this windows_stay_stacked [OF this] w'(2) show ?thesis by auto
qed

section \<open>The order of painting\<close>

definition by_z :: "window list \<Rightarrow> window list" where
  "by_z ws = sort_key z_of ws"

lemma by_z_nth:
  assumes "ranked (map z_of ws)" "i < length ws"
  shows "by_z ws ! i \<in> set ws" "z_of (by_z ws ! i) = Suc i"
proof -
  let ?zs = "map z_of (by_z ws)"
  have "sorted ?zs" "distinct ?zs" "set ?zs = {1..length ws}"
    using assms(1) by (auto simp: by_z_def ranked_def distinct_map)
  then have "?zs = [1..<Suc (length ws)]"
    by (intro sorted_distinct_set_unique) (auto simp del: upt_Suc)
  then have "?zs ! i = Suc i" using assms(2) by (simp del: upt_Suc)
  then show "z_of (by_z ws ! i) = Suc i" using assms(2) by (simp add: by_z_def)
  have "by_z ws ! i \<in> set (by_z ws)" using assms(2) by (intro nth_mem) (simp add: by_z_def)
  then show "by_z ws ! i \<in> set ws" by (simp add: by_z_def)
qed

lemma sort_windows_length: "length (sort_windows ws) = MAX_WINDOWS"
  by (induction ws rule: rev_induct) (simp_all add: sort_windows_def)

lemma sort_windows_nth:
  assumes "distinct (map z_of ws)" "w \<in> set ws" "z_of w = Suc i" "i < MAX_WINDOWS"
  shows "sort_windows ws ! i = Some w"
  using assms
proof (induction ws rule: rev_induct)
  case (snoc v ws)
  let ?put = "\<lambda>slots. if z_index v > 0 \<and> unat (z_index v) \<le> MAX_WINDOWS
       then slots[unat (z_index v) - 1 := Some v] else slots"
  have eq: "sort_windows (ws @ [v]) = ?put (sort_windows ws)" by (simp add: sort_windows_def)
  show ?case
  proof (cases "w = v")
    case True
    then show ?thesis using snoc.prems(3,4) sort_windows_length [of ws]
      by (simp add: eq z_of_def word_greater_zero_iff flip: unat_gt_0)
  next
    case False
    then have w: "w \<in> set ws" "z_of v \<noteq> Suc i" using snoc.prems(1-3) by force+
    then have "sort_windows ws ! i = Some w" using snoc by simp
    moreover have "0 < z_index v \<Longrightarrow> unat (z_index v) - 1 \<noteq> i"
      using w(2) unfolding z_of_def word_less_nat_alt by simp
    ultimately show ?thesis by (simp add: eq)
  qed
qed simp

lemma paint_slots_prefix:
  assumes "\<forall>i < k. i < length slots \<and> slots ! i = Some (ss ! i)" "k \<le> length ss" "\<forall>w \<in> set ss. is_visible w"
  shows "paint_slots slots [0..<k] ([], None)
    = Some (filter (\<lambda>w. \<not> is_focused w) (take k ss),
        (let fs = filter is_focused (take k ss) in if fs = [] then None else Some (last fs)))"
  using assms(1,2)
proof (induction k)
  case (Suc k)
  have "paint_slots slots [0..<k] ([], None) = Some (filter (\<lambda>w. \<not> is_focused w) (take k ss),
      (let fs = filter is_focused (take k ss) in if fs = [] then None else Some (last fs)))"
    using Suc by simp
  moreover have "take (Suc k) ss = take k ss @ [ss ! k]" using Suc.prems(2) by (simp add: take_Suc_conv_app_nth)
  moreover have "is_visible (ss ! k)" using Suc.prems(2) assms(3) by simp
  ultimately show ?case using Suc.prems by (simp add: paint_slots_def get_def)
qed (simp add: paint_slots_def)

text \<open>
  The compositor draws every window exactly once, from the lowest to the highest, the focused
  one last, as long as there are at most 32.
\<close>

theorem composite_order_by_z:
  assumes "stacked s" "length (windows s) \<le> MAX_WINDOWS"
  shows "composite_order s = Some (filter (\<lambda>w. \<not> is_focused w) (sort_key (\<lambda>w. unat (z_index w)) (windows s))
    @ filter is_focused (windows s))"
proof -
  let ?ws = "windows s" and ?ss = "by_z (windows s)"
  have r: "ranked (map z_of ?ws)" and vis: "\<forall>w \<in> set ?ss. is_visible w"
    and one: "length (filter is_focused ?ws) \<le> 1"
    using assms(1) by (auto simp: stacked_def by_z_def)
  have slots: "i < length (sort_windows ?ws) \<and> sort_windows ?ws ! i = Some (?ss ! i)"
    if "i < length ?ws" for i
    using sort_windows_nth [of ?ws "?ss ! i" i] by_z_nth [OF r that] r that assms(2) sort_windows_length
    by (simp add: ranked_def)
  have len: "length ?ss = length ?ws" by (simp add: by_z_def)
  have cnt: "unat (window_count s) = length ?ws"
    using assms(2) by (simp add: window_count_def MAX_WINDOWS_def)
  have foc: "filter is_focused ?ss = filter is_focused ?ws"
    using one by (cases "filter is_focused ?ws") (simp_all add: by_z_def filter_sort)
  show ?thesis
  proof (cases "?ws = []")
    case True
    then show ?thesis by (simp add: composite_order_def window_count_def)
  next
    case False
    then have "window_count s \<noteq> 0" using cnt by auto
    moreover have "paint_slots (sort_windows ?ws) [0..<length ?ws] ([], None)
        = Some (filter (\<lambda>w. \<not> is_focused w) ?ss,
            (let fs = filter is_focused ?ws in if fs = [] then None else Some (last fs)))"
      using paint_slots_prefix [of "length ?ws" "sort_windows ?ws" ?ss] slots vis len foc by simp
    ultimately show ?thesis using one
      by (cases "filter is_focused ?ws")
        (simp_all add: composite_order_def cnt Let_def by_z_def z_of_def [abs_def])
  qed
qed

definition demo_window :: "u32 \<Rightarrow> bool \<Rightarrow> window" where
  "demo_window z focus = \<lparr>w_addr = 0x100000 + z * 0x1000, window_id = z, w_x = 0, w_y = 30, w_width = 2,
     w_height = 1, pixel_buffer = 0x200000 + z * 0x1000, pixels = replicate 52 0,
     title = 65 # replicate 31 0, w_pid = z, z_index = z, is_visible = True, is_focused = focus,
     is_dragging = False, w_events = zero_queue\<rparr>"

definition demo_desk :: wm where
  "demo_desk = (wm_start boot_heap)\<lparr>windows := [demo_window 2 True, demo_window 3 False, demo_window 1 False],
     window_z_index := 4, next_window_id := 4\<rparr>"

theorem composite_order_by_z_witness:
  "composite_order demo_desk = Some [demo_window 1 False, demo_window 3 False, demo_window 2 True]"
proof -
  have "stacked demo_desk" "length (windows demo_desk) \<le> MAX_WINDOWS"
    by (auto simp: stacked_def ranked_def demo_desk_def demo_window_def wm_start_def z_of_def MAX_WINDOWS_def
        atLeastAtMost_insertL [symmetric] simp flip: atLeastLessThanSuc_atLeastAtMost)
  from composite_order_by_z [OF this] show ?thesis
    by (simp add: demo_desk_def demo_window_def)
qed

text \<open>
  With more than 32 windows the compositor reads past the end of its array, although the loop
  that fills the array takes care not to write there.
\<close>

theorem composite_too_many_windows:
  assumes "MAX_WINDOWS < length (windows s)" "length (windows s) < 2 ^ 32"
  shows "composite_order s = None"
proof -
  have cnt: "unat (window_count s) = length (windows s)"
    using assms(2) by (simp add: window_count_def)
  then have "window_count s \<noteq> 0" using assms(1) by auto
  moreover have "[0..<length (windows s)] = [0..<MAX_WINDOWS] @ MAX_WINDOWS # [Suc MAX_WINDOWS..<length (windows s)]"
    using assms(1) upt_add_eq_append [of 0 MAX_WINDOWS "length (windows s) - MAX_WINDOWS"]
    by (simp add: upt_conv_Cons)
  then have "paint_slots (sort_windows (windows s)) [0..<length (windows s)] ([], None) = None"
    by (simp add: paint_slots_def get_def sort_windows_length split: bind_splits)
  ultimately show ?thesis by (simp add: composite_order_def cnt)
qed

theorem composite_too_many_windows_witness:
  "composite_order (demo_desk\<lparr>windows := map (\<lambda>i. demo_window (of_nat i) False) [1..<34]\<rparr>) = None"
  by (rule composite_too_many_windows) (simp_all add: MAX_WINDOWS_def)

section \<open>Drawing into a window\<close>

definition win_ok :: "window \<Rightarrow> bool" where
  "win_ok w \<longleftrightarrow> unat (w_width w) * (unat (w_height w) + 25) < 2 ^ 31
     \<and> length (pixels w) = unat (w_width w) * (unat (w_height w) + 25)"

definition win_inside :: "window \<Rightarrow> int \<Rightarrow> int \<Rightarrow> bool" where
  "win_inside w x y \<longleftrightarrow> 0 \<le> x \<and> nat x < unat (w_width w) \<and> 0 \<le> y \<and> nat y < unat (w_height w)"

definition win_pixel :: "window \<Rightarrow> int \<Rightarrow> int \<Rightarrow> u8" where
  "win_pixel w x y = pixels w ! ((nat y + 25) * unat (w_width w) + nat x)"

lemma win_index:
  assumes "win_ok w" "win_inside w x y"
  shows "unat ((word_of_int y + HEADER_OFFSET) * w_width w + word_of_int x :: u32)
      = (nat y + 25) * unat (w_width w) + nat x"
    and "(nat y + 25) * unat (w_width w) + nat x < length (pixels w)"
proof -
  define W H where "W = unat (w_width w)" and "H = unat (w_height w)"
  have xy: "0 \<le> x" "nat x < W" "0 \<le> y" "nat y < H" using assms(2) by (auto simp: win_inside_def W_def H_def)
  have len: "length (pixels w) = W * (H + 25)" "W * (H + 25) < 2 ^ 31"
    using assms(1) by (auto simp: win_ok_def W_def H_def)
  show lt: "(nat y + 25) * unat (w_width w) + nat x < length (pixels w)"
    using pixel_index_bound [of "nat x" W "nat y + 25" "H + 25"] xy by (simp add: len W_def)
  have b: "(nat y + 25) * W + nat x < 2 ^ 31" using lt len unfolding W_def by linarith
  have "W < 4294967296" "H < 4294967296" unfolding W_def H_def by (rule unat_lt32)+
  then have ux: "unat (word_of_int x :: u32) = nat x" and uy: "unat (word_of_int y :: u32) = nat y"
    using xy by (auto intro!: unat_u32_of)
  have "nat y + 25 \<le> (nat y + 25) * W" using xy(2) by simp
  then have "nat y + 25 < 2 ^ 31" using b by linarith
  then have "nat y + 25 < 2 ^ 32" by simp
  then have "unat (word_of_int y + HEADER_OFFSET :: u32) = nat y + 25"
    using uy by (simp add: HEADER_OFFSET_def unat_plus32)
  moreover from this have "unat ((word_of_int y + HEADER_OFFSET) * w_width w :: u32) = (nat y + 25) * W"
    using b by (simp add: unat_times32 W_def)
  ultimately show "unat ((word_of_int y + HEADER_OFFSET) * w_width w + word_of_int x :: u32)
      = (nat y + 25) * unat (w_width w) + nat x"
    using b ux by (simp add: unat_plus32 W_def)
qed

lemma win_visible_iff:
  assumes "c_int x" "c_int y"
  shows "(word_of_int x :: u32) \<ge> w_width w \<or> x < 0 \<or> (word_of_int y :: u32) \<ge> w_height w \<or> y < 0
    \<longleftrightarrow> \<not> win_inside w x y"
proof (cases "0 \<le> x \<and> 0 \<le> y")
  case True
  then show ?thesis using assms by (auto simp: win_inside_def word_le_nat_alt unat_u32_of c_int_def)
qed (auto simp: win_inside_def)

lemma win_pixel_set:
  assumes "win_ok w" "win_inside w x y" "win_inside w a b"
  shows "win_pixel (w\<lparr>pixels := (pixels w)[(nat y + 25) * unat (w_width w) + nat x := c]\<rparr>) a b
    = (if (a, b) = (x, y) then c else win_pixel w a b)"
proof -
  have "nat a < unat (w_width w)" "nat x < unat (w_width w)" using assms(2,3) by (auto simp: win_inside_def)
  then have "(nat b + 25) * unat (w_width w) + nat a = (nat y + 25) * unat (w_width w) + nat x
      \<longleftrightarrow> (a, b) = (x, y)"
    using pixel_index_inj [of "nat a" "unat (w_width w)" "nat x" "nat b + 25" "nat y + 25"] assms(2,3)
    by (auto simp: win_inside_def nat_eq_iff)
  then show ?thesis using win_index(2) [OF assms(1,2)] by (auto simp: win_pixel_def nth_list_update)
qed

interpretation wc: canvas window_put_pixel win_ok win_inside win_pixel
proof unfold_locales
  fix w x y c
  assume ok: "win_ok w" and c: "c_int x" "c_int y"
  show "\<exists>w'. window_put_pixel x y c w = Some w' \<and> win_ok w' \<and> win_inside w' = win_inside w
     \<and> (\<forall>a b. win_inside w a b \<longrightarrow> win_pixel w' a b = (if (a, b) = (x, y) then c else win_pixel w a b))"
  proof (cases "win_inside w x y")
    case False
    then have "window_put_pixel x y c w = Some w"
      using win_visible_iff [OF c, of w] by (simp add: window_put_pixel_def)
    then show ?thesis using ok False by auto
  next
    case True
    let ?w = "w\<lparr>pixels := (pixels w)[(nat y + 25) * unat (w_width w) + nat x := c]\<rparr>"
    have "window_put_pixel x y c w = Some ?w"
      unfolding window_put_pixel_def win_visible_iff [OF c, of w] win_index(1) [OF ok True]
      using True win_index(2) [OF ok True] by (simp add: put_def)
    moreover have "win_ok ?w" using ok by (simp add: win_ok_def)
    moreover have "win_inside ?w = win_inside w" by (intro ext) (simp add: win_inside_def)
    ultimately show ?thesis using win_pixel_set [OF ok True] by blast
  qed
qed

lemma wrap32_id: "c_int k \<Longrightarrow> wrap32 k = k"
  by (simp add: wrap32_def sint_of_c_int)

text \<open>One row of \<^verbatim>\<open>window_draw_rect\<close>.\<close>

lemma fill_row_paints:
  assumes "win_ok w" "0 \<le> x0" "x0 < x1" "x1 \<le> int (unat (w_width w))" "0 \<le> y" "y < int (unat (w_height w))"
  shows "\<exists>w'. fill_row ((word_of_int y + HEADER_OFFSET) * w_width w + word_of_int x0) (nat (x1 - x0)) c w = Some w'
    \<and> w_width w' = w_width w \<and> w_height w' = w_height w
    \<and> wc.painted {(a, b). x0 \<le> a \<and> a < x1 \<and> b = y} c w w'"
proof -
  define W where "W = unat (w_width w)"
  have x0: "win_inside w x0 y" and x1: "win_inside w (x1 - 1) y"
    using assms(2-6) by (auto simp: win_inside_def nat_less_iff)
  define off where "off = (nat y + 25) * W + nat x0"
  define n where "n = nat (x1 - x0)"
  have u: "unat ((word_of_int y + HEADER_OFFSET) * w_width w + word_of_int x0 :: u32) = off"
    using win_index(1) [OF assms(1) x0] by (simp add: off_def W_def)
  have le: "off + n \<le> length (pixels w)"
    using win_index(2) [OF assms(1) x1] assms(2,3) by (simp add: off_def n_def W_def nat_diff_distrib)
  define px' where "px' = take off (pixels w) @ replicate n c @ drop (off + n) (pixels w)"
  have row: "fill_row ((word_of_int y + HEADER_OFFSET) * w_width w + word_of_int x0) n c w
      = Some (w\<lparr>pixels := px'\<rparr>)"
    unfolding fill_row_def u using le by (simp add: memset_spec px'_def add.commute)
  have "win_pixel (w\<lparr>pixels := px'\<rparr>) a b = (if x0 \<le> a \<and> a < x1 \<and> b = y then c else win_pixel w a b)"
    if "win_inside w a b" for a b
  proof -
    let ?i = "(nat b + 25) * W + nat a"
    have i: "?i < length (pixels w)" using win_index(2) [OF assms(1) that] by (simp add: W_def)
    have ab: "0 \<le> a" "nat a < W" "0 \<le> b" using that by (auto simp: win_inside_def W_def)
    have "off \<le> ?i \<and> ?i < off + n \<longleftrightarrow> x0 \<le> a \<and> a < x1 \<and> b = y"
    proof (cases "nat b = nat y")
      case True
      then show ?thesis using ab assms(2,3,5) by (auto simp: off_def n_def)
    next
      case False
      have "\<not> (off \<le> ?i \<and> ?i < off + n)"
      proof (cases "nat b < nat y")
        case True
        then have "Suc (nat b + 25) * W \<le> (nat y + 25) * W" by (intro mult_le_mono1) linarith
        then have "W + (nat b + 25) * W \<le> (nat y + 25) * W" by (simp only: mult_Suc)
        then show ?thesis using ab(2) unfolding off_def by linarith
      next
        case False
        then have "Suc (nat y + 25) * W \<le> (nat b + 25) * W"
          using \<open>nat b \<noteq> nat y\<close> by (intro mult_le_mono1) linarith
        then have "W + (nat y + 25) * W \<le> (nat b + 25) * W" by (simp only: mult_Suc)
        moreover have "nat x0 + n \<le> W" using assms(2-4) unfolding n_def W_def by linarith
        ultimately show ?thesis unfolding off_def by linarith
      qed
      then show ?thesis using False by auto
    qed
    moreover have "px' ! ?i = (if off \<le> ?i \<and> ?i < off + n then replicate n c ! (?i - off) else pixels w ! ?i)"
      unfolding px'_def using nth_splice [of off "replicate n c" "pixels w" ?i] le i by simp
    moreover have "replicate n c ! (?i - off) = c" if "off \<le> ?i \<and> ?i < off + n"
      using that by (intro nth_replicate) linarith
    ultimately show ?thesis by (simp add: win_pixel_def W_def)
  qed
  moreover have "win_ok (w\<lparr>pixels := px'\<rparr>)"
    using assms(1) le by (simp add: win_ok_def px'_def)
  moreover have "win_inside (w\<lparr>pixels := px'\<rparr>) = win_inside w" by (intro ext) (simp add: win_inside_def)
  ultimately show ?thesis using row by (simp add: wc.painted_def n_def)
qed

lemma fill_rows_paint:
  assumes "win_ok w" "0 \<le> x0" "x0 < x1" "x1 \<le> int (unat W)"
    and "w_width w = W" "\<forall>y \<in> set ys. 0 \<le> y \<and> y < int (unat (w_height w))"
  shows "\<exists>w'. foldM (\<lambda>y. fill_row ((word_of_int y + HEADER_OFFSET) * W + word_of_int x0) (nat (x1 - x0)) c) ys w
      = Some w' \<and> wc.painted {(a, b). x0 \<le> a \<and> a < x1 \<and> b \<in> set ys} c w w'"
  using assms
proof (induction ys arbitrary: w)
  case Nil
  then show ?case using wc.painted_empty by simp
next
  case (Cons y ys)
  obtain u where u: "fill_row ((word_of_int y + HEADER_OFFSET) * W + word_of_int x0) (nat (x1 - x0)) c w = Some u"
      "w_width u = W" "w_height u = w_height w" "wc.painted {(a, b). x0 \<le> a \<and> a < x1 \<and> b = y} c w u"
    using fill_row_paints [of w x0 x1 y c] Cons.prems by auto
  obtain v where v: "foldM (\<lambda>y. fill_row ((word_of_int y + HEADER_OFFSET) * W + word_of_int x0)
        (nat (x1 - x0)) c) ys u = Some v" "wc.painted {(a, b). x0 \<le> a \<and> a < x1 \<and> b \<in> set ys} c u v"
    using Cons.IH [of u] Cons.prems u wc.painted_inv [OF u(4)] by auto
  have "{(a, b). x0 \<le> a \<and> a < x1 \<and> b = y} \<union> {(a, b). x0 \<le> a \<and> a < x1 \<and> b \<in> set ys}
      = {(a, b). x0 \<le> a \<and> a < x1 \<and> b \<in> set (y # ys)}" by auto
  then show ?case using u(1) v(1) wc.painted_union [OF u(4) v(2)] by simp
qed

text \<open>C22: 
  The row-wise \<^verbatim>\<open>window_draw_rect\<close> with its clipping paints the same pixels as the
  plain double loop around \<^verbatim>\<open>window_put_pixel\<close>, which is how the screen is drawn.
\<close>

theorem window_draw_rect_eq_pixelwise:
  assumes "win_ok w" "w_width w \<noteq> 0" "c_int x" "c_int y" "c_int wd" "c_int (x + wd)" "c_int (y + ht)"
  shows "\<exists>u v. window_draw_rect x y wd ht c w = Some u \<and> fill_rect window_put_pixel x y wd ht c w = Some v
    \<and> win_ok u \<and> win_inside u = win_inside w
    \<and> (\<forall>a b. win_inside w a b \<longrightarrow> win_pixel u a b = win_pixel v a b
        \<and> win_pixel u a b = (if x \<le> a \<and> a < x + wd \<and> y \<le> b \<and> b < y + ht then c else win_pixel w a b))"
proof -
  define W H where "W = int (unat (w_width w))" and "H = int (unat (w_height w))"
  have ok: "unat (w_width w) * (unat (w_height w) + 25) < 2 ^ 31" using assms(1) by (simp add: win_ok_def)
  have pos: "0 < unat (w_width w)" using assms(2) by (simp add: unat_gt_0)
  then have "unat (w_height w) + 25 \<le> unat (w_width w) * (unat (w_height w) + 25)" by simp
  then have hb: "unat (w_height w) < 2 ^ 31" using ok by linarith
  have "unat (w_width w) \<le> unat (w_width w) * (unat (w_height w) + 25)" by simp
  then have wb: "unat (w_width w) < 2 ^ 31" using ok by linarith
  have s: "sint (w_width w) = W" "sint (w_height w) = H"
    unfolding W_def H_def by (rule sint_small [OF wb], rule sint_small [OF hb])
  have WH: "0 < W" "0 \<le> H" "W < 2147483648" "H < 2147483648"
    using pos wb [simplified] hb [simplified] unfolding W_def H_def by linarith+
  define x0 y0 x1 y1 where "x0 = max 0 x" and "y0 = max 0 y" and "x1 = min W (x + wd)" and "y1 = min H (y + ht)"
  have cw: "c_int (x1 - x0)"
    using assms(3,5,6) WH unfolding c_int_def x0_def x1_def max_def min_def by auto
  let ?rows = "foldM (\<lambda>row. fill_row ((word_of_int row + HEADER_OFFSET) * w_width w + word_of_int x0)
      (nat (x1 - x0)) c) [y0..y1 - 1] w"
  have "(if x < 0 then 0 else x) = x0" "(if y < 0 then 0 else y) = y0"
    "(if x + wd > W then W else x + wd) = x1" "(if y + ht > H then H else y + ht) = y1"
    unfolding x0_def y0_def x1_def y1_def by auto
  then have rect: "window_draw_rect x y wd ht c w = (if x1 - x0 \<le> 0 \<or> y0 \<ge> y1 then Some w else ?rows)"
    unfolding window_draw_rect_def Let_def s wrap32_id [OF assms(6)] wrap32_id [OF assms(7)]
    by (simp only: wrap32_id [OF cw])
  have ins: "x \<le> a \<and> a < x + wd \<and> y \<le> b \<and> b < y + ht \<longleftrightarrow> x0 \<le> a \<and> a < x1 \<and> y0 \<le> b \<and> b < y1"
    if "win_inside w a b" for a b
  proof -
    have "0 \<le> a" "a < W" "0 \<le> b" "b < H"
      using that unfolding win_inside_def W_def H_def by linarith+
    then show ?thesis unfolding x0_def y0_def x1_def y1_def by auto
  qed
  obtain u where u: "window_draw_rect x y wd ht c w = Some u"
      "wc.painted {(a, b). x0 \<le> a \<and> a < x1 \<and> y0 \<le> b \<and> b < y1} c w u"
  proof (cases "x1 - x0 \<le> 0 \<or> y0 \<ge> y1")
    case True
    then have e: "{(a, b). x0 \<le> a \<and> a < x1 \<and> y0 \<le> b \<and> b < y1} = {}" by auto
    show ?thesis
    proof (rule that)
      show "window_draw_rect x y wd ht c w = Some w" unfolding rect using True by simp
      show "wc.painted {(a, b). x0 \<le> a \<and> a < x1 \<and> y0 \<le> b \<and> b < y1} c w w"
        unfolding e by (rule wc.painted_empty [OF assms(1)])
    qed
  next
    case False
    have "0 \<le> x0" "x0 < x1" "x1 \<le> W" using False unfolding x0_def x1_def by auto
    moreover have "\<forall>y \<in> set [y0..y1 - 1]. 0 \<le> y \<and> y < H" unfolding y0_def y1_def by auto
    ultimately obtain u where "?rows = Some u"
        "wc.painted {(a, b). x0 \<le> a \<and> a < x1 \<and> b \<in> set [y0..y1 - 1]} c w u"
      using fill_rows_paint [OF assms(1), of x0 x1 "w_width w" "[y0..y1 - 1]" c] unfolding W_def H_def by blast
    then show ?thesis using that False by (simp add: rect)
  qed
  obtain v where v: "fill_rect window_put_pixel x y wd ht c w = Some v"
      "wc.painted {(a, b). x \<le> a \<and> a < x + wd \<and> y \<le> b \<and> b < y + ht} c w v"
    using wc.fill_rect_paints [OF assms(1,3,4,6,7)] by blast
  show ?thesis using u v ins by (intro exI [of _ u] exI [of _ v]) (simp add: wc.painted_def)
qed

theorem window_draw_rect_eq_pixelwise_witness:
  "\<exists>u. window_draw_rect (-3) 0 4 5 7 (demo_window 1 False) = Some u
     \<and> win_pixel u 0 0 = 7 \<and> win_pixel u 1 0 = 0"
proof -
  have "win_ok (demo_window 1 False)" "w_width (demo_window 1 False) \<noteq> 0"
    "win_inside (demo_window 1 False) 0 0" "win_inside (demo_window 1 False) 1 0"
    "win_pixel (demo_window 1 False) 1 0 = 0"
    by (simp_all add: win_ok_def win_inside_def win_pixel_def demo_window_def)
  moreover have "c_int (-3)" "c_int 0" "c_int 4" "c_int (-3 + 4)" "c_int (0 + 5)" by (simp_all add: c_int_def)
  ultimately show ?thesis
    using window_draw_rect_eq_pixelwise [of "demo_window 1 False" "-3" 0 4 5 7] by fastforce
qed

text \<open>
  The size of a pixel buffer is computed modulo \<open>2 ^ 32\<close> and not tested: a process that asks for a
  window of 65536 by 65511 pixels gets a buffer of 0 bytes, and its first pixel is written
  outside it.
\<close>

theorem window_size_wraps:
  "\<exists>w s. wm_create_window 0 0 0x10000 0xFFE7 [0] 1 (wm_start (init_heap boot_heap)) = Some (w, s)
     \<and> pixels w = [] \<and> window_put_pixel 0 0 15 w = None"
  by (simp add: create_eval) (simp add: window_put_pixel_def put_def HEADER_OFFSET_def)

end
