(* ===== verification/Terminal.thy ===== *)
theory Terminal
  imports Window
begin

text \<open>
  Text output: the terminal window of \<^verbatim>\<open>drivers/terminal.c\<close> and the 80 by 25 text screen
  of \<^verbatim>\<open>drivers/screen-temp.c\<close>. Both keep a buffer of 16-bit cells (colour and character)
  and a cursor, and share the loops of \<^verbatim>\<open>print_char_color\<close>, which are modelled once with the
  number of columns and cells as parameters. Scrolling reads one cell behind the buffer: that
  cell is the argument \<open>beyond\<close>. Writing outside the buffer is a fault.
\<close>

section \<open>Model\<close>

definition TERMINAL_COLS :: nat where "TERMINAL_COLS = 50"
definition TERMINAL_ROWS :: nat where "TERMINAL_ROWS = 33"
definition TERMINAL_SIZE :: nat where "TERMINAL_SIZE = TERMINAL_COLS * TERMINAL_ROWS"
definition TERMINAL_FONT_W :: nat where "TERMINAL_FONT_W = 8"
definition TERMINAL_FONT_H :: nat where "TERMINAL_FONT_H = 12"
definition TERMINAL_WIN :: u32 where "TERMINAL_WIN = 400"
definition TAB_SIZE :: nat where "TAB_SIZE = 4"
definition VGA_WIDTH :: nat where "VGA_WIDTH = 80"
definition VGA_SIZE :: nat where "VGA_SIZE = VGA_WIDTH * 25"

definition ansi_to_terminal :: "u8 list" where
  "ansi_to_terminal = [0, 4, 2, 6, 1, 5, 3, 7, 8, 12, 10, 14, 9, 13, 11, 15, 0, 0, 0, 0]"

text \<open>\<^verbatim>\<open>(color << 8) | c\<close> with a signed character, stored in 16 bits.\<close>

definition cell :: "u8 \<Rightarrow> u8 \<Rightarrow> u16" where
  "cell color c = push_bit 8 (ucast color) OR scast c"

definition read_cell :: "u16 \<Rightarrow> u16 list \<Rightarrow> nat \<Rightarrow> u16" where
  "read_cell beyond buf i = (if i < length buf then buf ! i else beyond)"

definition scroll :: "u16 \<Rightarrow> nat \<Rightarrow> nat \<Rightarrow> u16 list \<Rightarrow> u16 list" where
  "scroll beyond cols sz buf =
     foldl (\<lambda>buf i. buf[i := (if i > sz - cols then cell 0x0F 32 else read_cell beyond buf (i + cols))])
       buf [0..<sz]"

definition put_cell :: "u16 \<Rightarrow> u16 list \<times> nat \<Rightarrow> (u16 list \<times> nat) option" where
  "put_cell v = (\<lambda>(buf, i). do { buf \<leftarrow> put buf i v; Some (buf, Suc i) })"

definition console_char ::
  "u16 \<Rightarrow> nat \<Rightarrow> nat \<Rightarrow> nat \<Rightarrow> u8 \<Rightarrow> u8 \<Rightarrow> u16 list \<times> nat \<Rightarrow> (u16 list \<times> nat) option" where
  "console_char beyond cols sz cursor_floor c color st =
     (let (buf, i) = st;
          (buf, i) = (if i \<ge> sz then (scroll beyond cols sz buf, sz - cols) else (buf, i))
      in if c = 10 then Some (buf, (i div cols + 1) * cols)
         else if c = 8 then
           (if i > 0 \<and> i > cursor_floor
            then do { buf \<leftarrow> put buf (i - 1) (cell color 32); Some (buf, i - 1) }
            else Some (buf, i))
         else if c = 9 then foldM (\<lambda>_. put_cell (cell color 32)) [0..<TAB_SIZE - i mod TAB_SIZE] (buf, i)
         else put_cell (cell color c) (buf, i))"

text \<open>
  The terminal. \<open>t_window\<close> is the address in \<^verbatim>\<open>terminal->window\<close>; the window is looked up
  by it among the live windows, so that the pointer to a window that was closed is a fault.
\<close>

record terminal =
  t_window :: u32
  cursor_column :: u32
  cursor_row :: u32
  cursor_floor :: u32
  t_buffer :: "u16 list"

definition with_window :: "u32 \<Rightarrow> (window \<Rightarrow> window option) \<Rightarrow> wm \<Rightarrow> wm option" where
  "with_window a f s =
     (if a \<in> w_addr ` set (windows s)
      then do { ws \<leftarrow> update_first (\<lambda>w. w_addr w = a) f (windows s); Some (s\<lparr>windows := ws\<rparr>) }
      else None)"

definition clear_pixels :: "window \<Rightarrow> window option" where
  "clear_pixels w = fill_row 0 (unat (w_width w * w_height w)) 0 w"

definition render_cell :: "u16 list \<Rightarrow> nat \<Rightarrow> nat \<Rightarrow> window \<Rightarrow> window option" where
  "render_cell buf i j w =
     do {
       v \<leftarrow> get buf (i * TERMINAL_COLS + j);
       let ch = (ucast (v AND 0xFF) :: u8);
       let color = (ucast (drop_bit 8 v AND 0xFF) :: u8);
       if sint ch > 0
       then window_draw_char (int (j * TERMINAL_FONT_W)) (int (i * TERMINAL_FONT_H)) ch color w
       else Some w
     }"

definition render_terminal :: "terminal \<Rightarrow> wm \<Rightarrow> wm option" where
  "render_terminal t = with_window (t_window t) (\<lambda>w. do {
       w \<leftarrow> clear_pixels w;
       foldM (\<lambda>i. foldM (render_cell (t_buffer t) i) [0..<TERMINAL_COLS]) [0..<TERMINAL_ROWS] w
     })"

definition terminal_print_char_color :: "u16 \<Rightarrow> u8 \<Rightarrow> u8 \<Rightarrow> terminal \<times> wm \<Rightarrow> (terminal \<times> wm) option" where
  "terminal_print_char_color beyond c color ts =
     (let (t, s) = ts;
          cursor_index = unat (of_nat TERMINAL_COLS * cursor_row t + cursor_column t)
      in do {
        (buf, i) \<leftarrow> console_char beyond TERMINAL_COLS TERMINAL_SIZE (unat (cursor_floor t)) c color
          (t_buffer t, cursor_index);
        let t = t\<lparr>t_buffer := buf, cursor_row := of_nat (i div TERMINAL_COLS),
                  cursor_column := of_nat (i mod TERMINAL_COLS)\<rparr>;
        s \<leftarrow> render_terminal t s;
        Some (t, s)
      })"

fun terminal_print_color :: "u16 \<Rightarrow> u8 list \<Rightarrow> u8 \<Rightarrow> terminal \<times> wm \<Rightarrow> (terminal \<times> wm) option" where
  "terminal_print_color beyond [] color ts = None"
| "terminal_print_color beyond (c # str) color ts =
     (if c = 0 then Some ts
      else do { ts \<leftarrow> terminal_print_char_color beyond c color ts;
                terminal_print_color beyond str color ts })"

definition clear_terminal :: "terminal \<times> wm \<Rightarrow> (terminal \<times> wm) option" where
  "clear_terminal ts =
     (let (t, s) = ts; t = t\<lparr>cursor_column := 0, cursor_row := 0, cursor_floor := 0\<rparr> in do {
        s \<leftarrow> with_window (t_window t) clear_pixels s;
        if TERMINAL_SIZE \<le> length (t_buffer t)
        then Some (t\<lparr>t_buffer := replicate TERMINAL_SIZE 0 @ drop TERMINAL_SIZE (t_buffer t)\<rparr>, s)
        else None
      })"

text \<open>The heap block for the cells comes with whatever it held before, \<open>stale\<close>.\<close>

definition init_terminal :: "u16 list \<Rightarrow> wm \<Rightarrow> (terminal \<times> wm) option" where
  "init_terminal stale s =
     do {
       (p, h) \<leftarrow> kmalloc 20 (wm_heap s);
       (b, h) \<leftarrow> kmalloc (of_nat (TERMINAL_SIZE * 2)) h;
       if p = 0 \<or> b = 0 then None
       else do {
         (w, s) \<leftarrow> wm_create_window 0 0 TERMINAL_WIN TERMINAL_WIN
           [84, 69, 82, 77, 73, 78, 65, 76, 0] 0 (s\<lparr>wm_heap := h\<rparr>);
         Some (\<lparr>t_window = w_addr w, cursor_column = 0, cursor_row = 0, cursor_floor = 0,
                t_buffer = stale\<rparr>, s)
       }
     }"

fun print_at_loop :: "u8 list \<Rightarrow> u8 \<Rightarrow> terminal \<Rightarrow> terminal option" where
  "print_at_loop [] color t = None"
| "print_at_loop (c # str) color t =
     (if c = 0 then Some t
      else do {
        buf \<leftarrow> put (t_buffer t) (unat (cursor_row t * of_nat TERMINAL_COLS + cursor_column t)) (cell color c);
        print_at_loop str color (t\<lparr>t_buffer := buf, cursor_column := cursor_column t + 1\<rparr>)
      })"

definition terminal_print_at :: "u8 list \<Rightarrow> int \<Rightarrow> int \<Rightarrow> u8 \<Rightarrow> terminal \<Rightarrow> terminal option" where
  "terminal_print_at str x y color t =
     do {
       t' \<leftarrow> print_at_loop str color (t\<lparr>cursor_row := word_of_int y, cursor_column := word_of_int x\<rparr>);
       Some (t'\<lparr>cursor_row := cursor_row t, cursor_column := cursor_column t\<rparr>)
     }"

definition terminal_print_many :: "u16 \<Rightarrow> u8 list list \<Rightarrow> terminal \<times> wm \<Rightarrow> (terminal \<times> wm) option" where
  "terminal_print_many beyond strs = foldM (\<lambda>str. terminal_print_color beyond str 0x0F) strs"

text \<open>The text screen of \<^verbatim>\<open>screen-temp.c\<close>: buffer, index and floor.\<close>

record text_screen =
  vga_buffer :: "u16 list"
  vga_index :: nat
  vga_cursor_floor :: nat

definition update_cursor :: "int \<Rightarrow> int \<Rightarrow> u8 \<times> u8" where
  "update_cursor x y =
     (let pos = (word_of_int (y * int VGA_WIDTH + x) :: u16)
      in (ucast (pos AND 0xFF), ucast (drop_bit 8 pos AND 0xFF)))"

definition print_char_color :: "u16 \<Rightarrow> u8 \<Rightarrow> u8 \<Rightarrow> text_screen \<Rightarrow> text_screen option" where
  "print_char_color beyond c color v =
     do {
       (buf, i) \<leftarrow> console_char beyond VGA_WIDTH VGA_SIZE (vga_cursor_floor v) c color (vga_buffer v, vga_index v);
       Some (v\<lparr>vga_buffer := buf, vga_index := i\<rparr>)
     }"

fun print_color :: "u16 \<Rightarrow> u8 list \<Rightarrow> u8 \<Rightarrow> text_screen \<Rightarrow> text_screen option" where
  "print_color beyond [] color v = None"
| "print_color beyond (c # str) color v =
     (if c = 0 then Some v
      else do { v \<leftarrow> print_char_color beyond c color v; print_color beyond str color v })"

fun put_cells :: "u8 list \<Rightarrow> u8 \<Rightarrow> u16 list \<times> nat \<Rightarrow> (u16 list \<times> nat) option" where
  "put_cells [] color st = None"
| "put_cells (c # str) color st =
     (if c = 0 then Some st else do { st \<leftarrow> put_cell (cell color c) st; put_cells str color st })"

definition print_at :: "u8 list \<Rightarrow> nat \<Rightarrow> nat \<Rightarrow> u8 \<Rightarrow> text_screen \<Rightarrow> text_screen option" where
  "print_at str x y color v =
     do { (buf, _) \<leftarrow> put_cells str color (vga_buffer v, y * VGA_WIDTH + x); Some (v\<lparr>vga_buffer := buf\<rparr>) }"

definition clear_screen :: "text_screen \<Rightarrow> text_screen option" where
  "clear_screen v =
     (if VGA_SIZE \<le> length (vga_buffer v)
      then Some (v\<lparr>vga_buffer := replicate VGA_SIZE (cell 0x0F 32) @ drop VGA_SIZE (vga_buffer v), vga_index := 0\<rparr>)
      else None)"

definition print_many :: "u16 \<Rightarrow> u8 list list \<Rightarrow> text_screen \<Rightarrow> text_screen option" where
  "print_many beyond strs = foldM (\<lambda>str. print_color beyond str 0x0F) strs"

section \<open>Scrolling and printing\<close>

lemma foldl_update_upt:
  assumes "n \<le> length buf" "\<And>b i. i < n \<Longrightarrow> length b = length buf \<Longrightarrow> drop i b = drop i buf \<Longrightarrow> f b i = g i"
  shows "foldl (\<lambda>b i. b[i := f b i]) buf [0..<n] = map g [0..<n] @ drop n buf"
  using assms
proof (induction n)
  case (Suc n)
  let ?b = "map g [0..<n] @ drop n buf"
  have b: "foldl (\<lambda>b i. b[i := f b i]) buf [0..<n] = ?b" using Suc by simp
  have "f ?b n = g n" by (rule Suc.prems(2)) (use Suc.prems(1) in simp_all)
  moreover have "drop n buf = buf ! n # drop (Suc n) buf"
    using Suc.prems(1) by (simp add: Cons_nth_drop_Suc)
  ultimately show ?case by (simp add: b list_update_append)
qed simp

lemma scroll_spec:
  assumes "length buf = sz" "0 < cols" "cols \<le> sz"
  shows "scroll beyond cols sz buf = drop cols buf @ beyond # replicate (cols - 1) (cell 0x0F 32)"
proof -
  let ?g = "\<lambda>i. if i > sz - cols then cell 0x0F 32 else read_cell beyond buf (i + cols)"
  have "scroll beyond cols sz buf = map ?g [0..<sz] @ drop sz buf"
    unfolding scroll_def
  proof (rule foldl_update_upt)
    fix b i assume b: "i < sz" "length b = length buf" "drop i b = drop i buf"
    have "b ! (i + cols) = buf ! (i + cols)" if "i + cols < length buf"
      using b that by (metis add_leD1 less_imp_le_nat nth_drop)
    then show "(if i > sz - cols then cell 0x0F 32 else read_cell beyond b (i + cols)) = ?g i"
      using b(2) by (simp add: read_cell_def)
  qed (simp add: assms)
  also have "\<dots> = drop cols buf @ beyond # replicate (cols - 1) (cell 0x0F 32)"
  proof (rule nth_equalityI)
    fix i assume "i < length (map ?g [0..<sz] @ drop sz buf)"
    then have i: "i < sz" using assms(1) by simp
    then show "(map ?g [0..<sz] @ drop sz buf) ! i
        = (drop cols buf @ beyond # replicate (cols - 1) (cell 0x0F 32)) ! i"
      using assms by (cases "i < sz - cols"; cases "i = sz - cols")
        (auto simp: nth_append read_cell_def nth_Cons' add.commute)
  qed (use assms in simp)
  finally show ?thesis .
qed

lemma put_cell_eq: "put_cell v (buf, i) = (if i < length buf then Some (buf[i := v], Suc i) else None)"
  by (simp add: put_cell_def put_def)

lemma put_cells_blank:
  "foldM (\<lambda>_. put_cell v) [0..<n] (buf, i)
    = (if n = 0 \<or> i + n \<le> length buf then Some (take i buf @ replicate n v @ drop (i + n) buf, i + n) else None)"
  (is "?lhs n = ?rhs n")
proof (induction n)
  case (Suc n)
  show ?case
  proof (cases "i + Suc n \<le> length buf")
    case True
    then have "drop (i + n) buf = buf ! (i + n) # drop (Suc (i + n)) buf" by (simp add: Cons_nth_drop_Suc)
    then show ?thesis using Suc True
      by (simp add: put_cell_eq list_update_append min_def replicate_append_same)
  next
    case False
    then show ?thesis using Suc by (auto simp: put_cell_eq split: bind_splits if_splits)
  qed
qed simp

text \<open>A console whose tab stops do not divide its size faults on a tab in the last cells.\<close>

definition tab_room :: "nat \<Rightarrow> nat \<Rightarrow> bool" where
  "tab_room sz i \<longleftrightarrow> i + (TAB_SIZE - i mod TAB_SIZE) \<le> sz"

lemma console_char_total:
  assumes "length buf = sz" "i \<le> sz" "0 < cols" "cols dvd sz" "cols < sz" "TAB_SIZE \<le> cols"
  shows "console_char beyond cols sz fl c color (buf, i) \<noteq> None
    \<longleftrightarrow> c \<noteq> 9 \<or> i = sz \<or> tab_room sz i"
    and "console_char beyond cols sz fl c color (buf, i) = Some (buf', i') \<Longrightarrow> length buf' = sz \<and> i' \<le> sz
      \<and> set buf' \<subseteq> set buf \<union> {beyond, cell 0x0F 32, cell color 32, cell color c}"
proof -
  define st where "st = (if i \<ge> sz then (scroll beyond cols sz buf, sz - cols) else (buf, i))"
  obtain b j where st': "st = (b, j)" by (cases st)
  have sc: "length (scroll beyond cols sz buf) = sz"
      "set (scroll beyond cols sz buf) \<subseteq> set buf \<union> {beyond, cell 0x0F 32}"
    using assms by (auto simp: scroll_spec dest: in_set_dropD)
  then have b: "length b = sz" "j < sz" "set b \<subseteq> set buf \<union> {beyond, cell 0x0F 32}"
    using assms st' by (auto simp: st_def split: if_splits)
  have tab: "j + (TAB_SIZE - j mod TAB_SIZE) \<le> sz \<longleftrightarrow> i = sz \<or> tab_room sz i"
    using st' assms by (auto simp: st_def tab_room_def split: if_splits)
  define n where "n = TAB_SIZE - j mod TAB_SIZE"
  have def': "console_char beyond cols sz fl c color (buf, i)
      = (if c = 10 then Some (b, (j div cols + 1) * cols)
         else if c = 8 then (if j > 0 \<and> j > fl then Some (b[j - 1 := cell color 32], j - 1) else Some (b, j))
         else if c = 9 then
           (if j + n \<le> sz
            then Some (take j b @ replicate n (cell color 32) @ drop (j + n) b, j + n) else None)
         else Some (b[j := cell color c], Suc j))"
  proof -
    have "0 < n" "j - 1 < sz" using b(2) by (simp_all add: n_def TAB_SIZE_def)
    then show ?thesis
      using b(1,2) unfolding console_char_def Let_def prod.case st_def [symmetric] st'
        put_cells_blank put_cell_eq put_def n_def [symmetric] by simp
  qed
  have nl: "(j div cols + 1) * cols \<le> sz"
  proof -
    obtain k where k: "sz = cols * k" using assms(4) by (rule dvdE)
    then have "j div cols < k" using b(2) assms(3) by (simp add: div_less_iff_less_mult mult.commute)
    then have "(j div cols + 1) * cols \<le> k * cols" by (intro mult_le_mono1) simp
    then show ?thesis unfolding k by (simp only: mult.commute)
  qed
  show "console_char beyond cols sz fl c color (buf, i) \<noteq> None \<longleftrightarrow> c \<noteq> 9 \<or> i = sz \<or> tab_room sz i"
    unfolding def' tab [symmetric] n_def [symmetric] by simp
  show "length buf' = sz \<and> i' \<le> sz \<and> set buf' \<subseteq> set buf \<union> {beyond, cell 0x0F 32, cell color 32, cell color c}"
    if "console_char beyond cols sz fl c color (buf, i) = Some (buf', i')"
  proof -
    let ?S = "set b \<union> {cell color 32, cell color c}"
    have upd: "set (b[k := v]) \<subseteq> insert v (set b)" for k v by (rule set_update_subset_insert)
    have tabs: "set (take j b @ replicate n (cell color 32) @ drop (j + n) b) \<subseteq> ?S"
      by (auto dest: in_set_takeD in_set_dropD)
    consider "c = 10" | "c = 8" | "c = 9" | "c \<noteq> 10" "c \<noteq> 8" "c \<noteq> 9" by blast
    then have "length buf' = sz \<and> i' \<le> sz \<and> set buf' \<subseteq> ?S"
    proof cases
      case 1
      then show ?thesis using that [unfolded def'] b(1) nl by simp blast
    next
      case 2
      then show ?thesis using that [unfolded def'] b(1,2) upd [of "j - 1" "cell color 32"]
        by (auto split: if_splits)
    next
      case 3
      then show ?thesis using that [unfolded def'] b(1) tabs by (auto split: if_splits)
    next
      case 4
      then show ?thesis using that b(1,2) upd [of j "cell color c"] by (auto simp: def')
    qed
    then show ?thesis using b(3) by blast
  qed
qed

text \<open>
  A printable character behind the last cell scrolls the text up by exactly one row, starts the
  last row with the character and blanks the rest of it.
\<close>

theorem print_scrolls_one_row:
  assumes "length buf = TERMINAL_SIZE" "c \<notin> {8, 9, 10}"
  shows "console_char beyond TERMINAL_COLS TERMINAL_SIZE fl c color (buf, TERMINAL_SIZE)
    = Some (drop TERMINAL_COLS buf @ cell color c # replicate (TERMINAL_COLS - 1) (cell 0x0F 32),
        TERMINAL_SIZE - TERMINAL_COLS + 1)"
proof -
  have sz: "0 < TERMINAL_COLS" "TERMINAL_COLS \<le> TERMINAL_SIZE" "TERMINAL_SIZE - TERMINAL_COLS < TERMINAL_SIZE"
    by (simp_all add: TERMINAL_SIZE_def TERMINAL_COLS_def TERMINAL_ROWS_def)
  have "length (drop TERMINAL_COLS buf) = TERMINAL_SIZE - TERMINAL_COLS" using assms(1) by simp
  then show ?thesis using assms sz
    by (simp add: console_char_def scroll_spec put_cell_eq list_update_append)
qed

theorem print_scrolls_one_row_witness:
  "\<exists>b. console_char 0x4141 TERMINAL_COLS TERMINAL_SIZE 0 90 12 (replicate TERMINAL_SIZE 0, TERMINAL_SIZE)
     = Some (b, 1601) \<and> b ! 1600 = cell 12 90 \<and> b ! 1649 = cell 15 32"
  using print_scrolls_one_row [of "replicate TERMINAL_SIZE 0" 90 "0x4141" 0 12]
  by (simp add: TERMINAL_SIZE_def TERMINAL_COLS_def TERMINAL_ROWS_def nth_append)

text \<open>
  A newline behind the last cell shows that the scrolling loop is off by one: the first cell of
  the empty last row is filled from behind the buffer.
\<close>

theorem newline_shows_foreign_cell:
  "\<exists>buf'. console_char beyond TERMINAL_COLS TERMINAL_SIZE fl 10 color (replicate TERMINAL_SIZE v, TERMINAL_SIZE)
     = Some (buf', TERMINAL_SIZE) \<and> buf' ! (TERMINAL_SIZE - TERMINAL_COLS) = beyond"
  by (simp add: console_char_def scroll_spec TERMINAL_SIZE_def TERMINAL_COLS_def TERMINAL_ROWS_def nth_append)

section \<open>The terminal never stops\<close>

definition drawable :: "u16 \<Rightarrow> bool" where
  "drawable v \<longleftrightarrow> (ucast (v AND 0xFF) :: u8) \<noteq> 127"

lemma sint_char_neg: "128 \<le> unat (c::u8) \<Longrightarrow> sint c = int (unat c) - 256"
proof -
  assume "128 \<le> unat c"
  then have "128 \<le> int (unat c)" by linarith
  then have ge: "- (2 ^ 7) \<le> uint c - 256" and lt: "uint c - 256 < 2 ^ 7"
    using uint_bounded [of c] by simp_all
  have "c = word_of_int (uint c - 256)" by (simp add: word_eq_iff_unsigned uint_word_of_int)
  then have "sint c = sint (word_of_int (uint c - 256) :: u8)" by (rule arg_cong)
  also have "\<dots> = signed_take_bit 7 (uint c - 256)" unfolding sint_sbintrunc' by simp
  also have "\<dots> = uint c - 256" by (rule signed_take_bit_int_eq_self [OF ge lt])
  finally show ?thesis by simp
qed

lemma low_byte: "(ucast (cell color c AND 0xFF) :: u8) = c"
proof -
  have m: "(0xFF :: u16) = mask 8" by (simp add: mask_eq_exp_minus_1)
  have "n < 8 \<Longrightarrow> bit (ucast (cell color c AND 0xFF) :: u8) n = bit c n" for n
    unfolding cell_def m by (cases "n = 7") (simp_all add: bit_ucast_iff bit_and_iff bit_or_iff
      bit_push_bit_iff bit_mask_iff bit_signed_iff min_def)
  then show ?thesis by (intro bit_word_eqI) simp
qed

lemma drawable_cell: "drawable (cell color c) \<longleftrightarrow> c \<noteq> 127"
  by (simp add: drawable_def low_byte)

text \<open>The terminal's buffer and cursor are in bounds and every cell can be drawn.\<close>

definition term_ok :: "terminal \<Rightarrow> bool" where
  "term_ok t \<longleftrightarrow> length (t_buffer t) = TERMINAL_SIZE
     \<and> TERMINAL_COLS * unat (cursor_row t) + unat (cursor_column t) \<le> TERMINAL_SIZE
     \<and> (\<forall>v \<in> set (t_buffer t). drawable v)"

text \<open>The window of the terminal is open.\<close>

definition term_open :: "terminal \<Rightarrow> wm \<Rightarrow> bool" where
  "term_open t s \<longleftrightarrow> (\<exists>w \<in> set (windows s). w_addr w = t_window t)
     \<and> (\<forall>w \<in> set (windows s). w_addr w = t_window t \<longrightarrow> win_ok w)"

definition cursor_at :: "terminal \<Rightarrow> nat" where
  "cursor_at t = TERMINAL_COLS * unat (cursor_row t) + unat (cursor_column t)"

lemma clear_pixels_ok: "win_ok w \<Longrightarrow> \<exists>w'. clear_pixels w = Some w' \<and> win_ok w' \<and> w_addr w' = w_addr w"
proof -
  assume ok: "win_ok w"
  define n where "n = unat (w_width w * w_height w)"
  have b: "unat (w_width w) * (unat (w_height w) + 25) < 2 ^ 31" "length (pixels w) = unat (w_width w) * (unat (w_height w) + 25)"
    using ok by (auto simp: win_ok_def)
  have le: "unat (w_width w) * unat (w_height w) \<le> unat (w_width w) * (unat (w_height w) + 25)"
    by (intro mult_le_mono2) simp
  have "unat (w_width w) * unat (w_height w) < 2 ^ 32"
    using order_le_less_trans [OF le b(1)] by simp
  then have "n = unat (w_width w) * unat (w_height w)" unfolding n_def by (rule unat_times32)
  then have "n \<le> length (pixels w)" using le b(2) by simp
  then show ?thesis using b unfolding clear_pixels_def fill_row_def n_def [symmetric]
    by (simp add: memset_spec win_ok_def)
qed

lemma put_pixel_addr: "window_put_pixel x y c w = Some w' \<Longrightarrow> w_addr w' = w_addr w"
  by (auto simp: window_put_pixel_def split: if_splits bind_splits)

lemma foldM_keeps: "foldM f xs s = Some s' \<Longrightarrow> (\<And>x s s'. f x s = Some s' \<Longrightarrow> g s' = g s) \<Longrightarrow> g s' = g s"
  by (induction xs arbitrary: s) (fastforce split: bind_splits)+

lemma glyph_addr: "draw_glyph window_put_pixel g x y c w = Some w' \<Longrightarrow> w_addr w' = w_addr w"
  unfolding draw_glyph_def
  by (erule foldM_keeps) (auto split: if_splits dest: put_pixel_addr elim!: foldM_keeps)

lemma render_cell_ok:
  assumes "win_ok w" "i * TERMINAL_COLS + j < length buf" "\<forall>v \<in> set buf. drawable v" "i < 1000" "j < 1000"
  shows "\<exists>w'. render_cell buf i j w = Some w' \<and> win_ok w' \<and> w_addr w' = w_addr w"
proof -
  define v where "v = buf ! (i * TERMINAL_COLS + j)"
  define ch where "ch = (ucast (v AND 0xFF) :: u8)"
  define color where "color = (ucast (drop_bit 8 v AND 0xFF) :: u8)"
  have def': "render_cell buf i j w = (if sint ch > 0
      then window_draw_char (int (j * TERMINAL_FONT_W)) (int (i * TERMINAL_FONT_H)) ch color w else Some w)"
    using assms(2) by (simp add: render_cell_def get_def Let_def v_def ch_def color_def)
  show ?thesis
  proof (cases "sint ch < 32")
    case True
    then show ?thesis using assms(1) by (simp add: def' window_draw_char_def)
  next
    case False
    have "ch \<noteq> 127" using assms(2,3) by (auto simp: drawable_def v_def ch_def)
    have lt: "unat ch < 128"
    proof (rule ccontr)
      assume n: "\<not> unat ch < 128"
      then have "sint ch = int (unat ch) - 256" by (intro sint_char_neg) simp
      then show False using False uint_bounded [of ch] by simp
    qed
    have "unat ch \<noteq> unat (127 :: u8)" using \<open>ch \<noteq> 127\<close> by (metis unsigned_word_eqI)
    then have "unat ch \<noteq> 127" by simp
    then have r: "32 \<le> unat ch" "unat ch < 127" using False lt sint_char [OF lt] by linarith+
    obtain g where g: "glyph_of ch = Some g" "length g = 8" using glyph_of_printable [OF r] by blast
    have "c_int (int (j * TERMINAL_FONT_W))" "c_int (int (i * TERMINAL_FONT_H))"
        "c_int (int (j * TERMINAL_FONT_W) + 8)" "c_int (int (i * TERMINAL_FONT_H) + 8)"
      using assms(4,5) by (simp_all add: c_int_def TERMINAL_FONT_W_def TERMINAL_FONT_H_def)
    from wc.draw_glyph_paints [OF assms(1) g(2) this, of color]
    show ?thesis using False g glyph_addr by (fastforce simp: def' window_draw_char_def wc.painted_def)
  qed
qed

lemma update_first_total:
  assumes "\<And>x. P x \<Longrightarrow> x \<in> set xs \<Longrightarrow> \<exists>y. f x = Some y \<and> Q y"
  shows "\<exists>ys. update_first P f xs = Some ys \<and> (\<forall>y \<in> set ys. y \<in> set xs \<or> Q y)
    \<and> (\<forall>x \<in> set xs. P x \<longrightarrow> x \<in> set ys \<or> (\<exists>y \<in> set ys. Q y))"
  using assms
proof (induction xs)
  case (Cons x xs)
  then obtain ys where ys: "update_first P f xs = Some ys" "\<forall>y \<in> set ys. y \<in> set xs \<or> Q y"
      "\<forall>x \<in> set xs. P x \<longrightarrow> x \<in> set ys \<or> (\<exists>y \<in> set ys. Q y)" by auto
  show ?case
  proof (cases "P x")
    case True
    then obtain y where "f x = Some y" "Q y" using Cons.prems [of x] by auto
    then show ?thesis using True by auto
  qed (use ys in auto)
qed simp

lemma render_terminal_ok:
  assumes "term_ok t" "term_open t s"
  shows "\<exists>s'. render_terminal t s = Some s' \<and> term_open t s'"
proof -
  define f where "f = (\<lambda>w. do { w \<leftarrow> clear_pixels w;
      foldM (\<lambda>i. foldM (render_cell (t_buffer t) i) [0..<TERMINAL_COLS]) [0..<TERMINAL_ROWS] w })"
  define Q where "Q = (\<lambda>w. win_ok w \<and> w_addr w = t_window t)"
  have cell: "\<exists>w'. render_cell (t_buffer t) i j w = Some w' \<and> Q w'"
    if "Q w" "i \<in> set [0..<TERMINAL_ROWS]" "j \<in> set [0..<TERMINAL_COLS]" for i j w
  proof -
    have ij: "i < 33" "j < 50" using that(2,3) by (simp_all add: TERMINAL_ROWS_def TERMINAL_COLS_def)
    then have "i * TERMINAL_COLS + j < length (t_buffer t)"
      using assms(1) by (simp add: term_ok_def TERMINAL_SIZE_def TERMINAL_COLS_def TERMINAL_ROWS_def)
    then show ?thesis using render_cell_ok [of w i j "t_buffer t"] that(1) assms(1) ij
      by (simp add: Q_def term_ok_def)
  qed
  have row: "\<exists>w'. foldM (render_cell (t_buffer t) i) [0..<TERMINAL_COLS] w = Some w' \<and> Q w'"
    if "i \<in> set [0..<TERMINAL_ROWS]" "Q w" for i w
    by (rule foldM_total [where I = Q]) (use cell that in blast)+
  have f: "\<exists>w'. f w = Some w' \<and> Q w'" if "Q w" for w
  proof -
    obtain u where "clear_pixels w = Some u" "Q u"
      using clear_pixels_ok [of w] \<open>Q w\<close> by (auto simp: Q_def)
    moreover have "\<exists>v. foldM (\<lambda>i. foldM (render_cell (t_buffer t) i) [0..<TERMINAL_COLS]) [0..<TERMINAL_ROWS] u
        = Some v \<and> Q v"
      by (rule foldM_total [where I = Q]) (use row \<open>Q u\<close> in blast)+
    ultimately show ?thesis by (auto simp: f_def)
  qed
  have Q: "Q w" if "w \<in> set (windows s)" "w_addr w = t_window t" for w
    using that assms(2) by (simp add: Q_def term_open_def)
  obtain ws where ws: "update_first (\<lambda>w. w_addr w = t_window t) f (windows s) = Some ws"
      "\<forall>w \<in> set ws. w \<in> set (windows s) \<or> Q w"
      "\<forall>w \<in> set (windows s). w_addr w = t_window t \<longrightarrow> w \<in> set ws \<or> (\<exists>w \<in> set ws. Q w)"
    using update_first_total [of "\<lambda>w. w_addr w = t_window t" "windows s" f Q] f Q by blast
  obtain w where w: "w \<in> set (windows s)" "w_addr w = t_window t"
    using assms(2) by (auto simp: term_open_def)
  then have "t_window t \<in> w_addr ` set (windows s)" by (metis imageI)
  then have "render_terminal t s = Some (s\<lparr>windows := ws\<rparr>)"
    using ws(1) by (simp add: render_terminal_def with_window_def f_def)
  moreover have "\<exists>v \<in> set ws. w_addr v = t_window t" using ws(3) w by (auto simp: Q_def)
  moreover have "\<forall>v \<in> set ws. w_addr v = t_window t \<longrightarrow> win_ok v" using ws(2) Q by (auto simp: Q_def)
  ultimately show ?thesis by (simp add: term_open_def)
qed

lemma print_char_returns:
  assumes "term_ok t" "term_open t s" "drawable beyond" "c \<noteq> 127"
  shows "if c = 9 \<and> cursor_at t \<in> {TERMINAL_SIZE - 2, TERMINAL_SIZE - 1}
    then terminal_print_char_color beyond c color (t, s) = None
    else \<exists>t' s'. terminal_print_char_color beyond c color (t, s) = Some (t', s') \<and> term_ok t' \<and> term_open t' s'"
proof -
  let ?i = "unat (of_nat TERMINAL_COLS * cursor_row t + cursor_column t)"
  have C: "TERMINAL_COLS = 50" "TERMINAL_ROWS = 33" "TERMINAL_SIZE = 1650"
    by (simp_all add: TERMINAL_SIZE_def TERMINAL_COLS_def TERMINAL_ROWS_def)
  have le: "50 * unat (cursor_row t) + unat (cursor_column t) \<le> 1650"
    using assms(1) by (simp add: term_ok_def C)
  have "unat (50 * cursor_row t) = 50 * unat (cursor_row t)"
    using le by (subst unat_times32) simp_all
  then have i: "?i = cursor_at t" "cursor_at t \<le> 1650"
    using le by (simp_all add: cursor_at_def C unat_plus32)
  have len: "length (t_buffer t) = 1650" "\<forall>v \<in> set (t_buffer t). drawable v"
    using assms(1) by (auto simp: term_ok_def C)
  have room: "tab_room 1650 k \<longleftrightarrow> k \<notin> {1648, 1649, 1650}" if "k \<le> 1650" for k
    using that unfolding tab_room_def TAB_SIZE_def by auto presburger+
  note total = console_char_total [OF len(1) i(2), of 50]
  show ?thesis
  proof (cases "c = 9 \<and> cursor_at t \<in> {TERMINAL_SIZE - 2, TERMINAL_SIZE - 1}")
    case True
    then have "console_char beyond 50 1650 (unat (cursor_floor t)) c color (t_buffer t, cursor_at t) = None"
      using total(1) [of beyond "unat (cursor_floor t)" c color] room [OF i(2)] by (auto simp: C TAB_SIZE_def)
    then show ?thesis using True by (simp add: terminal_print_char_color_def i(1) C flip: C(1))
  next
    case False
    then obtain buf k where k: "console_char beyond 50 1650 (unat (cursor_floor t)) c color
        (t_buffer t, cursor_at t) = Some (buf, k)"
      using total(1) [of beyond "unat (cursor_floor t)" c color] room [OF i(2)] by (auto simp: C TAB_SIZE_def)
    let ?t = "t\<lparr>t_buffer := buf, cursor_row := of_nat (k div 50), cursor_column := of_nat (k mod 50)\<rparr>"
    have b: "length buf = 1650" "k \<le> 1650"
        "set buf \<subseteq> set (t_buffer t) \<union> {beyond, cell 0x0F 32, cell color 32, cell color c}"
      using total(2) [OF _ _ _ _ k] by (auto simp: TAB_SIZE_def)
    have "\<forall>v \<in> set buf. drawable v" using b(3) len(2) assms(3,4) drawable_cell by fastforce
    moreover have "unat (of_nat (k div 50) :: u32) = k div 50" "unat (of_nat (k mod 50) :: u32) = k mod 50"
      using b(2) by (simp_all add: div_le_dividend order_le_less_trans)
    ultimately have ok: "term_ok ?t" using b(1,2) by (simp add: term_ok_def C)
    moreover have "term_open ?t s" using assms(2) by (simp add: term_open_def)
    ultimately obtain s' where "render_terminal ?t s = Some s'" "term_open ?t s'"
      using render_terminal_ok by blast
    then show ?thesis using False k ok i(1) by (auto simp: terminal_print_char_color_def C)
  qed
qed


definition demo_terminal :: terminal where
  "demo_terminal = \<lparr>t_window = 0x101000, cursor_column = 48, cursor_row = 32, cursor_floor = 0,
     t_buffer = replicate TERMINAL_SIZE 0\<rparr>"


text \<open>
  The close button of the terminal window frees the window, but \<^verbatim>\<open>terminal->window\<close> keeps
  pointing to it: from then on every character that is printed goes through a dangling pointer.
\<close>

lemma closed_terminal_faults:
  "t_window t \<notin> w_addr ` set (windows s) \<Longrightarrow> terminal_print_char_color beyond c color (t, s) = None"
  by (auto simp: terminal_print_char_color_def render_terminal_def with_window_def Let_def split: bind_splits)

text \<open>
  \<^verbatim>\<open>render_terminal\<close> and \<^verbatim>\<open>clear_terminal\<close> clear \<open>width * height\<close> bytes from the start
  of the pixel buffer, which begins with the 25 rows of the title bar: the last 25 pixel rows of
  the contents are not cleared.
\<close>

theorem clear_leaves_last_rows:
  assumes "win_ok w" "win_inside w x y"
  shows "\<exists>w'. clear_pixels w = Some w'
    \<and> win_pixel w' x y = (if y < int (unat (w_height w)) - 25 then 0 else win_pixel w x y)"
proof -
  define W H where "W = unat (w_width w)" and "H = unat (w_height w)"
  have b: "W * (H + 25) < 2 ^ 31" "length (pixels w) = W * (H + 25)"
    using assms(1) by (auto simp: win_ok_def W_def H_def)
  have le: "W * H \<le> W * (H + 25)" by (intro mult_le_mono2) simp
  have "W * H < 2 ^ 32" using order_le_less_trans [OF le b(1)] by simp
  then have n: "unat (w_width w * w_height w) = W * H" unfolding W_def H_def by (rule unat_times32)
  have cl: "clear_pixels w = Some (w\<lparr>pixels := replicate (W * H) 0 @ drop (W * H) (pixels w)\<rparr>)"
    using le b(2) by (simp add: clear_pixels_def fill_row_def n memset_spec)
  have xy: "0 \<le> x" "nat x < W" "0 \<le> y" using assms(2) by (auto simp: win_inside_def W_def)
  let ?i = "(nat y + 25) * W + nat x"
  have i: "?i < length (pixels w)" using win_index(2) [OF assms] by (simp add: W_def)
  have "?i < W * H \<longleftrightarrow> y < int H - 25"
  proof (cases "y < int H - 25")
    case True
    then have "Suc (nat y + 25) \<le> H" using xy(3) by linarith
    then have "Suc (nat y + 25) * W \<le> H * W" by (rule mult_le_mono1)
    then have "W + (nat y + 25) * W \<le> W * H" by (simp only: mult_Suc mult.commute [of H W])
    then have "?i < W * H" using xy(2) by linarith
    then show ?thesis using True by blast
  next
    case False
    then have "H * W \<le> (nat y + 25) * W" using xy(3) by (intro mult_le_mono1) linarith
    then have "\<not> ?i < W * H" unfolding mult.commute [of W H] by linarith
    then show ?thesis using False by blast
  qed
  moreover have "(replicate (W * H) 0 @ drop (W * H) (pixels w)) ! ?i = (if ?i < W * H then 0 else pixels w ! ?i)"
    using nth_splice [of 0 "replicate (W * H) 0" "pixels w" ?i] le b(2) i by simp
  ultimately show ?thesis using cl by (simp add: win_pixel_def W_def H_def)
qed

theorem clear_leaves_last_rows_witness:
  "\<exists>w'. clear_pixels ((demo_window 1 False)\<lparr>pixels := replicate 52 9\<rparr>) = Some w' \<and> win_pixel w' 1 0 = 9"
  using clear_leaves_last_rows [of "(demo_window 1 False)\<lparr>pixels := replicate 52 9\<rparr>" 1 0]
  by (simp add: win_ok_def win_inside_def win_pixel_def demo_window_def)

end
