(* ===== verification/Process.thy ===== *)
theory Process
  imports PageTable Stdin Terminal
begin

text \<open>
  The process control block of \<^verbatim>\<open>kernel/process-control-block.c\<close> with its file
  descriptors (\<^verbatim>\<open>kernel/fdh.h\<close>), the state of the kernel that the scheduler and the system
  calls share, and the access of the kernel to the memory of a process.
\<close>

section \<open>Process control blocks\<close>

datatype fd_type = FD_NONE | FD_FILE | FD_PIPE | FD_STDIN | FD_STDOUT

definition MAX_FDS :: nat where "MAX_FDS = 16"

text \<open>
  \<open>fd_data\<close> is the address of a \<^verbatim>\<open>fat16_fd_t\<close>, an object on the kernel heap; these
  objects are in a store of their own, from addresses to records.
\<close>

record file_descriptor =
  fd_type :: fd_type
  fd_data :: u32
  fd_offset :: u32
  fd_open :: bool

record fat16_fd =
  ff_data :: u32
  ff_bytes :: "u8 list"
  ff_size :: u32
  ff_attributes :: u8
  ff_start_cluster :: u16

datatype process_status = RUNNING | READY | WAITING | ZOMBIE

record pcb =
  p_addr :: u32
  p_registers :: registers
  p_directory :: u32
  p_status :: process_status
  p_kernel_stack :: u32
  p_heap_break :: u32
  p_pid :: u32
  p_parent_pid :: u32
  p_exit_code :: u32
  p_fds :: "file_descriptor list"
  p_name :: u32
  p_waiting_pid :: u32
  p_sleep_ticks :: u32

definition sizeof_pcb :: u32 where "sizeof_pcb = 376"

definition closed_fd :: file_descriptor where
  "closed_fd = \<lparr>fd_type = FD_NONE, fd_data = 0, fd_offset = 0, fd_open = False\<rparr>"

definition initial_fds :: "file_descriptor list" where
  "initial_fds =
     (let fds = replicate MAX_FDS closed_fd;
          fds = fds[0 := (fds ! 0)\<lparr>fd_type := FD_STDIN, fd_open := True\<rparr>]
      in fds[1 := (fds ! 1)\<lparr>fd_type := FD_STDOUT, fd_open := True\<rparr>])"

section \<open>The state of the kernel\<close>

text \<open>
  \<open>procs\<close> is the list of processes from \<^verbatim>\<open>scheduler_head_ptr\<close> along \<^verbatim>\<open>next\<close>;
  \<^verbatim>\<open>current_process\<close> is an address, 0 for NULL. The heap is the one of the window manager.
  \<open>k_beyond\<close> is the
  cell behind the terminal's buffer; \<open>esp0\<close> and \<open>cr3\<close> are the kernel stack in the task state segment and the loaded directory.
\<close>

record kernel =
  k_wm :: wm
  k_term :: terminal
  k_beyond :: u16
  k_vm :: vm
  k_stdin :: stdin_buffer
  fat_fds :: "u32 \<rightharpoonup> fat16_fd"
  procs :: "pcb list"
  current_process :: u32
  foreground_pid :: u32
  quantum_counter :: u32
  process_queue_size :: u32
  enable_scheduler :: bool
  pid_static :: u32
  esp0 :: u32
  cr3 :: u32

definition on_heap :: "(kheap \<Rightarrow> kheap option) \<Rightarrow> kernel \<Rightarrow> kernel option" where
  "on_heap f k = do { h \<leftarrow> f (wm_heap (k_wm k)); Some (k\<lparr>k_wm := (k_wm k)\<lparr>wm_heap := h\<rparr>\<rparr>) }"

definition k_kmalloc :: "u32 \<Rightarrow> kernel \<Rightarrow> (u32 \<times> kernel) option" where
  "k_kmalloc n k =
     do { (p, h) \<leftarrow> kmalloc n (wm_heap (k_wm k)); Some (p, k\<lparr>k_wm := (k_wm k)\<lparr>wm_heap := h\<rparr>\<rparr>) }"

definition k_kfree :: "u32 \<Rightarrow> kernel \<Rightarrow> kernel option" where
  "k_kfree p = on_heap (kfree p)"

definition on_vm :: "(vm \<Rightarrow> vm option) \<Rightarrow> kernel \<Rightarrow> kernel option" where
  "on_vm f k = do { v \<leftarrow> f (k_vm k); Some (k\<lparr>k_vm := v\<rparr>) }"

definition k_print :: "u8 list \<Rightarrow> u8 \<Rightarrow> kernel \<Rightarrow> kernel option" where
  "k_print str color k =
     do { (t, w) \<leftarrow> terminal_print_color (k_beyond k) str color (k_term k, k_wm k);
          Some (k\<lparr>k_term := t, k_wm := w\<rparr>) }"

text \<open>
  A pointer to a process is its address; one that is not in the list of processes (null, or
  freed) faults.
\<close>

definition proc_at :: "u32 \<Rightarrow> kernel \<Rightarrow> pcb option" where
  "proc_at a k = find (\<lambda>p. p_addr p = a) (procs k)"

definition set_proc :: "u32 \<Rightarrow> (pcb \<Rightarrow> pcb) \<Rightarrow> kernel \<Rightarrow> kernel option" where
  "set_proc a f k =
     (if proc_at a k = None then None
      else Some (k\<lparr>procs := map (\<lambda>p. if p_addr p = a then f p else p) (procs k)\<rparr>))"

definition current :: "kernel \<Rightarrow> pcb option" where
  "current k = proc_at (current_process k) k"

text \<open>
  \<^verbatim>\<open>create_process_control_block\<close>. The block of the heap comes with its old contents,
  \<open>stale\<close>: the code does not set the exit code and the name.
\<close>

definition create_process_control_block ::
  "pcb \<Rightarrow> u32 \<Rightarrow> registers \<Rightarrow> u32 \<Rightarrow> kernel \<Rightarrow> (pcb \<times> kernel) option" where
  "create_process_control_block stale page_directory regs parent_pid k =
     do {
       (a, k) \<leftarrow> k_kmalloc sizeof_pcb k;
       if a = 0 then None
       else do {
         (stack_mem, k) \<leftarrow> k_kmalloc (of_nat PAGE_SIZE) k;
         let pcb = stale\<lparr>p_addr := a, p_registers := regs, p_directory := page_directory,
             p_kernel_stack := stack_mem + of_nat PAGE_SIZE, p_heap_break := 0,
             p_pid := pid_static k, p_parent_pid := parent_pid, p_status := READY,
             p_fds := initial_fds, p_waiting_pid := 0, p_sleep_ticks := 0\<rparr>;
         Some (pcb, k\<lparr>pid_static := pid_static k + 1\<rparr>)
       }
     }"

text \<open>
  The registers that \<^verbatim>\<open>switch_to_process\<close> loads before its \<^verbatim>\<open>iret\<close>: the saved ones, with the
  user data selector in the data segments. The saved \<open>esp\<close> is not used.
\<close>

definition switch_to_process :: "u32 \<Rightarrow> pcb \<Rightarrow> registers" where
  "switch_to_process esp p = (p_registers p)\<lparr>r_ds := (4 * 8) OR 3, r_es := (4 * 8) OR 3,
     r_fs := (4 * 8) OR 3, r_gs := (4 * 8) OR 3, r_esp := esp\<rparr>"

text \<open>\<^verbatim>\<open>make_initial_registers\<close> of \<^verbatim>\<open>kernel/kernel.c\<close>.\<close>

definition make_initial_registers :: "u32 \<Rightarrow> u32 \<Rightarrow> u32 \<Rightarrow> registers" where
  "make_initial_registers eflags entry_vaddr stack_vaddr =
     zero_registers\<lparr>r_eip := entry_vaddr, r_cs := (3 * 8) OR 3, r_eflags := eflags OR 0x200,
       r_useresp := stack_vaddr + 0x1000 - 4, r_ss := (4 * 8) OR 3, r_ds := (4 * 8) OR 3,
       r_es := (4 * 8) OR 3, r_fs := (4 * 8) OR 3, r_gs := (4 * 8) OR 3\<rparr>"

section \<open>The memory of a process\<close>

text \<open>
  The kernel reads and writes user memory through the loaded directory; an address that is not
  mapped faults. Words are little endian.
\<close>

definition byte_of :: "nat \<Rightarrow> u32 \<Rightarrow> u8" where
  "byte_of i w = ucast (drop_bit (8 * i) w)"

definition with_byte :: "nat \<Rightarrow> u8 \<Rightarrow> u32 \<Rightarrow> u32" where
  "with_byte i b w = (w AND NOT (push_bit (8 * i) 0xFF)) OR push_bit (8 * i) (ucast b)"

definition load_byte :: "u32 \<Rightarrow> u32 \<Rightarrow> vm \<Rightarrow> u8 option" where
  "load_byte pd v s =
     do {
       a \<leftarrow> translate (ram s) pd v;
       Some (byte_of (unat (a AND 3)) (ram s (table_of a) (unat (drop_bit 2 (a AND 0xFFF)))))
     }"

definition store_byte :: "u32 \<Rightarrow> u32 \<Rightarrow> u8 \<Rightarrow> vm \<Rightarrow> vm option" where
  "store_byte pd v b s =
     do {
       a \<leftarrow> translate (ram s) pd v;
       let i = unat (drop_bit 2 (a AND 0xFFF));
       Some (set_entry (table_of a) i (with_byte (unat (a AND 3)) b (ram s (table_of a) i)) s)
     }"

fun load_bytes :: "u32 \<Rightarrow> u32 \<Rightarrow> nat \<Rightarrow> vm \<Rightarrow> u8 list option" where
  "load_bytes pd v 0 s = Some []"
| "load_bytes pd v (Suc n) s =
     do { b \<leftarrow> load_byte pd v s; bs \<leftarrow> load_bytes pd (v + 1) n s; Some (b # bs) }"

fun store_bytes :: "u32 \<Rightarrow> u32 \<Rightarrow> u8 list \<Rightarrow> vm \<Rightarrow> vm option" where
  "store_bytes pd v [] s = Some s"
| "store_bytes pd v (b # bs) s = do { s \<leftarrow> store_byte pd v b s; store_bytes pd (v + 1) bs s }"

definition load_word :: "u32 \<Rightarrow> u32 \<Rightarrow> vm \<Rightarrow> u32 option" where
  "load_word pd v s =
     do { bs \<leftarrow> load_bytes pd v 4 s; Some (foldr (\<lambda>b w. push_bit 8 w OR ucast b) bs 0) }"

definition word_bytes :: "u32 \<Rightarrow> u8 list" where
  "word_bytes w = map (\<lambda>i. byte_of i w) [0..<4]"

text \<open>
  A string of a process, with its terminator: every address is tried once at most, so that
  a memory without a zero byte ends as a fault.
\<close>

fun load_string :: "nat \<Rightarrow> u32 \<Rightarrow> u32 \<Rightarrow> vm \<Rightarrow> u8 list option" where
  "load_string 0 pd v s = None"
| "load_string (Suc n) pd v s =
     do {
       b \<leftarrow> load_byte pd v s;
       if b = 0 then Some [0] else do { bs \<leftarrow> load_string n pd (v + 1) s; Some (b # bs) }
     }"

end
