(* ===== verification/Scheduler.thy ===== *)
theory Scheduler
  imports Process
begin

text \<open>
  The scheduler, \<^verbatim>\<open>kernel/scheduler.c\<close>, and the two functions of \<^verbatim>\<open>kernel/stdin.c\<close> that
  block and wake a reader: the round robin choice of the next process, sleeping, waiting,
  removing, and the interrupt from the keyboard. A handler gets the saved registers of the
  interrupted process and returns the registers that the interrupt return will load. The
  endless loop after the error message of \<^verbatim>\<open>next_process\<close> is a fault.
\<close>

section \<open>Model\<close>

definition SCHEDULER_QUANTUM :: u32 where "SCHEDULER_QUANTUM = 20"

definition head_ptr :: "kernel \<Rightarrow> u32" where
  "head_ptr k = (case procs k of [] \<Rightarrow> 0 | p # _ \<Rightarrow> p_addr p)"

text \<open>The \<^verbatim>\<open>next\<close> field of the process at an address.\<close>

fun next_in :: "u32 \<Rightarrow> pcb list \<Rightarrow> u32 option" where
  "next_in a [] = None"
| "next_in a (p # ps) =
     (if p_addr p = a then Some (case ps of [] \<Rightarrow> 0 | q # _ \<Rightarrow> p_addr q) else next_in a ps)"

definition init_scheduler :: "pcb \<Rightarrow> kernel \<Rightarrow> kernel" where
  "init_scheduler p k =
     k\<lparr>procs := [p], current_process := p_addr p, process_queue_size := process_queue_size k + 1\<rparr>"

definition scheduler_enqueue :: "pcb \<Rightarrow> kernel \<Rightarrow> kernel" where
  "scheduler_enqueue p k =
     (if head_ptr k = 0 then k\<lparr>procs := [p]\<rparr>
      else k\<lparr>procs := procs k @ [p], process_queue_size := process_queue_size k + 1\<rparr>)"

text \<open>\<^verbatim>\<open>current_process = current_process->next\<close>, back to the head at the end.\<close>

definition advance :: "kernel \<Rightarrow> kernel option" where
  "advance k =
     do {
       n \<leftarrow> next_in (current_process k) (procs k);
       Some (k\<lparr>current_process := (if n = 0 then head_ptr k else n)\<rparr>)
     }"

fun skip_waiting :: "nat \<Rightarrow> kernel \<Rightarrow> kernel option" where
  "skip_waiting 0 k = Some k"
| "skip_waiting (Suc n) k =
     do {
       p \<leftarrow> current k;
       if p_status p = WAITING then do { k \<leftarrow> advance k; skip_waiting n k } else Some k
     }"

definition next_process :: "kernel \<Rightarrow> kernel option" where
  "next_process k =
     do {
       let sz = process_queue_size k;
       k \<leftarrow> advance k;
       k \<leftarrow> skip_waiting (unat sz) k;
       p \<leftarrow> current k;
       if p_status p = WAITING then None else Some k
     }"

definition load_process :: "kernel \<Rightarrow> kernel option" where
  "load_process k =
     do { p \<leftarrow> current k; Some (k\<lparr>esp0 := p_kernel_stack p, cr3 := p_directory p\<rparr>) }"

definition start_scheduler :: "u32 \<Rightarrow> kernel \<Rightarrow> (registers option \<times> kernel) option" where
  "start_scheduler esp k =
     (case procs k of
        [] \<Rightarrow> Some (None, k)
      | p # ps \<Rightarrow>
          let p = p\<lparr>p_status := RUNNING\<rparr>;
              k = k\<lparr>enable_scheduler := True, procs := p # ps, esp0 := p_kernel_stack p,
                    cr3 := p_directory p, k_vm := (k_vm k)\<lparr>paging := True\<rparr>\<rparr>
          in Some (Some (switch_to_process esp p), k))"

definition tick_process :: "pcb \<Rightarrow> pcb" where
  "tick_process p =
     (if p_sleep_ticks p > 0 then
        let p = p\<lparr>p_sleep_ticks := p_sleep_ticks p - 1\<rparr>
        in if p_sleep_ticks p = 0 \<and> p_status p = WAITING then p\<lparr>p_status := READY\<rparr> else p
      else p)"

definition wakes_up :: "pcb \<Rightarrow> bool" where
  "wakes_up p \<longleftrightarrow> p_sleep_ticks p = 1 \<and> p_status p = WAITING"

definition decrement_wait_process :: "kernel \<Rightarrow> bool \<times> kernel" where
  "decrement_wait_process k = (list_ex wakes_up (procs k), k\<lparr>procs := map tick_process (procs k)\<rparr>)"

definition scheduler_wake :: "u32 \<Rightarrow> kernel \<Rightarrow> kernel option" where
  "scheduler_wake pid k =
     do {
       ps \<leftarrow> update_first (\<lambda>p. p_waiting_pid p = pid) (\<lambda>p. Some (p\<lparr>p_status := READY\<rparr>)) (procs k);
       Some (k\<lparr>procs := ps\<rparr>)
     }"

text \<open>
  \<^verbatim>\<open>reparent_children\<close>: when no process has the pid, \<^verbatim>\<open>dying_process\<close> stays
  uninitialised, and reading through it faults.
\<close>

definition reparent_child :: "u32 \<Rightarrow> pcb option \<Rightarrow> u32 \<Rightarrow> kernel \<Rightarrow> kernel option" where
  "reparent_child dying_pid dying a k =
     do {
       c \<leftarrow> proc_at a k;
       if p_parent_pid c = dying_pid then do {
         d \<leftarrow> dying;
         d \<leftarrow> proc_at (p_addr d) k;
         k \<leftarrow> set_proc a (\<lambda>c. c\<lparr>p_parent_pid := p_parent_pid d\<rparr>) k;
         ps \<leftarrow> update_first (\<lambda>g. p_waiting_pid g = dying_pid)
           (\<lambda>g. Some (g\<lparr>p_waiting_pid := p_pid c\<rparr>)) (procs k);
         Some (k\<lparr>procs := ps\<rparr>)
       } else Some k
     }"

definition reparent_children :: "u32 \<Rightarrow> kernel \<Rightarrow> kernel option" where
  "reparent_children dying_pid k =
     foldM (reparent_child dying_pid (find (\<lambda>p. p_pid p = dying_pid) (procs k)))
       (map p_addr (procs k)) k"

definition close_file :: "file_descriptor \<Rightarrow> kernel \<Rightarrow> kernel option" where
  "close_file fd k =
     (if \<not> fd_open fd \<or> fd_type fd \<noteq> FD_FILE then Some k
      else do {
        fat_fd \<leftarrow> fat_fds k (fd_data fd);
        k \<leftarrow> k_kfree (ff_data fat_fd) k;
        k_kfree (fd_data fd) k
      })"

definition scheduler_remove :: "u32 \<Rightarrow> kernel \<Rightarrow> (bool \<times> kernel) option" where
  "scheduler_remove pid k =
     (if pid = 1 \<or> pid = 2 then Some (False, k)
      else do {
        c \<leftarrow> current k;
        if pid = p_pid c then do {
          k \<leftarrow> set_proc (current_process k) (\<lambda>p. p\<lparr>p_status := ZOMBIE\<rparr>) k;
          Some (True, k)
        } else do {
          k \<leftarrow> reparent_children pid k;
          case find (\<lambda>p. p_pid p = pid) (procs k) of
            None \<Rightarrow> Some (True, k)
          | Some p \<Rightarrow> do {
              let k = k\<lparr>procs := drop_first (\<lambda>p. p_pid p = pid) (procs k),
                        process_queue_size := process_queue_size k - 1\<rparr>;
              k \<leftarrow> on_vm (clear_page_directory (p_directory p)) k;
              k \<leftarrow> foldM close_file (p_fds p) k;
              k \<leftarrow> k_kfree (p_kernel_stack p - of_nat PAGE_SIZE) k;
              k \<leftarrow> k_kfree (p_addr p) k;
              Some (True, k)
            }
        }
      })"

text \<open>
  The two halves of a switch in \<^verbatim>\<open>update_scheduler\<close>: leaving the current process \<open>c\<close>,
  which is reaped when it is a zombie and saved otherwise, and entering the one chosen.
\<close>

definition leave_process :: "pcb \<Rightarrow> registers \<Rightarrow> kernel \<Rightarrow> kernel option" where
  "leave_process c regs k =
     (if p_status c = ZOMBIE then do {
        k \<leftarrow> scheduler_wake (p_pid c) k;
        k \<leftarrow> next_process k;
        (_, k) \<leftarrow> scheduler_remove (p_pid c) k;
        Some k
      } else do {
        k \<leftarrow> set_proc (current_process k) (\<lambda>p. p\<lparr>p_registers := regs\<rparr>) k;
        next_process k
      })"

definition enter_process :: "kernel \<Rightarrow> (registers \<times> kernel) option" where
  "enter_process k =
     do {
       k \<leftarrow> set_proc (current_process k) (\<lambda>p. p\<lparr>p_status := RUNNING\<rparr>) k;
       p \<leftarrow> current k;
       k \<leftarrow> load_process k;
       Some (p_registers p, k\<lparr>quantum_counter := 0\<rparr>)
     }"

definition stays :: "bool \<Rightarrow> pcb \<Rightarrow> kernel \<Rightarrow> bool" where
  "stays woke c k \<longleftrightarrow> \<not> woke \<and> quantum_counter k < SCHEDULER_QUANTUM \<and> (p_status c = READY \<or> p_status c = RUNNING)"

definition update_scheduler :: "registers \<Rightarrow> kernel \<Rightarrow> (registers \<times> kernel) option" where
  "update_scheduler regs k =
     (if \<not> enable_scheduler k then Some (regs, k)
      else do {
        let (woke, k) = decrement_wait_process k;
        let k = k\<lparr>quantum_counter := quantum_counter k + 1\<rparr>;
        c \<leftarrow> current k;
        if stays woke c k then Some (regs, k)
        else do { k \<leftarrow> leave_process c regs k; enter_process k }
      })"

definition forget_reader :: "kernel \<Rightarrow> kernel option" where
  "forget_reader k =
     (if wait_process (k_stdin k) = 0 then Some k
      else do {
        p \<leftarrow> proc_at (wait_process (k_stdin k)) k;
        Some (if p_pid p = foreground_pid k
          then k\<lparr>k_stdin := (k_stdin k)\<lparr>wait_process := 0, requested_len := -1\<rparr>\<rparr> else k)
      })"

definition kill_foreground :: "kernel \<Rightarrow> kernel option" where
  "kill_foreground k =
     (case find (\<lambda>p. p_pid p = foreground_pid k) (procs k) of
        None \<Rightarrow> Some k
      | Some p \<Rightarrow> do {
          k \<leftarrow> set_proc (p_addr p) (\<lambda>p. p\<lparr>p_status := ZOMBIE\<rparr>) k;
          w \<leftarrow> remove_window_process (foreground_pid k) (k_wm k);
          Some (k\<lparr>k_wm := w\<rparr>)
        })"

definition sigint_foreground :: "kernel \<Rightarrow> kernel option" where
  "sigint_foreground k =
     do {
       k \<leftarrow> k_print [94, 67, 10, 0] BRIGHT_RED k;
       let k = k\<lparr>k_stdin := stdin_flush (k_stdin k)\<rparr>;
       if foreground_pid k = 0 then Some k
       else do {
         k \<leftarrow> forget_reader k;
         k \<leftarrow> kill_foreground k;
         Some (k\<lparr>foreground_pid := 0\<rparr>)
       }
     }"

text \<open>
  \<^verbatim>\<open>stdin_wake_process\<close> fills the buffer of the blocked reader at the address \<open>w\<close>, with the
  reader's own directory loaded, and goes back to the interrupted process.
\<close>

definition deliver_input :: "u32 \<Rightarrow> kernel \<Rightarrow> kernel option" where
  "deliver_input w k =
     do {
       p \<leftarrow> proc_at w k;
       let k = k\<lparr>esp0 := p_kernel_stack p, cr3 := p_directory p\<rparr>;
       let len = c_min (s_count (k_stdin k)) (requested_len (k_stdin k));
       (inp, out) \<leftarrow> stdin_read len (k_stdin k);
       k \<leftarrow> on_vm (store_bytes (cr3 k) (r_ecx (p_registers p)) out) k;
       k \<leftarrow> set_proc w (\<lambda>p. p\<lparr>p_registers := (p_registers p)\<lparr>r_eax := of_nat (length out)\<rparr>\<rparr>) k;
       Some (k\<lparr>k_stdin := inp\<lparr>wait_process := 0, requested_len := -1\<rparr>\<rparr>)
     }"

definition stdin_wake_process :: "registers \<Rightarrow> kernel \<Rightarrow> (registers \<times> kernel) option" where
  "stdin_wake_process regs k =
     do {
       c \<leftarrow> current k;
       if p_status c = ZOMBIE then Some (regs, k)
       else do {
         let w = wait_process (k_stdin k);
         k \<leftarrow> set_proc w (\<lambda>p. p\<lparr>p_status := RUNNING\<rparr>) k;
         k \<leftarrow> set_proc (current_process k) (\<lambda>p. p\<lparr>p_registers := regs\<rparr>) k;
         k \<leftarrow> deliver_input w k;
         k \<leftarrow> set_proc w (\<lambda>p. p\<lparr>p_status := READY\<rparr>) k;
         c \<leftarrow> current k;
         k \<leftarrow> load_process k;
         Some (p_registers c, k)
       }
     }"

definition stdin_block_process :: "registers \<Rightarrow> int \<Rightarrow> kernel \<Rightarrow> (registers \<times> kernel) option" where
  "stdin_block_process regs len k =
     do {
       k \<leftarrow> set_proc (current_process k)
         (\<lambda>p. p\<lparr>p_status := (if p_status p = ZOMBIE then ZOMBIE else WAITING)\<rparr>) k;
       update_scheduler regs
         (k\<lparr>k_stdin := (k_stdin k)\<lparr>wait_process := current_process k, requested_len := len\<rparr>\<rparr>)
     }"

section \<open>The list of processes\<close>

text \<open>
  Process blocks have different addresses, the current process is one of them, and the size
  counts them.
\<close>

definition sched_ok :: "kernel \<Rightarrow> bool" where
  "sched_ok k \<longleftrightarrow> distinct (map p_addr (procs k)) \<and> 0 \<notin> p_addr ` set (procs k)
     \<and> current_process k \<in> p_addr ` set (procs k) \<and> unat (process_queue_size k) = length (procs k)"

lemma proc_at_nth:
  assumes "distinct (map p_addr (procs k))" "i < length (procs k)" "p_addr (procs k ! i) = a"
  shows "proc_at a k = Some (procs k ! i)"
proof -
  have "find (\<lambda>p. p_addr p = a) (procs k) = Some (procs k ! i)"
    unfolding find_Some_iff
  proof (intro exI [of _ i] conjI allI impI)
    fix j assume "j < i"
    then show "p_addr (procs k ! j) \<noteq> a"
      using assms nth_eq_iff_index_eq [of "map p_addr (procs k)" i j] by auto
  qed (use assms in auto)
  then show ?thesis by (simp add: proc_at_def)
qed

lemma next_in_nth:
  "distinct (map p_addr ps) \<Longrightarrow> i < length ps \<Longrightarrow>
    next_in (p_addr (ps ! i)) ps = Some (if Suc i < length ps then p_addr (ps ! Suc i) else 0)"
proof (induction ps arbitrary: i)
  case (Cons p ps)
  show ?case
  proof (cases i)
    case 0
    then show ?thesis by (cases ps) auto
  next
    case (Suc j)
    then have "p_addr p \<noteq> p_addr (ps ! j)" using Cons.prems by (auto simp: image_iff)
    then show ?thesis using Cons Suc by auto
  qed
qed simp

text \<open>\<open>at k j\<close>: the kernel with the process at position \<open>j\<close> of the cycle as the current one.\<close>

definition at :: "kernel \<Rightarrow> nat \<Rightarrow> kernel" where
  "at k j = k\<lparr>current_process := p_addr (procs k ! (j mod length (procs k)))\<rparr>"

lemma at_rest [simp]:
  "procs (at k j) = procs k" "process_queue_size (at k j) = process_queue_size k"
  "at (at k i) j = at k j"
  by (simp_all add: at_def)

lemma sched_nonempty: "sched_ok k \<Longrightarrow> 0 < length (procs k)"
  by (auto simp: sched_ok_def)

lemma current_at: "sched_ok k \<Longrightarrow> current (at k j) = Some (procs k ! (j mod length (procs k)))"
  using sched_nonempty [of k] unfolding current_def
  by (intro proc_at_nth [where k = "at k j", simplified]) (simp_all add: sched_ok_def at_def)

lemma advance_at:
  assumes "sched_ok k"
  shows "advance (at k j) = Some (at k (Suc j))"
proof -
  let ?n = "length (procs k)"
  have n: "0 < ?n" and d: "distinct (map p_addr (procs k))" and z: "0 \<notin> p_addr ` set (procs k)"
    using assms sched_nonempty by (auto simp: sched_ok_def)
  have i: "j mod ?n < ?n" using n by simp
  have h: "head_ptr (at k j) = p_addr (procs k ! 0)"
    using n by (cases "procs k") (simp_all add: head_ptr_def)
  have nz: "p_addr (procs k ! Suc (j mod ?n)) \<noteq> 0" if "Suc (j mod ?n) < ?n"
    using z that by (metis imageI nth_mem)
  have "advance (at k j) = Some ((at k j)\<lparr>current_process :=
      (if Suc (j mod ?n) < ?n then p_addr (procs k ! Suc (j mod ?n)) else p_addr (procs k ! 0))\<rparr>)"
    using next_in_nth [OF d i] nz h by (simp add: advance_def at_def)
  also have "\<dots> = Some (at k (Suc j))"
    using i by (simp add: at_def mod_Suc)
  finally show ?thesis .
qed

lemma skip_waiting_at:
  assumes "sched_ok k"
  shows "skip_waiting m (at k j) = Some (at k (j + length (takeWhile (\<lambda>p. p_status p = WAITING)
      (map (\<lambda>e. procs k ! ((j + e) mod length (procs k))) [0..<m]))))"
proof (induction m arbitrary: j)
  case (Suc m)
  have "[0..<Suc m] = 0 # map Suc [0..<m]" by (simp add: map_Suc_upt upt_conv_Cons del: upt_Suc)
  then show ?case
    using Suc.IH [of "Suc j"] by (simp add: current_at [OF assms] advance_at [OF assms] o_def)
qed simp

lemma current_index:
  assumes "sched_ok k"
  obtains i where "i < length (procs k)" "p_addr (procs k ! i) = current_process k" "k = at k i"
proof -
  obtain p where "p \<in> set (procs k)" "p_addr p = current_process k" using assms by (auto simp: sched_ok_def)
  then obtain i where "i < length (procs k)" "p_addr (procs k ! i) = current_process k"
    by (auto simp: in_set_conv_nth)
  then show ?thesis by (intro that [of i]) (simp_all add: at_def)
qed

lemma takeWhile_all: "j < length (takeWhile P xs) \<Longrightarrow> P (xs ! j)"
  using set_takeWhileD [of "takeWhile P xs ! j" P xs] takeWhile_nth [of j P xs] nth_mem [of j "takeWhile P xs"]
  by simp

lemma takeWhile_stops: "\<exists>x \<in> set xs. \<not> P x \<Longrightarrow> length (takeWhile P xs) < length xs"
  by (induction xs) auto

lemma next_process_eq:
  assumes "sched_ok k" "i < length (procs k)" "p_addr (procs k ! i) = current_process k"
  shows "next_process k = map_option (\<lambda>p. k\<lparr>current_process := p_addr p\<rparr>)
    (find (\<lambda>p. p_status p \<noteq> WAITING) (rotate (Suc i) (procs k)))"
proof -
  let ?n = "length (procs k)" and ?W = "\<lambda>p. p_status p = WAITING"
  let ?L = "rotate (Suc i) (procs k)"
  have k: "k = at k i" using assms(2,3) by (simp add: at_def)
  have L: "map (\<lambda>e. procs k ! ((Suc i + e) mod ?n)) [0..<?n] = ?L"
    by (rule nth_equalityI) (simp_all add: nth_rotate del: rotate_Suc)
  have sz: "unat (process_queue_size k) = ?n" using assms(1) by (simp add: sched_ok_def)
  define m where "m = length (takeWhile ?W ?L)"
  have skip: "skip_waiting (unat (process_queue_size k)) (at k (Suc i)) = Some (at k (Suc i + m))"
    unfolding skip_waiting_at [OF assms(1)] sz L m_def ..
  have np: "next_process k = (if ?W (procs k ! ((Suc i + m) mod ?n)) then None else Some (at k (Suc i + m)))"
    using advance_at [OF assms(1), of i] skip current_at [OF assms(1), of "Suc i + m"]
    by (simp add: next_process_def flip: k)
  show ?thesis
  proof (cases "\<exists>p \<in> set ?L. \<not> ?W p")
    case True
    have "m < ?n" unfolding m_def using takeWhile_stops [of ?L ?W] True by simp
    then have p: "?L ! m = procs k ! ((Suc i + m) mod ?n)" by (simp add: nth_rotate del: rotate_Suc)
    have nw: "\<not> ?W (?L ! m)" unfolding m_def by (rule nth_length_takeWhile) (use \<open>m < ?n\<close> m_def in simp)
    have "find (\<lambda>p. \<not> ?W p) ?L = Some (?L ! m)"
      unfolding find_Some_iff
    proof (intro exI [of _ m] conjI allI impI)
      fix j assume "j < m"
      then show "\<not> \<not> ?W (?L ! j)" using takeWhile_all [of j ?W ?L] by (simp add: m_def)
    qed (use \<open>m < ?n\<close> nw in simp_all)
    then show ?thesis using np nw p by (simp add: at_def)
  next
    case False
    then have "find (\<lambda>p. \<not> ?W p) ?L = None" by (simp add: find_None_iff)
    moreover have "?W (procs k ! ((Suc i + m) mod ?n))"
    proof -
      have "(Suc i + m) mod ?n < ?n" using assms(2) by (intro mod_less_divisor) linarith
      then have "procs k ! ((Suc i + m) mod ?n) \<in> set ?L" by simp
      then show ?thesis using False by blast
    qed
    ultimately show ?thesis using np by simp
  qed
qed

text \<open>
  \<^verbatim>\<open>next_process\<close> picks the first process behind the current one, in the cyclic order of the
  list, that is not waiting; the current process comes last. If all are waiting it hangs.
\<close>

theorem next_process_round_robin:
  assumes "sched_ok k" "i < length (procs k)" "p_addr (procs k ! i) = current_process k"
  shows "next_process k = map_option (\<lambda>p. k\<lparr>current_process := p_addr p\<rparr>)
    (find (\<lambda>p. p_status p \<noteq> WAITING) (rotate (Suc i) (procs k)))"
  by (rule next_process_eq [OF assms])

text \<open>
  Nobody starves: as long as the states of the processes do not change, a process that is not
  waiting is chosen within as many switches as there are processes.
\<close>

definition switches :: "nat \<Rightarrow> kernel \<Rightarrow> kernel option" where
  "switches m k = foldM (\<lambda>_. next_process) [0..<m] k"

lemma switches_Suc: "switches (Suc m) k = do { k \<leftarrow> next_process k; switches m k }"
proof -
  have "foldM (\<lambda>_. next_process) [0..<Suc m] k = foldM (\<lambda>_. next_process) (0 # map Suc [0..<m]) k"
    by (simp add: map_Suc_upt upt_conv_Cons del: upt_Suc)
  also have "\<dots> = do { k \<leftarrow> next_process k; foldM (\<lambda>_. next_process) [0..<m] k }"
    unfolding foldM.simps foldM_map ..
  finally show ?thesis unfolding switches_def .
qed

lemma switches_reach:
  assumes "sched_ok k" "p_status (procs k ! ((Suc i + d) mod length (procs k))) \<noteq> WAITING" "d < length (procs k)"
  shows "\<exists>m \<le> Suc d. 0 < m \<and> switches m (at k i) = Some (at k (Suc i + d))"
  using assms(2,3)
proof (induction d arbitrary: i rule: less_induct)
  case (less d)
  let ?n = "length (procs k)" and ?W = "\<lambda>p. p_status p = WAITING"
  define xs where "xs = map (\<lambda>e. procs k ! ((Suc i + e) mod ?n)) [0..<?n]"
  define m where "m = length (takeWhile ?W xs)"
  have sz: "unat (process_queue_size k) = ?n" using assms(1) by (simp add: sched_ok_def)
  have xd: "xs ! d = procs k ! ((Suc i + d) mod ?n)" "length xs = ?n" using less.prems(2) by (simp_all add: xs_def)
  have md: "m \<le> d"
  proof (rule ccontr)
    assume "\<not> m \<le> d"
    then have "?W (xs ! d)" using takeWhile_all [of d ?W xs] by (simp add: m_def)
    then show False using less.prems(1) xd by simp
  qed
  then have xm: "xs ! m = procs k ! ((Suc i + m) mod ?n)" "m < length xs"
    using less.prems(2) xd(2) by (simp_all add: xs_def)
  then have nw: "\<not> ?W (procs k ! ((Suc i + m) mod ?n))"
    using nth_length_takeWhile [of ?W xs] by (simp add: m_def)
  have np: "next_process (at k i) = Some (at k (Suc i + m))"
    using skip_waiting_at [OF assms(1), of ?n "Suc i"] advance_at [OF assms(1), of i]
      current_at [OF assms(1), of "Suc i + m"] nw
    by (simp add: next_process_def sz m_def xs_def)
  show ?case
  proof (cases "m = d")
    case True
    then show ?thesis using np by (intro exI [of _ 1]) (simp add: switches_def)
  next
    case False
    then have lt: "d - m - 1 < d" and e: "Suc (Suc i + m) + (d - m - 1) = Suc i + d" using md by simp_all
    obtain q where q: "q \<le> Suc (d - m - 1)" "0 < q" "switches q (at k (Suc i + m)) = Some (at k (Suc i + d))"
      using less.IH [OF lt, of "Suc i + m"] less.prems lt unfolding e by (auto intro: less_trans)
    then have "switches (Suc q) (at k i) = Some (at k (Suc i + d))" by (simp add: switches_Suc np)
    then show ?thesis using q(1) False md by (intro exI [of _ "Suc q"]) simp
  qed
qed

text \<open>C9: 
  No ready process starves: from any consistent state, a process that does not wait becomes the
  current one after at least one and at most as many switches as there are processes, and the
  switching itself changes no process.
\<close>

theorem no_process_starves:
  assumes "sched_ok k" "p \<in> set (procs k)" "p_status p \<noteq> WAITING"
  shows "\<exists>m k'. 0 < m \<and> m \<le> length (procs k) \<and> switches m k = Some k'
    \<and> current_process k' = p_addr p \<and> procs k' = procs k"
proof -
  let ?n = "length (procs k)"
  obtain i where i: "i < ?n" "k = at k i" using current_index [OF assms(1)] by blast
  obtain j where j: "j < ?n" "procs k ! j = p" using assms(2) by (auto simp: in_set_conv_nth)
  define d where "d = (if i < j then j - i - 1 else j + ?n - i - 1)"
  have "Suc i + d = (if i < j then j else j + ?n)" using i(1) by (auto simp: d_def)
  then have "d < ?n" "(Suc i + d) mod ?n = j" using i(1) j(1) by (auto simp: d_def split: if_splits)
  then obtain m where "m \<le> Suc d" "0 < m" "switches m (at k i) = Some (at k (Suc i + d))"
    using switches_reach [OF assms(1), of i d] assms(3) j(2) by auto
  then show ?thesis using \<open>d < ?n\<close> \<open>(Suc i + d) mod ?n = j\<close> i(2) j(2)
    by (intro exI [of _ m] exI [of _ "at k (Suc i + d)"]) (simp add: at_def)
qed

section \<open>Every operation keeps the list\<close>

text \<open>What the invariant reads of the state; most operations do not change it at all.\<close>

definition roster :: "kernel \<Rightarrow> (u32 \<times> u32 \<times> file_descriptor list) list" where
  "roster k = map (\<lambda>p. (p_addr p, p_pid p, p_fds p)) (procs k)"

definition same_roster :: "kernel \<Rightarrow> kernel \<Rightarrow> bool" where
  "same_roster k k' \<longleftrightarrow> roster k' = roster k \<and> current_process k' = current_process k
     \<and> process_queue_size k' = process_queue_size k \<and> fat_fds k' = fat_fds k"

lemma same_roster_refl [simp]: "same_roster k k"
  by (simp add: same_roster_def)

lemma same_roster_trans: "same_roster k k' \<Longrightarrow> same_roster k' k'' \<Longrightarrow> same_roster k k''"
  by (simp add: same_roster_def)

lemma roster_addrs: "map p_addr (procs k) = map fst (roster k)"
  by (simp add: roster_def)

lemma roster_pids: "map p_pid (procs k) = map (\<lambda>x. fst (snd x)) (roster k)"
  by (simp add: roster_def)

lemma same_roster_ok: "same_roster k k' \<Longrightarrow> sched_ok k \<Longrightarrow> sched_ok k'"
proof -
  have eq: "sched_ok k \<longleftrightarrow> distinct (map fst (roster k)) \<and> 0 \<notin> set (map fst (roster k))
     \<and> current_process k \<in> set (map fst (roster k)) \<and> unat (process_queue_size k) = length (roster k)" for k
    by (simp add: sched_ok_def flip: roster_addrs) (simp add: roster_def)
  assume "same_roster k k'" "sched_ok k"
  then show "sched_ok k'" unfolding eq same_roster_def by simp
qed

lemma set_proc_roster:
  "set_proc a f k = Some k' \<Longrightarrow> (\<And>p. p_addr (f p) = p_addr p \<and> p_pid (f p) = p_pid p \<and> p_fds (f p) = p_fds p) \<Longrightarrow> same_roster k k'"
  by (auto simp: set_proc_def same_roster_def roster_def split: if_splits)

lemma update_procs_roster:
  "update_first P f (procs k) = Some ps \<Longrightarrow>
    (\<And>p q. f p = Some q \<Longrightarrow> p_addr q = p_addr p \<and> p_pid q = p_pid p \<and> p_fds q = p_fds p) \<Longrightarrow> same_roster k (k\<lparr>procs := ps\<rparr>)"
  unfolding same_roster_def roster_def by (auto elim!: update_first_parts)

lemma foldM_roster:
  "foldM f xs k = Some k' \<Longrightarrow> (\<And>x k k'. x \<in> set xs \<Longrightarrow> f x k = Some k' \<Longrightarrow> same_roster k k') \<Longrightarrow> same_roster k k'"
proof (induction xs arbitrary: k)
  case (Cons x xs)
  then obtain k1 where k1: "f x k = Some k1" "foldM f xs k1 = Some k'" by (auto split: bind_splits)
  have "same_roster k k1" by (rule Cons.prems(2) [OF _ k1(1)]) simp
  moreover have "same_roster k1 k'" by (rule Cons.IH [OF k1(2)], rule Cons.prems(2)) simp_all
  ultimately show ?case by (rule same_roster_trans)
qed simp

lemma on_heap_roster: "on_heap f k = Some k' \<Longrightarrow> same_roster k k'"
  by (auto simp: on_heap_def same_roster_def roster_def split: bind_splits)

lemma k_kfree_roster: "k_kfree p k = Some k' \<Longrightarrow> same_roster k k'"
  unfolding k_kfree_def by (rule on_heap_roster)

lemma on_vm_roster: "on_vm f k = Some k' \<Longrightarrow> same_roster k k'"
  by (auto simp: on_vm_def same_roster_def roster_def split: bind_splits)

lemma k_print_roster: "k_print str c k = Some k' \<Longrightarrow> same_roster k k'"
  by (auto simp: k_print_def same_roster_def roster_def split: bind_splits)

lemma load_process_roster: "load_process k = Some k' \<Longrightarrow> same_roster k k'"
  by (auto simp: load_process_def same_roster_def roster_def split: bind_splits)

lemma tick_process_parts [simp]:
  "p_addr (tick_process p) = p_addr p" "p_pid (tick_process p) = p_pid p" "p_fds (tick_process p) = p_fds p"
  by (simp_all add: tick_process_def Let_def)

lemma tick_roster: "decrement_wait_process k = (w, k') \<Longrightarrow> same_roster k k'"
  by (auto simp: decrement_wait_process_def same_roster_def roster_def)

lemma wake_roster: "scheduler_wake pid k = Some k' \<Longrightarrow> same_roster k k'"
  by (auto simp: scheduler_wake_def split: bind_splits elim!: update_procs_roster)

lemma close_file_roster: "close_file fd k = Some k' \<Longrightarrow> same_roster k k'"
  by (auto simp: close_file_def split: if_splits bind_splits dest!: k_kfree_roster simp: same_roster_def)

lemma reparent_roster: "reparent_children pid k = Some k' \<Longrightarrow> same_roster k k'"
  unfolding reparent_children_def
proof (erule foldM_roster)
  fix a k k' dying
  assume "reparent_child pid dying a k = Some k'"
  then obtain c where c: "proc_at a k = Some c"
      "(if p_parent_pid c = pid then do {
         d \<leftarrow> dying;
         d \<leftarrow> proc_at (p_addr d) k;
         k \<leftarrow> set_proc a (\<lambda>c. c\<lparr>p_parent_pid := p_parent_pid d\<rparr>) k;
         ps \<leftarrow> update_first (\<lambda>g. p_waiting_pid g = pid)
           (\<lambda>g. Some (g\<lparr>p_waiting_pid := p_pid c\<rparr>)) (procs k);
         Some (k\<lparr>procs := ps\<rparr>)
       } else Some k) = Some k'"
    by (cases "proc_at a k") (simp_all add: reparent_child_def)
  show "same_roster k k'"
  proof (cases "p_parent_pid c = pid")
    case True
    then obtain d0 d k1 ps where k1: "dying = Some d0" "proc_at (p_addr d0) k = Some d" "set_proc a (\<lambda>c. c\<lparr>p_parent_pid := p_parent_pid d\<rparr>) k = Some k1"
        "update_first (\<lambda>g. p_waiting_pid g = pid) (\<lambda>g. Some (g\<lparr>p_waiting_pid := p_pid c\<rparr>)) (procs k1) = Some ps"
        "k' = k1\<lparr>procs := ps\<rparr>"
      using c(2) by (simp split: bind_splits)
    have "same_roster k k1" by (rule set_proc_roster [OF k1(3)]) simp
    moreover have "same_roster k1 k'" unfolding k1(5) by (rule update_procs_roster [OF k1(4)]) auto
    ultimately show ?thesis by (rule same_roster_trans)
  qed (use c in simp)
qed

lemmas roster_intros = set_proc_roster update_procs_roster k_kfree_roster on_vm_roster k_print_roster
  load_process_roster tick_roster wake_roster close_file_roster reparent_roster

lemma next_process_ok:
  assumes "sched_ok k" "next_process k = Some k'"
  shows "sched_ok k' \<and> procs k' = procs k"
proof -
  obtain i where i: "i < length (procs k)" "p_addr (procs k ! i) = current_process k"
    using current_index [OF assms(1)] by blast
  obtain p where p: "find (\<lambda>p. p_status p \<noteq> WAITING) (rotate (Suc i) (procs k)) = Some p"
      "k' = k\<lparr>current_process := p_addr p\<rparr>"
    using assms(2) next_process_eq [OF assms(1) i] by auto
  have "p \<in> set (procs k)" using find_Some_iff [THEN iffD1, OF p(1)]
    by (metis length_rotate nth_mem set_rotate)
  then show ?thesis using assms(1) p(2) by (simp add: sched_ok_def)
qed

lemma drop_first_props:
  "find P xs = Some x \<Longrightarrow> distinct (map g xs) \<Longrightarrow> distinct (map g (drop_first P xs))
    \<and> set (map g (drop_first P xs)) = set (map g xs) - {g x} \<and> Suc (length (drop_first P xs)) = length xs"
  by (drule find_split) (force simp: distinct_map)

lemma remove_ok:
  assumes "sched_ok k" "scheduler_remove pid k = Some (b, k')"
  shows "sched_ok k'"
proof (cases "pid = 1 \<or> pid = 2")
  case True
  then show ?thesis using assms by (simp add: scheduler_remove_def)
next
  case False
  obtain c where c: "current k = Some c"
    using assms(2) False by (auto simp: scheduler_remove_def split: bind_splits)
  show ?thesis
  proof (cases "pid = p_pid c")
    case True
    then have "same_roster k k'"
      using assms(2) False c by (auto simp: scheduler_remove_def split: bind_splits intro: set_proc_roster)
    then show ?thesis using assms(1) same_roster_ok by blast
  next
    case ne: False
    obtain k1 where k1: "reparent_children pid k = Some k1"
      using assms(2) False c ne by (auto simp: scheduler_remove_def split: bind_splits)
    have r1: "same_roster k k1" using k1 by (rule reparent_roster)
    note ok1 = same_roster_ok [OF r1 assms(1)]
    show ?thesis
    proof (cases "find (\<lambda>p. p_pid p = pid) (procs k1)")
      case None
      then show ?thesis using assms(2) False c ne k1 ok1 by (simp add: scheduler_remove_def)
    next
      case (Some p)
      let ?k2 = "k1\<lparr>procs := drop_first (\<lambda>p. p_pid p = pid) (procs k1),
          process_queue_size := process_queue_size k1 - 1\<rparr>"
      note d = drop_first_props [OF Some, of p_addr]
      have pp: "p_pid p = pid" "p \<in> set (procs k1)" using Some by (auto simp: find_Some_iff)
      have "p_addr p \<noteq> current_process k1"
      proof
        assume "p_addr p = current_process k1"
        then have "(current_process k1, pid, p_fds p) \<in> set (roster k1)"
          using pp image_eqI [of _ "\<lambda>p. (p_addr p, p_pid p, p_fds p)" p "set (procs k1)"] by (simp add: roster_def)
        then have "(current_process k, pid, p_fds p) \<in> set (roster k)" using r1 by (simp add: same_roster_def)
        then obtain q where q: "q \<in> set (procs k)" "p_addr q = current_process k" "p_pid q = pid"
          by (auto simp: roster_def)
        moreover have "c \<in> set (procs k)" "p_addr c = current_process k"
          using c by (auto simp: current_def proc_at_def find_Some_iff)
        ultimately have "c = q" using assms(1) by (auto simp: sched_ok_def distinct_map inj_on_def)
        then show False using q(3) ne by simp
      qed
      moreover have "1 \<le> process_queue_size k1"
        using ok1 d by (auto simp: sched_ok_def word_le_nat_alt)
      ultimately have ok2: "sched_ok ?k2"
        using ok1 d by (auto simp: sched_ok_def unat_minus32)
      obtain k3 k4 k5 where k: "on_vm (clear_page_directory (p_directory p)) ?k2 = Some k3"
          "foldM close_file (p_fds p) k3 = Some k4"
          "k_kfree (p_kernel_stack p - of_nat PAGE_SIZE) k4 = Some k5" "k_kfree (p_addr p) k5 = Some k'"
        using assms(2) False c ne k1 Some by (auto simp: scheduler_remove_def Let_def split: bind_splits)
      have "same_roster ?k2 k3" "same_roster k3 k4" "same_roster k4 k5" "same_roster k5 k'"
        by (rule on_vm_roster [OF k(1)], rule foldM_roster [OF k(2) close_file_roster], assumption,
            rule k_kfree_roster [OF k(3)], rule k_kfree_roster [OF k(4)])
      then have "same_roster ?k2 k'" by (simp add: same_roster_def)
      then show ?thesis using ok2 same_roster_ok by blast
    qed
  qed
qed

lemma leave_process_ok:
  assumes "sched_ok k" "leave_process c regs k = Some k'"
  shows "sched_ok k'"
proof (cases "p_status c = ZOMBIE")
  case True
  then obtain ka kb b where "scheduler_wake (p_pid c) k = Some ka" "next_process ka = Some kb"
      "scheduler_remove (p_pid c) kb = Some (b, k')"
    using assms(2) by (auto simp: leave_process_def split: bind_splits)
  then show ?thesis using assms(1) wake_roster same_roster_ok next_process_ok remove_ok by meson
next
  case False
  then obtain ka where ka: "set_proc (current_process k) (\<lambda>p. p\<lparr>p_registers := regs\<rparr>) k = Some ka"
      "next_process ka = Some k'"
    using assms(2) by (auto simp: leave_process_def split: bind_splits)
  have "same_roster k ka" by (rule set_proc_roster [OF ka(1)]) simp
  then show ?thesis using assms(1) same_roster_ok next_process_ok ka(2) by meson
qed

lemma enter_process_roster: "enter_process k = Some (r, k') \<Longrightarrow> same_roster k k'"
  by (auto simp: enter_process_def load_process_def same_roster_def roster_def set_proc_def
      split: bind_splits if_splits)

lemma update_scheduler_ok:
  assumes "sched_ok k" "update_scheduler regs k = Some (r, k')"
  shows "sched_ok k'"
proof (cases "enable_scheduler k")
  case False
  then show ?thesis using assms by (simp add: update_scheduler_def)
next
  case True
  obtain woke k0 where k0: "decrement_wait_process k = (woke, k0)" by (cases "decrement_wait_process k")
  define k1 where "k1 = k0\<lparr>quantum_counter := quantum_counter k0 + 1\<rparr>"
  have "same_roster k k1"
    using tick_roster [OF k0] by (simp add: k1_def same_roster_def roster_def)
  then have ok1: "sched_ok k1" using assms(1) same_roster_ok by blast
  have u: "do { c \<leftarrow> current k1; if stays woke c k1 then Some (regs, k1)
      else do { k \<leftarrow> leave_process c regs k1; enter_process k } } = Some (r, k')"
    using assms(2) True unfolding update_scheduler_def k0 k1_def Let_def by simp
  then obtain c where c: "current k1 = Some c" by (auto split: bind_splits)
  show ?thesis
  proof (cases "stays woke c k1")
    case True
    then show ?thesis using u c ok1 by simp
  next
    case False
    then obtain k2 where "leave_process c regs k1 = Some k2" "enter_process k2 = Some (r, k')"
      using u c by (auto split: bind_splits)
    then show ?thesis using leave_process_ok [OF ok1] enter_process_roster same_roster_ok by blast
  qed
qed

lemma forget_reader_roster: "forget_reader k = Some k' \<Longrightarrow> same_roster k k'"
  by (auto simp: forget_reader_def same_roster_def roster_def split: if_splits bind_splits)

lemma kill_foreground_roster: "kill_foreground k = Some k' \<Longrightarrow> same_roster k k'"
  by (auto simp: kill_foreground_def same_roster_def roster_def set_proc_def
      split: option.splits if_splits bind_splits)

lemma sigint_roster:
  assumes "sigint_foreground k = Some k'"
  shows "same_roster k k'"
proof -
  obtain k1 where k1: "k_print [94, 67, 10, 0] BRIGHT_RED k = Some k1"
    using assms by (auto simp: sigint_foreground_def split: bind_splits)
  let ?k2 = "k1\<lparr>k_stdin := stdin_flush (k_stdin k1)\<rparr>"
  have r: "same_roster k ?k2"
    using k_print_roster [OF k1] by (simp add: same_roster_def roster_def)
  show ?thesis
  proof (cases "foreground_pid k1 = 0")
    case True
    then show ?thesis using assms k1 r by (simp add: sigint_foreground_def)
  next
    case False
    then obtain k3 k4 where "forget_reader ?k2 = Some k3" "kill_foreground k3 = Some k4" "k' = k4\<lparr>foreground_pid := 0\<rparr>"
      using assms k1 by (auto simp: sigint_foreground_def split: bind_splits)
    then have "same_roster ?k2 k3" "same_roster k3 k4" "same_roster k4 k'"
      using forget_reader_roster kill_foreground_roster by (blast, blast, simp add: same_roster_def roster_def)
    then show ?thesis using r by (simp add: same_roster_def)
  qed
qed

lemma deliver_input_roster: "deliver_input w k = Some k' \<Longrightarrow> same_roster k k'"
  by (auto simp: deliver_input_def same_roster_def roster_def on_vm_def set_proc_def Let_def
      split: bind_splits if_splits)

lemma stdin_wake_roster:
  assumes "stdin_wake_process regs k = Some (r, k')"
  shows "same_roster k k'"
proof -
  obtain c where c: "current k = Some c"
    using assms by (auto simp: stdin_wake_process_def split: bind_splits)
  show ?thesis
  proof (cases "p_status c = ZOMBIE")
    case True
    then show ?thesis using assms c by (simp add: stdin_wake_process_def)
  next
    case False
    define w where "w = wait_process (k_stdin k)"
    obtain k1 k2 k3 k4 k5 where k:
        "set_proc w (\<lambda>p. p\<lparr>p_status := RUNNING\<rparr>) k = Some k1"
        "set_proc (current_process k1) (\<lambda>p. p\<lparr>p_registers := regs\<rparr>) k1 = Some k2"
        "deliver_input w k2 = Some k3" "set_proc w (\<lambda>p. p\<lparr>p_status := READY\<rparr>) k3 = Some k4"
        "load_process k4 = Some k5" "k' = k5"
      using assms c False by (auto simp: stdin_wake_process_def w_def Let_def split: bind_splits)
    have "same_roster k k1" by (rule set_proc_roster [OF k(1)]) simp
    moreover have "same_roster k1 k2" by (rule set_proc_roster [OF k(2)]) simp
    moreover have "same_roster k2 k3" by (rule deliver_input_roster [OF k(3)])
    moreover have "same_roster k3 k4" by (rule set_proc_roster [OF k(4)]) simp
    moreover have "same_roster k4 k5" by (rule load_process_roster [OF k(5)])
    ultimately show ?thesis unfolding k(6) by (simp add: same_roster_def)
  qed
qed

lemma stdin_block_ok:
  assumes "sched_ok k" "stdin_block_process regs len k = Some (r, k')"
  shows "sched_ok k'"
proof -
  obtain k1 where k1: "set_proc (current_process k)
      (\<lambda>p. p\<lparr>p_status := (if p_status p = ZOMBIE then ZOMBIE else WAITING)\<rparr>) k = Some k1"
      "update_scheduler regs (k1\<lparr>k_stdin := (k_stdin k1)\<lparr>wait_process := current_process k1, requested_len := len\<rparr>\<rparr>)
        = Some (r, k')"
    using assms(2) by (auto simp: stdin_block_process_def split: bind_splits)
  have "same_roster k k1" by (rule set_proc_roster [OF k1(1)]) simp
  then have "sched_ok k1" using assms(1) same_roster_ok by blast
  then have "sched_ok (k1\<lparr>k_stdin := (k_stdin k1)\<lparr>wait_process := current_process k1, requested_len := len\<rparr>\<rparr>)"
    by (simp add: sched_ok_def)
  then show ?thesis using k1(2) update_scheduler_ok by blast
qed

lemma enqueue_ok:
  assumes "sched_ok k" "p_addr p \<notin> p_addr ` set (procs k)" "p_addr p \<noteq> 0" "length (procs k) < 2 ^ 31"
  shows "sched_ok (scheduler_enqueue p k)"
proof -
  have "head_ptr k \<noteq> 0" using assms(1) by (cases "procs k") (auto simp: sched_ok_def head_ptr_def)
  moreover have "unat (process_queue_size k + 1) = Suc (unat (process_queue_size k))"
    using assms(1,4) by (subst unat_plus32) (simp_all add: sched_ok_def)
  ultimately show ?thesis using assms by (auto simp: sched_ok_def scheduler_enqueue_def)
qed

inductive sched_step :: "kernel \<Rightarrow> kernel \<Rightarrow> bool" where
  step_tick: "update_scheduler regs k = Some (r, k') \<Longrightarrow> sched_step k k'"
| step_enqueue: "p_addr p \<notin> p_addr ` set (procs k) \<Longrightarrow> p_addr p \<noteq> 0 \<Longrightarrow> length (procs k) < 2 ^ 31 \<Longrightarrow>
    sched_step k (scheduler_enqueue p k)"
| step_remove: "scheduler_remove pid k = Some (b, k') \<Longrightarrow> sched_step k k'"
| step_sigint: "sigint_foreground k = Some k' \<Longrightarrow> sched_step k k'"
| step_block: "stdin_block_process regs len k = Some (r, k') \<Longrightarrow> sched_step k k'"
| step_wake: "stdin_wake_process regs k = Some (r, k') \<Longrightarrow> sched_step k k'"

definition sched_start :: "kernel \<Rightarrow> bool" where
  "sched_start k \<longleftrightarrow> (\<exists>p k0. k = init_scheduler p k0 \<and> p_addr p \<noteq> 0 \<and> process_queue_size k0 = 0)"

interpretation ps: invariant_system sched_start sched_step sched_ok
proof unfold_locales
  fix k assume "sched_start k"
  then show "sched_ok k" by (auto simp: sched_start_def sched_ok_def init_scheduler_def)
next
  fix k k' assume "sched_ok k" "sched_step k k'"
  from this(2, 1) show "sched_ok k'"
  proof cases
    case step_enqueue
    then show ?thesis using enqueue_ok \<open>sched_ok k\<close> by blast
  qed (blast intro: update_scheduler_ok remove_ok stdin_block_ok same_roster_ok sigint_roster stdin_wake_roster)+
qed

text \<open>
  From the boot sequence on, whatever the timer, the keyboard and the system calls do to the
  processes, the blocks in the list have different addresses, the current process is one of
  them, and \<^verbatim>\<open>process_queue_size\<close> counts them.
\<close>

theorem process_list_consistent:
  assumes "reach sched_start sched_step k"
  shows "distinct (map p_addr (procs k)) \<and> current_process k \<in> p_addr ` set (procs k)
    \<and> unat (process_queue_size k) = length (procs k)"
  using ps.reach_inv [OF assms] by (simp add: sched_ok_def)

section \<open>The context switch\<close>

definition entered :: "pcb \<Rightarrow> pcb \<Rightarrow> pcb" where
  "entered p q = (if p_addr q = p_addr p then q\<lparr>p_status := RUNNING\<rparr> else q)"

lemma addr_comp [simp]:
  "p_addr \<circ> tick_process = p_addr" "p_addr \<circ> entered p = p_addr" "p_addr ` tick_process ` S = p_addr ` S"
  by (simp_all add: fun_eq_iff entered_def image_image)

lemma enter_process_eq:
  assumes "sched_ok k" "p \<in> set (procs k)" "p_addr p = current_process k"
  shows "enter_process k = Some (p_registers p, k\<lparr>procs := map (entered p) (procs k),
    quantum_counter := 0, esp0 := p_kernel_stack p, cr3 := p_directory p\<rparr>)"
proof -
  obtain j where j: "j < length (procs k)" "procs k ! j = p" using assms(2) by (auto simp: in_set_conv_nth)
  have d: "distinct (map p_addr (procs k))" using assms(1) by (simp add: sched_ok_def)
  let ?k = "k\<lparr>procs := map (entered p) (procs k)\<rparr>"
  have s: "set_proc (current_process k) (\<lambda>p. p\<lparr>p_status := RUNNING\<rparr>) k = Some ?k"
    using proc_at_nth [OF d j(1), of "current_process k"] j(2) assms(3)
    by (simp add: set_proc_def entered_def [abs_def])
  have "current ?k = Some (p\<lparr>p_status := RUNNING\<rparr>)"
    using proc_at_nth [of ?k j "current_process k"] j d assms(3)
    by (simp add: current_def proc_at_def entered_def)
  then show ?thesis using s by (simp add: enter_process_def load_process_def)
qed

lemma switch_eq:
  assumes "sched_ok k" "enable_scheduler k" "i < length (procs k)" "p_addr (procs k ! i) = current_process k"
    and "decrement_wait_process k = (woke, k0)" "p_status (procs k0 ! i) \<noteq> ZOMBIE"
    and "\<not> stays woke (procs k0 ! i) (k0\<lparr>quantum_counter := quantum_counter k0 + 1\<rparr>)"
    and ps: "ps = (map tick_process (procs k))[i := (tick_process (procs k ! i))\<lparr>p_registers := regs\<rparr>]"
  shows "update_scheduler regs k = map_option (\<lambda>p. (p_registers p, k\<lparr>procs := map (entered p) ps,
      current_process := p_addr p, quantum_counter := 0, esp0 := p_kernel_stack p, cr3 := p_directory p\<rparr>))
    (find (\<lambda>p. p_status p \<noteq> WAITING) (rotate (Suc i) ps))"
proof -
  define k1 where "k1 = k0\<lparr>quantum_counter := quantum_counter k0 + 1\<rparr>"
  have k0: "k0 = k\<lparr>procs := map tick_process (procs k)\<rparr>"
    using assms(5) by (simp add: decrement_wait_process_def)
  have k1: "k1 = k\<lparr>procs := map tick_process (procs k), quantum_counter := quantum_counter k + 1\<rparr>"
    by (simp add: k1_def k0)
  have ok1: "sched_ok k1" using assms(1) by (auto simp: sched_ok_def k1)
  have c1: "current k1 = Some (procs k0 ! i)"
    using proc_at_nth [of k1 i "current_process k"] ok1 assms(3,4)
    by (simp add: current_def sched_ok_def k1 k0)
  let ?k2 = "k1\<lparr>procs := ps\<rparr>"
  have psl: "map p_addr ps = map p_addr (procs k)"
    unfolding ps map_update map_map using assms(3)
    by (simp add: list_update_same_conv)
  have ok2: "sched_ok ?k2"
  proof -
    have "p_addr ` set ps = p_addr ` set (procs k)" using psl by (metis set_map)
    then show ?thesis using assms(1) psl map_eq_imp_length_eq [OF psl] by (simp add: sched_ok_def k1)
  qed
  have "set_proc (current_process k1) (\<lambda>p. p\<lparr>p_registers := regs\<rparr>) k1 = Some ?k2"
  proof -
    have "map (\<lambda>p. if p_addr p = current_process k then p\<lparr>p_registers := regs\<rparr> else p) (map tick_process (procs k)) = ps"
    proof (rule nth_equalityI)
      fix j assume "j < length (map (\<lambda>p. if p_addr p = current_process k then p\<lparr>p_registers := regs\<rparr> else p)
          (map tick_process (procs k)))"
      then have j: "j < length (procs k)" by simp
      have "p_addr (procs k ! j) = current_process k \<longleftrightarrow> j = i"
        using nth_eq_iff_index_eq [of "map p_addr (procs k)" j i] assms(1,3,4) j by (simp add: sched_ok_def)
      then show "map (\<lambda>p. if p_addr p = current_process k then p\<lparr>p_registers := regs\<rparr> else p)
          (map tick_process (procs k)) ! j = ps ! j"
        using j assms(3) by (auto simp: ps nth_list_update)
    qed (simp add: ps)
    moreover have "proc_at (current_process k1) k1 \<noteq> None" using c1 by (simp add: current_def)
    ultimately show ?thesis by (simp add: set_proc_def k1 o_def)
  qed
  then have lv: "leave_process (procs k0 ! i) regs k1 = next_process ?k2"
    using assms(6) by (simp add: leave_process_def)
  have "i < length (procs ?k2)" "p_addr (procs ?k2 ! i) = current_process ?k2"
    using assms(3,4) by (simp_all add: ps k1)
  note np = next_process_eq [OF ok2 this]
  have upd: "update_scheduler regs k = do { k \<leftarrow> next_process ?k2; enter_process k }"
    using assms(2,5,7) c1 lv unfolding update_scheduler_def k1_def by (simp add: Let_def)
  show ?thesis
  proof (cases "find (\<lambda>p. p_status p \<noteq> WAITING) (rotate (Suc i) ps)")
    case None
    then show ?thesis using upd np by simp
  next
    case (Some p)
    then have p: "p \<in> set ps" unfolding find_Some_iff by (metis length_rotate nth_mem set_rotate)
    let ?k3 = "?k2\<lparr>current_process := p_addr p\<rparr>"
    have n: "next_process ?k2 = Some ?k3" using np Some by simp
    then have "sched_ok ?k3" using next_process_ok [OF ok2] by blast
    from enter_process_eq [OF this, of p] p have "enter_process ?k3 = Some (p_registers p,
        ?k3\<lparr>procs := map (entered p) ps, quantum_counter := 0, esp0 := p_kernel_stack p, cr3 := p_directory p\<rparr>)"
      by simp
    then show ?thesis using upd n Some by (simp add: k1)
  qed
qed

text \<open>C18: 
  When the quantum is over, a sleeper wakes up or the current process waits, the timer saves
  the interrupted registers in the block of the current process, picks the next process in
  cyclic order that is not waiting, and returns its saved registers with its kernel stack and
  directory loaded; nothing else changes but the sleep counters.
\<close>

theorem context_switch:
  assumes "sched_ok k" "enable_scheduler k" "i < length (procs k)" "p_addr (procs k ! i) = current_process k"
    and "decrement_wait_process k = (woke, k0)" "p_status (procs k0 ! i) \<noteq> ZOMBIE"
    and "\<not> stays woke (procs k0 ! i) (k0\<lparr>quantum_counter := quantum_counter k0 + 1\<rparr>)"
    and ps: "ps = (map tick_process (procs k))[i := (tick_process (procs k ! i))\<lparr>p_registers := regs\<rparr>]"
  shows "update_scheduler regs k = map_option (\<lambda>p. (p_registers p, k\<lparr>procs := map (entered p) ps,
      current_process := p_addr p, quantum_counter := 0, esp0 := p_kernel_stack p, cr3 := p_directory p\<rparr>))
    (find (\<lambda>p. p_status p \<noteq> WAITING) (rotate (Suc i) ps))"
  by (rule switch_eq [OF assms])

section \<open>Killing\<close>

definition states :: "kernel \<Rightarrow> (u32 \<times> u32 \<times> process_status) list" where
  "states k = map (\<lambda>p. (p_addr p, p_pid p, p_status p)) (procs k)"

lemma reparent_states: "reparent_children pid k = Some k' \<Longrightarrow> states k' = states k"
  unfolding reparent_children_def
proof (erule foldM_keeps)
  fix a k k' dying
  assume r: "reparent_child pid dying a k = Some k'"
  have upd: "map (\<lambda>p. (p_addr p, p_pid p, p_status p)) ps = states j"
    if "update_first P (\<lambda>g. Some (g\<lparr>p_waiting_pid := x\<rparr>)) (procs j) = Some ps" for P x ps j
    using update_first_parts [OF that, of "\<lambda>p. (p_addr p, p_pid p, p_status p)"] by (auto simp: states_def)
  have st: "states k1 = states k" if "set_proc a (\<lambda>c. c\<lparr>p_parent_pid := x\<rparr>) k = Some k1" for k1 x
    using that by (auto simp: set_proc_def states_def split: if_splits)
  show "states k' = states k"
    using r st upd by (fastforce simp: reparent_child_def states_def split: if_splits bind_splits)
qed

lemma states_drop_first:
  "map f (drop_first P xs) = drop_first Q (map f xs)" if "\<And>x. P x = Q (f x)"
  by (induction xs) (simp_all add: that)

lemma drop_first_none: "find P xs = None \<Longrightarrow> drop_first P xs = xs"
  by (induction xs) (simp_all split: if_splits)

lemma k_kfree_procs: "k_kfree a k = Some k' \<Longrightarrow> procs k' = procs k"
  by (auto simp: k_kfree_def on_heap_def split: bind_splits)

text \<open>Removing a process that is not running takes its entry out and changes no other state.\<close>

lemma remove_states:
  assumes "current k = Some c" "pid \<noteq> p_pid c" "pid \<noteq> 1" "pid \<noteq> 2" "scheduler_remove pid k = Some (b, k')"
  shows "states k' = drop_first (\<lambda>(a, n, st). n = pid) (states k)"
proof -
  obtain k1 where k1: "reparent_children pid k = Some k1"
    using assms by (auto simp: scheduler_remove_def split: bind_splits)
  let ?ps = "drop_first (\<lambda>p. p_pid p = pid) (procs k1)"
  have drop: "map (\<lambda>p. (p_addr p, p_pid p, p_status p)) ?ps = drop_first (\<lambda>(a, n, st). n = pid) (states k)"
  proof -
    have "states k = states k1" using reparent_states [OF k1] by simp
    then show ?thesis unfolding states_def by (simp add: states_drop_first [of "\<lambda>p. p_pid p = pid"])
  qed
  show ?thesis
  proof (cases "find (\<lambda>p. p_pid p = pid) (procs k1)")
    case None
    then have "?ps = procs k1" by (rule drop_first_none)
    then show ?thesis using assms k1 None drop by (simp add: scheduler_remove_def states_def)
  next
    case (Some p)
    let ?k2 = "k1\<lparr>procs := ?ps, process_queue_size := process_queue_size k1 - 1\<rparr>"
    obtain k3 k4 k5 where k: "on_vm (clear_page_directory (p_directory p)) ?k2 = Some k3"
        "foldM close_file (p_fds p) k3 = Some k4"
        "k_kfree (p_kernel_stack p - of_nat PAGE_SIZE) k4 = Some k5" "k_kfree (p_addr p) k5 = Some k'"
      using assms k1 Some by (auto simp: scheduler_remove_def Let_def split: bind_splits)
    have "procs k4 = procs k3"
      by (rule foldM_keeps [OF k(2)]) (auto simp: close_file_def split: if_splits bind_splits dest!: k_kfree_procs)
    moreover have "procs k3 = ?ps" using k(1) by (auto simp: on_vm_def split: bind_splits)
    ultimately have "procs k' = ?ps" using k_kfree_procs [OF k(3)] k_kfree_procs [OF k(4)] by simp
    then show ?thesis using drop by (simp add: states_def)
  qed
qed

lemma drop_first_keeps: "x \<in> set xs \<Longrightarrow> \<not> P x \<Longrightarrow> x \<in> set (drop_first P xs)"
  by (induction xs) auto

text \<open>
  Killing another process changes the state of no process. In particular nobody who waits for
  the victim is woken: only a process that ends on its own wakes its waiter.
\<close>

theorem kill_wakes_nobody:
  assumes "current k = Some c" "pid \<noteq> p_pid c" "scheduler_remove pid k = Some (b, k')"
    and "w \<in> set (procs k)" "p_pid w \<noteq> pid"
  shows "\<exists>w' \<in> set (procs k'). p_addr w' = p_addr w \<and> p_pid w' = p_pid w \<and> p_status w' = p_status w"
proof (cases "pid = 1 \<or> pid = 2")
  case True
  then show ?thesis using assms(3,4) by (auto simp: scheduler_remove_def)
next
  case False
  have "(p_addr w, p_pid w, p_status w) \<in> set (states k)" using assms(4) by (auto simp: states_def)
  then have "(p_addr w, p_pid w, p_status w) \<in> set (states k')"
    using remove_states [OF assms(1,2) _ _ assms(3)] False assms(5) by (simp add: drop_first_keeps)
  then show ?thesis by (fastforce simp: states_def)
qed

section \<open>Ending\<close>

lemma find_map_keep:
  "(\<And>x. P (f x) = P x) \<Longrightarrow> find P (map f xs) = map_option f (find P xs)"
  by (induction xs) auto

lemma rotate_split: "i < length xs \<Longrightarrow> rotate (Suc i) xs = drop (Suc i) xs @ take i xs @ [xs ! i]"
proof -
  assume i: "i < length xs"
  then have l: "length (take (Suc i) xs) = Suc i" by simp
  have "rotate (Suc i) xs = drop (Suc i) xs @ take (Suc i) xs"
    using rotate_append [of "take (Suc i) xs" "drop (Suc i) xs"] unfolding l append_take_drop_id .
  then show ?thesis by (simp only: take_Suc_conv_app_nth [OF i])
qed

text \<open>A process that stands still while another can run is never the next one.\<close>

lemma next_process_other:
  assumes "sched_ok k" "next_process k = Some k'" "w \<in> set (procs k)" "p_addr w \<noteq> current_process k" "p_status w \<noteq> WAITING"
  shows "current_process k' \<noteq> current_process k"
proof -
  let ?xs = "procs k"
  obtain i where i: "i < length ?xs" "p_addr (?xs ! i) = current_process k"
    using assms(1) by (auto simp: sched_ok_def in_set_conv_nth)
  let ?A = "drop (Suc i) ?xs @ take i ?xs"
  have split: "?xs = take i ?xs @ ?xs ! i # drop (Suc i) ?xs" using i(1) by (rule id_take_nth_drop)
  then have "set ?xs = insert (?xs ! i) (set ?A)" by (metis Un_commute Un_insert_right list.simps(15) set_append)
  then have w: "w \<in> set ?A" using assms(3,4) i(2) by auto
  have "distinct (map p_addr (take i ?xs @ ?xs ! i # drop (Suc i) ?xs))" using assms(1) split by (simp add: sched_ok_def)
  then have "current_process k \<notin> p_addr ` set ?A" using i(2) by (auto simp: image_Un)
  then have other: "p_addr p \<noteq> current_process k" if "p \<in> set ?A" for p using that by (metis imageI)
  have "find (\<lambda>p. p_status p \<noteq> WAITING) ?A \<noteq> None" using w assms(5) by (auto simp: find_None_iff)
  then obtain p where p: "find (\<lambda>p. p_status p \<noteq> WAITING) ?A = Some p" by blast
  then have "p \<in> set ?A" unfolding find_Some_iff by (metis nth_mem)
  have "find P (xs @ ys) = (case find P xs of None \<Rightarrow> find P ys | Some x \<Rightarrow> Some x)" for P and xs ys :: "pcb list"
    by (induction xs) auto
  then have "find (\<lambda>p. p_status p \<noteq> WAITING) (rotate (Suc i) ?xs) = Some p"
    using p by (simp add: rotate_split [OF i(1)] del: rotate_Suc split: option.splits)
  then have "k' = k\<lparr>current_process := p_addr p\<rparr>"
    using assms(2) next_process_eq [OF assms(1) i] by simp
  then show ?thesis using other \<open>p \<in> set ?A\<close> by simp
qed

lemma wake_states:
  assumes "scheduler_wake pid k = Some k'" "find (\<lambda>p. p_waiting_pid p = pid) (procs k) = Some w"
  shows "(p_addr w, p_pid w, READY) \<in> set (states k')"
proof -
  have "(p_addr w, p_pid w, READY) \<in> set (map (\<lambda>p. (p_addr p, p_pid p, p_status p)) ps)"
    if "update_first (\<lambda>p. p_waiting_pid p = pid) (\<lambda>p. Some (p\<lparr>p_status := READY\<rparr>)) xs = Some ps"
      "find (\<lambda>p. p_waiting_pid p = pid) xs = Some w" for xs ps
    using that by (induction xs arbitrary: ps) (auto split: if_splits bind_splits)
  then show ?thesis using assms by (auto simp: scheduler_wake_def states_def split: bind_splits)
qed

lemma tick_fields [simp]:
  "p_addr (tick_process p) = p_addr p" "p_pid (tick_process p) = p_pid p"
  "p_waiting_pid (tick_process p) = p_waiting_pid p" "p_fds (tick_process p) = p_fds p" "p_status p = ZOMBIE \<Longrightarrow> p_status (tick_process p) = ZOMBIE"
  by (simp_all add: tick_process_def Let_def)

lemma roster_pairs: "map (\<lambda>p. (p_addr p, p_pid p)) (procs k) = map (\<lambda>x. (fst x, fst (snd x))) (roster k)"
  by (simp add: roster_def)

lemma drop_first_gone:
  "distinct (map (\<lambda>(a, n, st). n) xs) \<Longrightarrow> pid \<notin> (\<lambda>(a, n, st). n) ` set (drop_first (\<lambda>(a, n, st). n = pid) xs)"
  by (induction xs) auto

lemma current_in: "current k = Some p \<Longrightarrow> p \<in> set (procs k) \<and> p_addr p = current_process k"
  by (auto simp: current_def proc_at_def find_Some_iff)

text \<open>The switch away from a zombie: it is reaped, and the first process that waits for it is woken.\<close>

lemma zombie_reaped:
  assumes "sched_ok k" "distinct (map p_pid (procs k))" "enable_scheduler k"
    and "current k = Some c" "p_status c = ZOMBIE" "p_pid c \<noteq> 1" "p_pid c \<noteq> 2"
    and "find (\<lambda>p. p_waiting_pid p = p_pid c) (procs k) = Some w" "p_pid w \<noteq> p_pid c"
    and "update_scheduler regs k = Some (r, k')"
  shows "p_pid c \<notin> p_pid ` set (procs k')"
    and "\<exists>w' \<in> set (procs k'). p_addr w' = p_addr w \<and> p_pid w' = p_pid w \<and> p_status w' \<in> {READY, RUNNING}"
proof -
  define k1 where "k1 = k\<lparr>procs := map tick_process (procs k), quantum_counter := quantum_counter k + 1\<rparr>"
  have r1: "same_roster k k1" by (simp add: k1_def same_roster_def roster_def)
  note ok1 = same_roster_ok [OF r1 assms(1)]
  have c1: "current k1 = Some (tick_process c)"
    using assms(4) by (simp add: current_def proc_at_def k1_def find_map_keep)
  have w1: "find (\<lambda>p. p_waiting_pid p = p_pid c) (procs k1) = Some (tick_process w)"
    using assms(8) by (simp add: k1_def find_map_keep)
  have "do { k \<leftarrow> leave_process (tick_process c) regs k1; enter_process k } = Some (r, k')"
    using assms(3,5,10) c1 by (simp add: update_scheduler_def decrement_wait_process_def k1_def stays_def)
  then obtain k2 where k2: "leave_process (tick_process c) regs k1 = Some k2" "enter_process k2 = Some (r, k')"
    by (auto split: bind_splits)
  then obtain ka kb b where ka: "scheduler_wake (p_pid c) k1 = Some ka" "next_process ka = Some kb"
      "scheduler_remove (p_pid c) kb = Some (b, k2)"
    using assms(5) by (auto simp: leave_process_def split: bind_splits)
  note ra = wake_roster [OF ka(1)]
  note oka = same_roster_ok [OF ra ok1]
  note okb = next_process_ok [OF oka ka(2)]
  have wa: "(p_addr w, p_pid w, READY) \<in> set (states ka)" using wake_states [OF ka(1) w1] by simp
  then obtain v where v: "v \<in> set (procs ka)" "p_addr v = p_addr w" "p_pid v = p_pid w" "p_status v = READY"
    by (auto simp: states_def)
  have pids: "map p_pid (procs kb) = map p_pid (procs k)"
    using r1 ra okb by (simp add: same_roster_def roster_pids)
  have curs: "current_process ka = p_addr c" "c \<in> set (procs k)" "w \<in> set (procs k)"
    using r1 ra assms(4,8) by (auto simp: same_roster_def current_def proc_at_def find_Some_iff)
  have dist: "distinct (map p_addr (procs k))" using assms(1) by (simp add: sched_ok_def)
  have "w \<noteq> c" using assms(9) by blast
  then have other: "p_addr v \<noteq> current_process ka"
    using dist curs unfolding v(2) curs(1) by (auto simp: distinct_map dest: inj_onD)
  have cur: "current_process kb \<noteq> p_addr c"
    using next_process_other [OF oka ka(2) v(1) other] v(4) curs(1) by simp
  obtain d where d: "current kb = Some d" "d \<in> set (procs kb)" "p_addr d = current_process kb"
  proof -
    have "\<exists>p \<in> set (procs kb). p_addr p = current_process kb" using okb by (auto simp: sched_ok_def)
    then have "current kb \<noteq> None" unfolding current_def proc_at_def find_None_iff by blast
    then show thesis using that current_in by blast
  qed
  have pairs: "map (\<lambda>p. (p_addr p, p_pid p)) (procs kb) = map (\<lambda>p. (p_addr p, p_pid p)) (procs k)"
    using r1 ra okb roster_pairs by (simp add: same_roster_def)
  have "(p_addr c, p_pid c) \<in> set (map (\<lambda>p. (p_addr p, p_pid p)) (procs kb))"
    unfolding pairs using curs(2) by simp
  then obtain c' where c': "c' \<in> set (procs kb)" "p_addr c' = p_addr c" "p_pid c' = p_pid c" by auto
  have "distinct (map p_pid (procs kb))" using assms(2) pids by simp
  then have "p_pid d = p_pid c' \<longrightarrow> d = c'" using d(2) c'(1) by (auto simp: distinct_map dest: inj_onD)
  then have d_pid: "p_pid d \<noteq> p_pid c" using d(3) c'(2,3) cur by auto
  have sb: "states k2 = drop_first (\<lambda>(a, n, st). n = p_pid c) (states kb)"
    by (rule remove_states [OF d(1) _ assms(6,7) ka(3)]) (use d_pid in simp)
  have enter: "\<exists>a. states k' = map (\<lambda>(b, n, st). (b, n, if b = a then RUNNING else st)) (states k2)"
    using k2(2) by (auto simp: enter_process_def load_process_def set_proc_def states_def split: bind_splits if_splits)
  then obtain a where a: "states k' = map (\<lambda>(b, n, st). (b, n, if b = a then RUNNING else st)) (states k2)" by blast
  have p': "p_pid ` set (procs k') = (\<lambda>(a, n, st). n) ` set (states k2)"
  proof -
    have "p_pid ` set (procs k') = (\<lambda>(a, n, st). n) ` set (states k')" by (simp add: states_def image_image)
    then show ?thesis unfolding a by (simp add: image_image case_prod_beta)
  qed
  show "p_pid c \<notin> p_pid ` set (procs k')"
    unfolding p' sb by (rule drop_first_gone) (simp add: states_def o_def \<open>distinct (map p_pid (procs kb))\<close>)
  have "(p_addr w, p_pid w, READY) \<in> set (states kb)" using wa okb by (simp add: states_def)
  then have "(p_addr w, p_pid w, READY) \<in> set (states k2)" unfolding sb using assms(9) by (simp add: drop_first_keeps)
  then have "(p_addr w, p_pid w, if p_addr w = a then RUNNING else READY) \<in> set (states k')"
    unfolding a by (force intro: image_eqI)
  then show "\<exists>w' \<in> set (procs k'). p_addr w' = p_addr w \<and> p_pid w' = p_pid w \<and> p_status w' \<in> {READY, RUNNING}"
    by (auto simp: states_def split: if_splits)
qed

section \<open>Examples\<close>

definition demo_pcb :: "u32 \<Rightarrow> u32 \<Rightarrow> process_status \<Rightarrow> u32 \<Rightarrow> pcb" where
  "demo_pcb a pid st wait = \<lparr>p_addr = a, p_registers = zero_registers\<lparr>r_eip := a\<rparr>, p_directory = 0,
     p_status = st, p_kernel_stack = a + 0x1000 + 0x184, p_heap_break = 0, p_pid = pid, p_parent_pid = 0,
     p_exit_code = 0, p_fds = initial_fds, p_name = 0, p_waiting_pid = wait, p_sleep_ticks = 0\<rparr>"

text \<open>
  The idle process, a shell that waits for process 4, and process 4; the blocks of process 4
  are the only ones on the heap.
\<close>

definition demo_heap :: kheap where
  "demo_heap = \<lparr>heap_head_ptr = 0x102FF4, headers = [0x102FF4 \<mapsto> \<lparr>h_size = 376, h_free = False, h_next = 0x103178\<rparr>,
     0x103178 \<mapsto> \<lparr>h_size = 4096, h_free = False, h_next = 0\<rparr>]\<rparr>"

definition demo_kernel :: kernel where
  "demo_kernel = \<lparr>k_wm = wm_start demo_heap, k_term = demo_terminal, k_beyond = 0,
     k_vm = \<lparr>ram = (\<lambda>_ _. 0), frames = [], paging = True, intr = True\<rparr>,
     k_stdin = \<lparr>sbuf = replicate 256 0, read_index = 0, write_index = 0, s_count = 0, wait_process = 0,
       requested_len = -1\<rparr>,
     fat_fds = Map.empty,
     procs = [demo_pcb 0x101000 1 RUNNING 0, demo_pcb 0x102000 3 WAITING 4, demo_pcb 0x103000 4 READY 0],
     current_process = 0x101000, foreground_pid = 4, quantum_counter = 19, process_queue_size = 3,
     enable_scheduler = True, pid_static = 5, esp0 = 0, cr3 = 0\<rparr>"

lemma demo_kernel_ok: "sched_ok demo_kernel"
  by (simp add: sched_ok_def demo_kernel_def demo_pcb_def)

theorem next_process_round_robin_witness:
  "next_process demo_kernel = Some (demo_kernel\<lparr>current_process := 0x103000\<rparr>)"
  using next_process_round_robin [OF demo_kernel_ok, of 0]
  by (simp add: demo_kernel_def demo_pcb_def)

theorem no_process_starves_witness:
  "\<exists>m k. m \<le> 3 \<and> switches m demo_kernel = Some k \<and> current_process k = 0x103000"
proof -
  have "demo_pcb 0x103000 4 READY 0 \<in> set (procs demo_kernel)" by (simp add: demo_kernel_def)
  moreover have "p_status (demo_pcb 0x103000 4 READY 0) \<noteq> WAITING" "length (procs demo_kernel) = 3"
    "p_addr (demo_pcb 0x103000 4 READY 0) = 0x103000"
    by (simp_all add: demo_pcb_def demo_kernel_def)
  ultimately show ?thesis using no_process_starves [OF demo_kernel_ok, of "demo_pcb 0x103000 4 READY 0"] by metis
qed

theorem context_switch_witness:
  "\<exists>k'. update_scheduler (zero_registers\<lparr>r_eax := 7\<rparr>) demo_kernel = Some (zero_registers\<lparr>r_eip := 0x103000\<rparr>, k')
     \<and> current_process k' = 0x103000 \<and> p_registers (procs k' ! 0) = zero_registers\<lparr>r_eax := 7\<rparr>"
  using context_switch [OF demo_kernel_ok, of 0 False
      "demo_kernel\<lparr>procs := map tick_process (procs demo_kernel)\<rparr>" _ "zero_registers\<lparr>r_eax := 7\<rparr>"]
  by (simp add: demo_kernel_def demo_pcb_def decrement_wait_process_def wakes_up_def tick_process_def
      stays_def SCHEDULER_QUANTUM_def entered_def)

theorem process_list_consistent_witness:
  "\<exists>k. reach sched_start sched_step k \<and> length (procs k) = 2 \<and> unat (process_queue_size k) = 2"
proof -
  let ?boot = "init_scheduler (demo_pcb 0x101000 1 READY 0) (demo_kernel\<lparr>process_queue_size := 0\<rparr>)"
  let ?k = "scheduler_enqueue (demo_pcb 0x102000 2 READY 0) ?boot"
  have "sched_start ?boot" unfolding sched_start_def
    by (intro exI conjI, rule refl) (simp_all add: demo_pcb_def)
  then have "reach sched_start sched_step ?boot" by (rule reach_init)
  then have "reach sched_start sched_step ?k"
    by (rule reach_step, intro step_enqueue) (simp_all add: init_scheduler_def demo_pcb_def)
  moreover have "length (procs ?k) = 2" by (simp add: scheduler_enqueue_def init_scheduler_def head_ptr_def demo_pcb_def)
  ultimately show ?thesis using process_list_consistent by metis
qed

text \<open>
  Interrupting the foreground process while another process runs marks it as a zombie, but
  \<^verbatim>\<open>next_process\<close> only skips waiting processes: the zombie is chosen, made \<open>RUNNING\<close> again and
  goes on.
\<close>

theorem interrupted_process_runs_again:
  "\<exists>k1 r k2 p. kill_foreground demo_kernel = Some k1 \<and> p_status (procs k1 ! 2) = ZOMBIE
     \<and> update_scheduler zero_registers k1 = Some (r, k2)
     \<and> current k2 = Some p \<and> p_pid p = 4 \<and> p_status p = RUNNING \<and> r = p_registers p"
proof -
  let ?dead = "(demo_pcb 0x103000 4 READY 0)\<lparr>p_status := ZOMBIE\<rparr>"
  let ?k = "demo_kernel\<lparr>procs := [demo_pcb 0x101000 1 RUNNING 0, demo_pcb 0x102000 3 WAITING 4, ?dead]\<rparr>"
  have kill: "kill_foreground demo_kernel = Some ?k"
    by (simp add: kill_foreground_def demo_kernel_def demo_pcb_def set_proc_def proc_at_def
        remove_window_process_def wm_start_def)
  have ok: "sched_ok ?k" by (simp add: sched_ok_def demo_kernel_def demo_pcb_def)
  note sw = switch_eq [OF ok, of 0 False "?k\<lparr>procs := map tick_process (procs ?k)\<rparr>" _ zero_registers]
  show ?thesis
    using kill sw
    by (simp add: demo_kernel_def demo_pcb_def decrement_wait_process_def wakes_up_def tick_process_def
      stays_def SCHEDULER_QUANTUM_def entered_def current_def proc_at_def)
qed

text \<open>Process 4 of the example is taken out and its two blocks are given back.\<close>

lemma demo_remove:
  assumes "k_vm k = k_vm demo_kernel" "wm_heap (k_wm k) = demo_heap" "current k = Some c" "p_pid c \<noteq> 4"
    and "reparent_children 4 k = Some k" "procs k = xs @ [demo_pcb 0x103000 4 st v]" "4 \<notin> p_pid ` set xs"
  shows "\<exists>k'. scheduler_remove 4 k = Some (True, k') \<and> procs k' = xs \<and> current_process k' = current_process k"
proof -
  have clear: "clear_page_directory 0 (k_vm demo_kernel) = Some (k_vm demo_kernel)"
  proof -
    have "clear_tables 0 ns v = Some v" if "\<forall>i. ram v 0 i = 0" for ns v
      using that by (induction ns) simp_all
    then show ?thesis by (simp add: clear_page_directory_def demo_kernel_def)
  qed
  have fds: "foldM close_file initial_fds k = Some k" for k
    by (simp add: initial_fds_def closed_fd_def close_file_def MAX_FDS_def numeral_eq_Suc Let_def)
  obtain h1 h2 where h: "kfree 0x103184 demo_heap = Some h1" "kfree 0x103000 h1 = Some h2"
    by (simp add: demo_heap_def heap_eval)
  have p: "p_pid (demo_pcb a n st v) = n" "p_directory (demo_pcb a n st v) = 0" "p_fds (demo_pcb a n st v) = initial_fds"
      "p_kernel_stack (demo_pcb 0x103000 4 st v) - of_nat PAGE_SIZE = 0x103184" "p_addr (demo_pcb a n st v) = a" for a n st v
    by (simp_all add: demo_pcb_def PAGE_SIZE_def)
  have f: "find (\<lambda>p. p_pid p = 4) (procs k) = Some (demo_pcb 0x103000 4 st v)"
    and d: "drop_first (\<lambda>p. p_pid p = 4) (procs k) = xs"
    using assms(7) unfolding assms(6) by (induction xs) (auto simp: p)
  show ?thesis
    using assms(4) by (simp add: scheduler_remove_def assms(1-3,5) f d p on_vm_def clear fds k_kfree_def on_heap_def h Let_def)
qed

theorem kill_wakes_nobody_witness:
  "\<exists>k' w. scheduler_remove 4 demo_kernel = Some (True, k') \<and> 4 \<notin> p_pid ` set (procs k')
     \<and> w \<in> set (procs k') \<and> p_pid w = 3 \<and> p_status w = WAITING"
proof -
  let ?w = "demo_pcb 0x102000 3 WAITING 4"
  have c: "current demo_kernel = Some (demo_pcb 0x101000 1 RUNNING 0)" and w: "?w \<in> set (procs demo_kernel)"
    by (simp_all add: current_def proc_at_def demo_kernel_def demo_pcb_def)
  have f: "p_pid (demo_pcb a n st v) = n" "p_status (demo_pcb a n st v) = st" for a n st v
    by (simp_all add: demo_pcb_def)
  have "reparent_children 4 demo_kernel = Some demo_kernel"
    by (simp add: reparent_children_def reparent_child_def demo_kernel_def demo_pcb_def proc_at_def)
  then obtain k' where k': "scheduler_remove 4 demo_kernel = Some (True, k')"
      "procs k' = [demo_pcb 0x101000 1 RUNNING 0, ?w]"
    using demo_remove [of demo_kernel _ "[demo_pcb 0x101000 1 RUNNING 0, ?w]" READY 0] c
    by (auto simp: demo_kernel_def wm_start_def f)
  have "\<exists>w' \<in> set (procs k'). p_pid w' = 3 \<and> p_status w' = WAITING" "4 \<notin> p_pid ` set (procs k')"
    using kill_wakes_nobody [OF c _ k'(1) w] k'(2) by (simp_all add: f)
  then show ?thesis using k'(1) by blast
qed

end
