(* ===== verification/Ata.thy ===== *)
theory Ata
  imports Prelude
begin

text \<open>
  The disk driver, \<^verbatim>\<open>drivers/ata-disk.c\<close>. The drive is hardware: it is modelled as its
  task file registers and the sectors on the platter, each a list of 512 bytes (the 256
  transfers of \<^verbatim>\<open>inw\<close> and \<^verbatim>\<open>outw\<close>, little endian), addressed by the 28 bits that the
  registers hold, which is the documented LBA28 addressing. The drive becomes ready after every
  command, so the polling loops end.
\<close>

section \<open>Model\<close>

record ata =
  sector_count :: u8
  lba_low :: u8
  lba_mid :: u8
  lba_high :: u8
  drive_port :: u8
  platter :: "u32 \<Rightarrow> u8 list"

definition ATA_DRIVE_MASTER :: u8 where "ATA_DRIVE_MASTER = 0xE0"
definition SECTOR_SIZE :: nat where "SECTOR_SIZE = 512"

definition ata_select :: "u32 \<Rightarrow> ata \<Rightarrow> ata" where
  "ata_select lba a = a\<lparr>sector_count := 1,
     lba_low := ucast (lba AND 0xFF),
     lba_mid := ucast (drop_bit 8 lba AND 0xFF),
     lba_high := ucast (drop_bit 16 lba AND 0xFF),
     drive_port := ATA_DRIVE_MASTER OR ucast (drop_bit 24 lba AND 0x0F)\<rparr>"

text \<open>The address the drive takes from its registers.\<close>

definition ata_address :: "ata \<Rightarrow> u32" where
  "ata_address a = ucast (lba_low a) OR push_bit 8 (ucast (lba_mid a)) OR push_bit 16 (ucast (lba_high a))
     OR push_bit 24 (ucast (drive_port a AND 0x0F))"

definition ata_read_sector :: "u32 \<Rightarrow> ata \<Rightarrow> u8 list \<times> ata" where
  "ata_read_sector lba a = (let a = ata_select lba a in (platter a (ata_address a), a))"

definition ata_write_sector :: "u32 \<Rightarrow> u8 list \<Rightarrow> ata \<Rightarrow> ata" where
  "ata_write_sector lba buf a = (let a = ata_select lba a in a\<lparr>platter := (platter a)(ata_address a := buf)\<rparr>)"

section \<open>Addressing\<close>

lemma byte_bits: "bit (w AND 0xFF :: u32) n \<longleftrightarrow> n < 8 \<and> bit w n"
proof -
  have m: "(0xFF :: u32) = mask 8" by (simp add: mask_eq_exp_minus_1)
  show ?thesis unfolding m bit_and_iff bit_mask_iff by auto
qed

lemma nibble_bits:
  "bit (ATA_DRIVE_MASTER AND 0x0F :: u8) n \<longleftrightarrow> False"
  "bit (w AND 0x0F :: u32) n \<longleftrightarrow> n < 4 \<and> bit w n"
  "bit (0x0F :: u8) n \<longleftrightarrow> n < 4"
proof -
  have m: "(0x0F :: u32) = mask 4" "(0x0F :: u8) = mask 4" by (simp_all add: mask_eq_exp_minus_1)
  show "bit (ATA_DRIVE_MASTER AND 0x0F :: u8) n \<longleftrightarrow> False" by (simp add: ATA_DRIVE_MASTER_def)
  show "bit (w AND 0x0F :: u32) n \<longleftrightarrow> n < 4 \<and> bit w n" unfolding m bit_and_iff bit_mask_iff by auto
  show "bit (0x0F :: u8) n \<longleftrightarrow> n < 4" unfolding m bit_mask_iff by auto
qed

lemma drive_nibble:
  "bit ((ATA_DRIVE_MASTER OR ucast (w AND 0x0F :: u32)) AND 0x0F) n \<longleftrightarrow> n < 4 \<and> bit w n"
  using nibble_bits(1) [of n] nibble_bits(3) [of n] nibble_bits(2) [of w n]
  by (auto simp: bit_or_iff bit_and_iff bit_ucast_iff)

lemma select_registers [simp]:
  "lba_low (ata_select lba a) = ucast (lba AND 0xFF)"
  "lba_mid (ata_select lba a) = ucast (drop_bit 8 lba AND 0xFF)"
  "lba_high (ata_select lba a) = ucast (drop_bit 16 lba AND 0xFF)"
  "drive_port (ata_select lba a) = ATA_DRIVE_MASTER OR ucast (drop_bit 24 lba AND 0x0F)"
  "platter (ata_select lba a) = platter a"
  by (simp_all add: ata_select_def)

lemma shifted_byte_bits:
  assumes "n < 32"
  shows "bit (push_bit k (ucast (ucast (drop_bit k lba AND 0xFF) :: u8) :: u32)) n \<longleftrightarrow> k \<le> n \<and> n < k + 8 \<and> bit (lba :: u32) n"
  unfolding bit_push_bit_iff bit_ucast_iff byte_bits bit_drop_bit_eq o_apply
  using assms by (cases "k \<le> n") auto

lemma shifted_nibble_bits:
  assumes "n < 32"
  shows "bit (push_bit 24 (ucast ((ATA_DRIVE_MASTER OR ucast (drop_bit 24 lba AND 0x0F)) AND 0x0F :: u8) :: u32)) n
    \<longleftrightarrow> 24 \<le> n \<and> n < 28 \<and> bit (lba :: u32) n"
  unfolding bit_push_bit_iff bit_ucast_iff drive_nibble bit_drop_bit_eq o_apply
  using assms by (cases "24 \<le> n") auto

lemma select_address [simp]: "ata_address (ata_select lba a) = lba AND 0x0FFFFFFF"
proof (rule bit_word_eqI)
  fix n :: nat
  have m: "(0x0FFFFFFF :: u32) = mask 28" by (simp add: mask_eq_exp_minus_1)
  assume n: "n < LENGTH(32)"
  then have n32: "n < 32" by simp
  have "bit (ata_address (ata_select lba a)) n \<longleftrightarrow>
      n < 8 \<and> bit lba n \<or> 8 \<le> n \<and> n < 8 + 8 \<and> bit lba n
      \<or> 16 \<le> n \<and> n < 16 + 8 \<and> bit lba n \<or> 24 \<le> n \<and> n < 28 \<and> bit lba n"
    unfolding ata_address_def select_registers bit_or_iff shifted_byte_bits [OF n32] shifted_nibble_bits [OF n32]
    using shifted_byte_bits [OF n32, of 0 lba] by (simp del: select_registers)
  also have "\<dots> \<longleftrightarrow> n < 28 \<and> bit lba n" by (cases "bit lba n") arith+
  finally show "bit (ata_address (ata_select lba a)) n = bit (lba AND 0x0FFFFFFF) n"
    unfolding m bit_and_iff bit_mask_iff using n32 by auto
qed

section \<open>Block devices\<close>

text \<open>
  What the file system relies on: a sector that was written is read back, the other sectors of
  the device keep their contents, and reading changes nothing. The laws hold for the addresses
  of the device.
\<close>

locale block_device =
  fixes rd :: "u32 \<Rightarrow> 'd \<Rightarrow> u8 list \<times> 'd"
    and wr :: "u32 \<Rightarrow> u8 list \<Rightarrow> 'd \<Rightarrow> 'd"
    and valid :: "u32 \<Rightarrow> bool"
    and contents :: "'d \<Rightarrow> u32 \<Rightarrow> u8 list"
  assumes read_contents: "valid a \<Longrightarrow> fst (rd a d) = contents d a"
    and read_keeps: "valid b \<Longrightarrow> contents (snd (rd a d)) b = contents d b"
    and write_contents: "valid a \<Longrightarrow> valid b \<Longrightarrow> contents (wr a s d) b = (if b = a then s else contents d b)"
begin

text \<open>A run of sectors, written one after the other, and read again.\<close>

fun write_run :: "u32 \<Rightarrow> u8 list list \<Rightarrow> 'd \<Rightarrow> 'd" where
  "write_run a [] d = d"
| "write_run a (s # ss) d = write_run (a + 1) ss (wr a s d)"

fun read_run :: "u32 \<Rightarrow> nat \<Rightarrow> 'd \<Rightarrow> u8 list list" where
  "read_run a 0 d = []"
| "read_run a (Suc n) d = (let (s, d) = rd a d in s # read_run (a + 1) n d)"

lemma write_run_contents:
  assumes "\<forall>i < length ss. valid (a + of_nat i)" "valid b" "length ss < 2 ^ 32"
  shows "contents (write_run a ss d) b
    = (if unat (b - a) < length ss then ss ! unat (b - a) else contents d b)"
  using assms
proof (induction ss arbitrary: a d)
  case (Cons s ss)
  have v: "\<forall>i < length ss. valid (a + 1 + of_nat i)"
  proof (intro allI impI)
    fix i assume "i < length ss"
    then show "valid (a + 1 + of_nat i)" using Cons.prems(1)[rule_format, of "Suc i"] by (simp add: add.assoc)
  qed
  have va: "valid a" using Cons.prems(1)[rule_format, of 0] by simp
  have IH: "contents (write_run (a + 1) ss (wr a s d)) b
      = (if unat (b - (a + 1)) < length ss then ss ! unat (b - (a + 1)) else contents (wr a s d) b)"
    using Cons.IH [OF v] Cons.prems(2,3) by simp
  show ?case
  proof (cases "b = a")
    case True
    have "a - (a + 1) = 4294967295" by simp
    then have "unat (a - (a + 1)) = unat (4294967295 :: u32)" by (rule arg_cong)
    then have "unat (a - (a + 1)) = 4294967295" by simp
    then show ?thesis using IH Cons.prems(3) va True by (simp add: write_contents)
  next
    case False
    then have nz: "b - a \<noteq> 0" by simp
    then have g: "0 < unat (b - a)" using unat_gt_0 by blast
    have "b - (a + 1) = b - a - 1" by simp
    then have "unat (b - (a + 1)) = unat (b - a) - 1" using unat_minus_one [OF nz] by metis
    then show ?thesis using IH False va Cons.prems(2) g by (auto simp: write_contents nth_Cons')
  qed
qed simp

lemma read_run_contents:
  assumes "\<forall>i < n. valid (a + of_nat i)"
  shows "read_run a n d = map (\<lambda>i. contents d (a + of_nat i)) [0..<n]"
  using assms
proof (induction n arbitrary: a d)
  case (Suc n)
  obtain s d' where r: "rd a d = (s, d')" by (cases "rd a d")
  have v: "valid (a + 1 + of_nat i)" if "i < n" for i
    using Suc.prems [rule_format, of "Suc i"] that by (simp add: add.assoc)
  have k: "contents d' b = contents d b" if "valid b" for b using read_keeps [OF that, of a d] r by simp
  have "s = contents d a" using read_contents [of a d] Suc.prems [rule_format, of 0] r by simp
  then show ?case
    using r Suc.IH [of "a + 1" d'] v k
    by (simp add: upt_conv_Cons map_Suc_upt [symmetric] add.assoc del: upt_Suc)
qed simp

text \<open>Writing a run of sectors and reading it again gives the same sectors.\<close>

lemma run_roundtrip:
  assumes "\<forall>i < length ss. valid (a + of_nat i)" "length ss < 2 ^ 32"
  shows "read_run a (length ss) (write_run a ss d) = ss"
proof (rule nth_equalityI)
  fix i assume "i < length (read_run a (length ss) (write_run a ss d))"
  then have i: "i < length ss" using read_run_contents [OF assms(1)] by simp
  then have "contents (write_run a ss d) (a + of_nat i) = ss ! i"
    using write_run_contents [OF assms(1) _ assms(2), of "a + of_nat i"] assms by simp
  then show "read_run a (length ss) (write_run a ss d) ! i = ss ! i"
    using read_run_contents [OF assms(1)] i by simp
qed (simp add: read_run_contents [OF assms(1)])

end

definition lba28 :: "u32 \<Rightarrow> bool" where
  "lba28 a \<longleftrightarrow> a AND 0x0FFFFFFF = a"

interpretation ad: block_device ata_read_sector ata_write_sector lba28 platter
  by unfold_locales (auto simp: ata_read_sector_def ata_write_sector_def Let_def lba28_def)

end
