(* ===== verification/Fat16.thy ===== *)
theory Fat16
  imports Kmalloc Strings Ata
begin

text \<open>
  The FAT16 file system, \<^verbatim>\<open>lib/fat16.c\<close>, over the heap (its sector buffers are
  allocated and released) and the disk driver. A buffer of the caller comes with its capacity:
  writing behind it faults. A NULL buffer that the code writes to faults.
\<close>

section \<open>Data\<close>

definition FAT16_START_LBA :: u32 where "FAT16_START_LBA = 2048"

text \<open>The little endian fields of a byte buffer.\<close>

definition le16 :: "u8 list \<Rightarrow> nat \<Rightarrow> u16" where
  "le16 bs i = ucast (bs ! i) OR push_bit 8 (ucast (bs ! Suc i))"

definition put16 :: "nat \<Rightarrow> u16 \<Rightarrow> u8 list \<Rightarrow> u8 list" where
  "put16 i v bs = bs[i := ucast v, Suc i := ucast (drop_bit 8 v)]"

definition le32 :: "u8 list \<Rightarrow> nat \<Rightarrow> u32" where
  "le32 bs i = ucast (le16 bs i) OR push_bit 16 (ucast (le16 bs (i + 2)))"

definition put32 :: "nat \<Rightarrow> u32 \<Rightarrow> u8 list \<Rightarrow> u8 list" where
  "put32 i v bs = put16 (i + 2) (ucast (drop_bit 16 v)) (put16 i (ucast v) bs)"

record fat16_entry =
  e_name :: "u8 list"
  e_extension :: "u8 list"
  e_attributes :: u8
  e_reserved :: "u8 list"
  e_start_cluster :: u16
  e_file_size :: u32

definition sizeof_entry :: nat where "sizeof_entry = 32"

text \<open>The packed \<^verbatim>\<open>fat16_entry_t\<close> at an offset of a buffer, read and written.\<close>

definition entry_at :: "u8 list \<Rightarrow> nat \<Rightarrow> fat16_entry" where
  "entry_at bs j = \<lparr>e_name = take 8 (drop j bs), e_extension = take 3 (drop (j + 8) bs),
     e_attributes = bs ! (j + 11), e_reserved = take 14 (drop (j + 12) bs),
     e_start_cluster = le16 bs (j + 26), e_file_size = le32 bs (j + 28)\<rparr>"

definition entry_bytes :: "fat16_entry \<Rightarrow> u8 list" where
  "entry_bytes e = e_name e @ e_extension e @ [e_attributes e] @ e_reserved e
     @ put32 2 (e_file_size e) (put16 0 (e_start_cluster e) (replicate 6 0))"

record fat16_geometry =
  fat_start_lba :: u32
  root_dir_start_lba :: u32
  root_dir_sectors :: u32
  data_start_lba :: u32

text \<open>The state: the two global pointers, \<^verbatim>\<open>bpb\<close> with the boot sector it points into,
  the heap and the drive.\<close>

record fat16 =
  fs_heap :: kheap
  fs_disk :: ata
  bpb :: "u8 list"
  geometry :: fat16_geometry

text \<open>The fields of the packed \<^verbatim>\<open>fat16_bpb_t\<close>.\<close>

definition bytes_per_sector :: "fat16 \<Rightarrow> u16" where "bytes_per_sector fs = le16 (bpb fs) 11"
definition sectors_per_cluster :: "fat16 \<Rightarrow> u8" where "sectors_per_cluster fs = bpb fs ! 13"
definition reserved_sectors :: "fat16 \<Rightarrow> u16" where "reserved_sectors fs = le16 (bpb fs) 14"
definition num_fats :: "fat16 \<Rightarrow> u8" where "num_fats fs = bpb fs ! 16"
definition root_entry_count :: "fat16 \<Rightarrow> u16" where "root_entry_count fs = le16 (bpb fs) 17"
definition sectors_per_fat :: "fat16 \<Rightarrow> u16" where "sectors_per_fat fs = le16 (bpb fs) 22"
definition fat_type :: "fat16 \<Rightarrow> u8 list" where "fat_type fs = drop 54 (bpb fs)"

text \<open>\<^verbatim>\<open>FAT16\<close> and three spaces.\<close>

definition FAT16_TYPE :: "u8 list" where "FAT16_TYPE = [70, 65, 84, 49, 54, 32, 32, 32, 0]"

section \<open>Buffers and sectors\<close>

definition fs_alloc :: "u32 \<Rightarrow> fat16 \<Rightarrow> (u32 \<times> fat16) option" where
  "fs_alloc n fs =
     do { (p, h) \<leftarrow> kmalloc n (fs_heap fs); if p = 0 then None else Some (p, fs\<lparr>fs_heap := h\<rparr>) }"

definition fs_release :: "u32 \<Rightarrow> fat16 \<Rightarrow> fat16 option" where
  "fs_release p fs = do { h \<leftarrow> kfree p (fs_heap fs); Some (fs\<lparr>fs_heap := h\<rparr>) }"

definition fs_read :: "u32 \<Rightarrow> fat16 \<Rightarrow> u8 list \<times> fat16" where
  "fs_read lba fs = (let (s, d) = ata_read_sector lba (fs_disk fs) in (s, fs\<lparr>fs_disk := d\<rparr>))"

definition fs_write :: "u32 \<Rightarrow> u8 list \<Rightarrow> fat16 \<Rightarrow> fat16" where
  "fs_write lba s fs = fs\<lparr>fs_disk := ata_write_sector lba s (fs_disk fs)\<rparr>"

section \<open>Names\<close>

text \<open>
  The loops that fill \<^verbatim>\<open>name_out\<close> and \<^verbatim>\<open>ext_out\<close>. \<^verbatim>\<open>strtok\<close> is
  given the name first, so the position it had before does not matter, and no later call
  continues from the one it leaves.
\<close>

fun fill_field :: "nat \<Rightarrow> bool \<Rightarrow> u8 list \<Rightarrow> u8 list" where
  "fill_field 0 ended s = []"
| "fill_field (Suc n) ended s =
     (if \<not> ended \<and> hd s \<noteq> 0
      then (if 97 \<le> hd s \<and> hd s \<le> 122 then hd s - 32 else hd s) # fill_field n False (tl s)
      else 32 # fill_field n True (tl s))"

definition fat16_format_name :: "u8 list \<Rightarrow> (u8 list \<times> u8 list) option" where
  "fat16_format_name input =
     do {
       temp \<leftarrow> strcpy (replicate 64 0) input;
       (name, _, tok) \<leftarrow> strtok (replicate 9 0) (Some temp) 46 None;
       (ext, _, tok) \<leftarrow> strtok (replicate 4 0) None 46 tok;
       Some (fill_field 8 False name, fill_field 3 False ext)
     }"

section \<open>Mounting\<close>

text \<open>A sector without the FAT16 mark halts the kernel: the result is \<open>None\<close>.\<close>

definition init_fat16_bpb :: "fat16 \<Rightarrow> fat16 option" where
  "init_fat16_bpb fs =
     do {
       (_, fs) \<leftarrow> fs_alloc (of_nat SECTOR_SIZE) fs;
       let (sector, fs) = fs_read FAT16_START_LBA fs;
       let fs = fs\<lparr>bpb := sector\<rparr>;
       found \<leftarrow> strncmp (fat_type fs) FAT16_TYPE 8;
       if \<not> found then None else Some fs
     }"

definition init_fat16_geometry :: "fat16 \<Rightarrow> fat16 option" where
  "init_fat16_geometry fs =
     do {
       (_, fs) \<leftarrow> fs_alloc 16 fs;
       if bytes_per_sector fs = 0 then None
       else do {
         let fat = FAT16_START_LBA + ucast (reserved_sectors fs);
         let root = fat + ucast (num_fats fs) * ucast (sectors_per_fat fs);
         let sectors = word_of_int (c_ceil (uint (root_entry_count fs) * 32) (uint (bytes_per_sector fs)));
         Some (fs\<lparr>geometry := \<lparr>fat_start_lba = fat, root_dir_start_lba = root,
           root_dir_sectors = sectors, data_start_lba = root + sectors\<rparr>\<rparr>)
       }
     }"

definition init_fat16 :: "fat16 \<Rightarrow> fat16 option" where
  "init_fat16 fs = do { fs \<leftarrow> init_fat16_bpb fs; init_fat16_geometry fs }"

definition cluster_lba :: "fat16 \<Rightarrow> u16 \<Rightarrow> u32" where
  "cluster_lba fs c = data_start_lba (geometry fs) + (ucast c - 2) * ucast (sectors_per_cluster fs)"

definition fat_sector :: "fat16 \<Rightarrow> u16 \<Rightarrow> u32" where
  "fat_sector fs c = fat_start_lba (geometry fs) + ucast c div 256"

definition fat_offset :: "u16 \<Rightarrow> nat" where
  "fat_offset c = unat c mod 256 * 2"

section \<open>The root directory\<close>

definition root_sectors :: "fat16 \<Rightarrow> u32 list" where
  "root_sectors fs = map (\<lambda>i. root_dir_start_lba (geometry fs) + of_nat i) [0..<unat (root_dir_sectors (geometry fs))]"

definition entry_offsets :: "nat list" where
  "entry_offsets = map (\<lambda>i. sizeof_entry * i) [0..<16]"

datatype 'a scan = Found 'a | Ends | Goes_on

fun find_in_sector :: "u8 list \<Rightarrow> u8 list \<Rightarrow> u8 list \<Rightarrow> nat list \<Rightarrow> fat16_entry scan option" where
  "find_in_sector name ext sector [] = Some Goes_on"
| "find_in_sector name ext sector (j # js) =
     (let buf = entry_at sector j in
      if e_name buf ! 0 = 0 then Some Ends
      else if e_name buf ! 0 = 0xE5 then find_in_sector name ext sector js
      else do {
        same \<leftarrow> strncmp name (e_name buf) 8;
        same \<leftarrow> if same then strncmp ext (e_extension buf) 3 else Some False;
        if same then Some (Found buf) else find_in_sector name ext sector js
      })"

fun find_in_root :: "u8 list \<Rightarrow> u8 list \<Rightarrow> u32 list \<Rightarrow> fat16 \<Rightarrow> (fat16_entry option \<times> fat16) option" where
  "find_in_root name ext [] fs = Some (None, fs)"
| "find_in_root name ext (lba # lbas) fs =
     (let (sector, fs) = fs_read lba fs in
      do {
        r \<leftarrow> find_in_sector name ext sector entry_offsets;
        case r of
          Found e \<Rightarrow> Some (Some e, fs)
        | Ends \<Rightarrow> Some (None, fs)
        | Goes_on \<Rightarrow> find_in_root name ext lbas fs
      })"

text \<open>
  The result is the address of a new \<^verbatim>\<open>fat16_entry_t\<close> with its contents, or NULL. For the root
  only two fields are set: \<open>stale\<close> is what the heap block held before.
\<close>

definition fat16_find_file :: "fat16_entry \<Rightarrow> u8 list \<Rightarrow> fat16 \<Rightarrow> ((u32 \<times> fat16_entry) option \<times> fat16) option" where
  "fat16_find_file stale input fs =
     do {
       root \<leftarrow> strcmp input [47, 0];
       if root then do {
         (entry, fs) \<leftarrow> fs_alloc (of_nat sizeof_entry) fs;
         Some (Some (entry, stale\<lparr>e_name := (e_name stale)[0 := 47], e_attributes := 0x10\<rparr>), fs)
       }
       else do {
         (sector, fs) \<leftarrow> fs_alloc (of_nat SECTOR_SIZE) fs;
         (entry, fs) \<leftarrow> fs_alloc (of_nat sizeof_entry) fs;
         (name, ext) \<leftarrow> fat16_format_name input;
         (r, fs) \<leftarrow> find_in_root name ext (root_sectors fs) fs;
         case r of
           Some e \<Rightarrow> do { fs \<leftarrow> fs_release sector fs; Some (Some (entry, e), fs) }
         | None \<Rightarrow> do {
             fs \<leftarrow> fs_release sector fs;
             fs \<leftarrow> fs_release entry fs;
             Some (None, fs)
           }
       }
     }"

section \<open>Reading\<close>

text \<open>\<open>out\<close> is the part of the caller's buffer that is written so far, \<open>cap\<close> its size.\<close>

fun read_entries :: "nat \<Rightarrow> u8 list \<Rightarrow> nat list \<Rightarrow> u8 list \<Rightarrow> (bool \<times> u8 list) option" where
  "read_entries cap sector [] out = Some (False, out)"
| "read_entries cap sector (j # js) out =
     (let entry = entry_at sector j in
      if e_name entry ! 0 = 0 then Some (True, out)
      else if e_name entry ! 0 = 0xE5 then read_entries cap sector js out
      else if length out + sizeof_entry \<le> cap
        then read_entries cap sector js (out @ take sizeof_entry (drop j sector))
      else None)"

fun read_folder_loop :: "nat \<Rightarrow> u32 list \<Rightarrow> u8 list \<Rightarrow> fat16 \<Rightarrow> (u8 list \<times> fat16) option" where
  "read_folder_loop cap [] out fs = Some (out, fs)"
| "read_folder_loop cap (lba # lbas) out fs =
     (let (sector, fs) = fs_read lba fs in
      do {
        (ended, out) \<leftarrow> read_entries cap sector entry_offsets out;
        if ended then Some (out, fs) else read_folder_loop cap lbas out fs
      })"

definition fat16_read_folder :: "nat \<Rightarrow> fat16_entry \<Rightarrow> fat16 \<Rightarrow> (u32 \<times> u8 list \<times> fat16) option" where
  "fat16_read_folder cap folder_entry fs =
     do {
       (sector, fs) \<leftarrow> fs_alloc (of_nat SECTOR_SIZE) fs;
       let (sectors, folder_lba) =
         (if e_name folder_entry ! 0 = 47
          then (root_dir_sectors (geometry fs), root_dir_start_lba (geometry fs))
          else (ucast (sectors_per_cluster fs), cluster_lba fs (e_start_cluster folder_entry)));
       (out, fs) \<leftarrow> read_folder_loop cap (map (\<lambda>i. folder_lba + of_nat i) [0..<unat sectors]) [] fs;
       fs \<leftarrow> fs_release sector fs;
       Some (of_nat (length out), out, fs)
     }"

fun read_sectors :: "nat \<Rightarrow> u32 list \<Rightarrow> u8 list \<Rightarrow> fat16 \<Rightarrow> (u8 list \<times> fat16) option" where
  "read_sectors cap [] out fs = Some (out, fs)"
| "read_sectors cap (lba # lbas) out fs =
     (if length out + SECTOR_SIZE \<le> cap
      then let (sector, fs) = fs_read lba fs in read_sectors cap lbas (out @ sector) fs
      else None)"

definition cluster_sectors :: "fat16 \<Rightarrow> u16 \<Rightarrow> u32 list" where
  "cluster_sectors fs c = map (\<lambda>i. cluster_lba fs c + of_nat i) [0..<unat (sectors_per_cluster fs)]"

text \<open>The chain of clusters in the FAT may be a cycle.\<close>

partial_function (option) read_chain :: "nat \<Rightarrow> u16 \<Rightarrow> u8 list \<Rightarrow> fat16 \<Rightarrow> (u8 list \<times> fat16) option" where
  "read_chain cap next_cluster out fs =
     (if next_cluster < 0xFFF8 then
        (let (fat_buffer, fs) = fs_read (fat_sector fs next_cluster) fs in
         do {
           (out, fs) \<leftarrow> read_sectors cap (cluster_sectors fs next_cluster) out fs;
           read_chain cap (le16 fat_buffer (fat_offset next_cluster)) out fs
         })
      else Some (out, fs))"

definition fat16_read_file :: "nat \<Rightarrow> fat16_entry \<Rightarrow> fat16 \<Rightarrow> (u32 \<times> u8 list \<times> fat16) option" where
  "fat16_read_file cap entry fs =
     do {
       let c = e_start_cluster entry;
       (out, fs) \<leftarrow> read_sectors cap (cluster_sectors fs c) [] fs;
       let (fat_buffer, fs) = fs_read (fat_sector fs c) fs;
       (out, fs) \<leftarrow> read_chain cap (le16 fat_buffer (fat_offset c)) out fs;
       Some (of_nat (length out), out, fs)
     }"

section \<open>Writing\<close>

fun alloc_loop :: "u16 list \<Rightarrow> fat16 \<Rightarrow> u16 \<times> fat16" where
  "alloc_loop [] fs = (0, fs)"
| "alloc_loop (c # cs) fs =
     (let (sector, fs) = fs_read (fat_sector fs c) fs in
      if le16 sector (fat_offset c) = 0
      then (c, fs_write (fat_sector fs c) (put16 (fat_offset c) 0xFFF8 sector) fs)
      else alloc_loop cs fs)"

definition total_clusters :: "fat16 \<Rightarrow> u16" where
  "total_clusters fs = word_of_int (uint (sectors_per_fat fs) * 512 sdiv 2)"

definition fat16_alloc_cluster :: "fat16 \<Rightarrow> (u16 \<times> fat16) option" where
  "fat16_alloc_cluster fs =
     do {
       (sector, fs) \<leftarrow> fs_alloc (of_nat SECTOR_SIZE) fs;
       let (c, fs) = alloc_loop (map of_nat [2..<unat (total_clusters fs)]) fs;
       fs \<leftarrow> fs_release sector fs;
       Some (c, fs)
     }"

fun free_slot :: "u8 list \<Rightarrow> nat list \<Rightarrow> nat option" where
  "free_slot sector [] = None"
| "free_slot sector (j # js) =
     (let entry = entry_at sector j in
      if e_name entry ! 0 = 0 \<or> e_name entry ! 0 = 0xE5 then Some j else free_slot sector js)"

definition put_entry :: "nat \<Rightarrow> fat16_entry \<Rightarrow> u8 list \<Rightarrow> u8 list" where
  "put_entry j e sector = take j sector @ entry_bytes e @ drop (j + sizeof_entry) sector"

fun create_in_root :: "fat16_entry \<Rightarrow> u32 list \<Rightarrow> fat16 \<Rightarrow> fat16" where
  "create_in_root e [] fs = fs"
| "create_in_root e (lba # lbas) fs =
     (let (sector, fs) = fs_read lba fs in
      case free_slot sector entry_offsets of
        Some j \<Rightarrow> fs_write lba (put_entry j e sector) fs
      | None \<Rightarrow> create_in_root e lbas fs)"

definition new_entry :: "u8 list \<Rightarrow> u8 list \<Rightarrow> u16 \<Rightarrow> u32 \<Rightarrow> fat16_entry" where
  "new_entry name ext c len = \<lparr>e_name = name, e_extension = ext, e_attributes = 0x20,
     e_reserved = replicate 14 0, e_start_cluster = c, e_file_size = len\<rparr>"

definition fat16_create_dir_entry :: "u8 list \<Rightarrow> u16 \<Rightarrow> u32 \<Rightarrow> fat16 \<Rightarrow> fat16 option" where
  "fat16_create_dir_entry input c len fs =
     do {
       (name, ext) \<leftarrow> fat16_format_name input;
       (sector, fs) \<leftarrow> fs_alloc (of_nat SECTOR_SIZE) fs;
       let fs = create_in_root (new_entry name ext c len) (root_sectors fs) fs;
       fs_release sector fs
     }"

text \<open>
  One sector of the file: \<^verbatim>\<open>min\<close> takes its arguments as \<^verbatim>\<open>int\<close>s. \<open>data\<close> is the caller's
  memory from the pointer on.
\<close>

definition file_sector :: "u8 list \<Rightarrow> u32 \<Rightarrow> u32 \<Rightarrow> u8 list option" where
  "file_sector data len offset =
     do {
       let remaining = (if len > offset then len - offset else 0);
       let to_copy = (word_of_int (c_min (sint remaining) (int SECTOR_SIZE)) :: u32);
       if to_copy > 0
       then memcpy (replicate SECTOR_SIZE 0) (drop (unat offset) data) (unat to_copy)
       else Some (replicate SECTOR_SIZE 0)
     }"

definition write_cluster :: "u8 list \<Rightarrow> u32 \<Rightarrow> u32 \<Rightarrow> fat16 \<Rightarrow> fat16 option" where
  "write_cluster data len lba fs =
     foldM (\<lambda>i fs. do {
         sector \<leftarrow> file_sector data len (of_nat i * of_nat SECTOR_SIZE);
         Some (fs_write (lba + of_nat i) sector fs)
       }) [0..<unat (sectors_per_cluster fs)] fs"

definition fat16_write_file :: "u8 list \<Rightarrow> u8 list \<Rightarrow> u32 \<Rightarrow> fat16 \<Rightarrow> (bool \<times> fat16) option" where
  "fat16_write_file name data len fs =
     do {
       (c, fs) \<leftarrow> fat16_alloc_cluster fs;
       if c = 0 then Some (False, fs)
       else do {
         (sector, fs) \<leftarrow> fs_alloc (of_nat SECTOR_SIZE) fs;
         fs \<leftarrow> write_cluster data len (cluster_lba fs c) fs;
         fs \<leftarrow> fs_release sector fs;
         fs \<leftarrow> fat16_create_dir_entry name c len fs;
         Some (True, fs)
       }
     }"

section \<open>The byte layout\<close>

lemma join16: "ucast (ucast v :: u8) OR push_bit 8 (ucast (ucast (drop_bit 8 v) :: u8)) = (v :: u16)"
  (is "?l = v")
proof (rule bit_word_eqI)
  fix n :: nat
  assume "n < LENGTH(16)"
  then have "n < 16" by simp
  then show "bit ?l n = bit v n"
    unfolding bit_or_iff bit_push_bit_iff bit_ucast_iff bit_drop_bit_eq o_apply by (cases "n < 8") auto
qed

lemma join32: "ucast (ucast v :: u16) OR push_bit 16 (ucast (ucast (drop_bit 16 v) :: u16)) = (v :: u32)"
  (is "?l = v")
proof (rule bit_word_eqI)
  fix n :: nat
  assume "n < LENGTH(32)"
  then have "n < 32" by simp
  then show "bit ?l n = bit v n"
    unfolding bit_or_iff bit_push_bit_iff bit_ucast_iff bit_drop_bit_eq o_apply by (cases "n < 16") auto
qed

lemma length_put16 [simp]: "length (put16 i v bs) = length bs"
  by (simp add: put16_def)

lemma le16_put16: "Suc i < length bs \<Longrightarrow> le16 (put16 i v bs) i = v"
  by (simp add: le16_def put16_def join16)

lemma le16_put16_other: "i \<noteq> j \<Longrightarrow> i \<noteq> Suc j \<Longrightarrow> Suc i \<noteq> j \<Longrightarrow> le16 (put16 j v bs) i = le16 bs i"
  by (simp add: le16_def put16_def)

lemma le32_put32: "i + 3 < length bs \<Longrightarrow> le32 (put32 i v bs) i = v"
  by (simp add: le32_def put32_def le16_put16 le16_put16_other join32)

definition entry_ok :: "fat16_entry \<Rightarrow> bool" where
  "entry_ok e \<longleftrightarrow> length (e_name e) = 8 \<and> length (e_extension e) = 3 \<and> length (e_reserved e) = 14"

lemma length_entry_bytes: "entry_ok e \<Longrightarrow> length (entry_bytes e) = 32"
  by (simp add: entry_bytes_def entry_ok_def put32_def)

lemma le16_shift: "Suc (length xs + i) < length xs + length ys \<Longrightarrow> le16 (xs @ ys) (length xs + i) = le16 ys i"
  by (simp add: le16_def nth_append)

lemma le32_shift: "length xs + i + 3 < length xs + length ys \<Longrightarrow> le32 (xs @ ys) (length xs + i) = le32 ys i"
  using le16_shift [of xs "i + 2" ys] by (simp add: le32_def le16_shift add.assoc)

lemma entry_roundtrip:
  assumes "entry_ok e"
  shows "entry_at (entry_bytes e) 0 = e"
proof -
  let ?t = "put32 2 (e_file_size e) (put16 0 (e_start_cluster e) (replicate 6 0))"
  let ?p = "e_name e @ e_extension e @ [e_attributes e] @ e_reserved e"
  have l: "length ?p = 26" "length (e_name e) = 8" "length (e_extension e) = 3" "length (e_reserved e) = 14"
    using assms by (simp_all add: entry_ok_def)
  have b: "entry_bytes e = ?p @ ?t" by (simp add: entry_bytes_def)
  have lt: "length ?t = 6" by (simp add: put32_def)
  have "le16 ?t 0 = e_start_cluster e"
    unfolding put32_def by (simp add: le16_put16_other le16_put16)
  then have c: "le16 (entry_bytes e) 26 = e_start_cluster e"
    using le16_shift [of ?p 0 ?t] unfolding b l(1) lt by simp
  have "le32 ?t 2 = e_file_size e" by (rule le32_put32) simp
  then have s: "le32 (entry_bytes e) 28 = e_file_size e"
    using le32_shift [of ?p 2 ?t] unfolding b l(1) lt by simp
  have n: "take 8 (entry_bytes e) = e_name e" "take 3 (drop 8 (entry_bytes e)) = e_extension e"
      "entry_bytes e ! 11 = e_attributes e" "take 14 (drop 12 (entry_bytes e)) = e_reserved e"
    using l by (simp_all add: entry_bytes_def nth_append)
  show ?thesis using c s n by (simp add: entry_at_def)
qed

lemma le16_slice: "Suc i < n \<Longrightarrow> j + n \<le> length bs \<Longrightarrow> le16 (take n (drop j bs)) i = le16 bs (j + i)"
  by (simp add: le16_def)

lemma entry_at_slice:
  assumes "j + 32 \<le> length bs"
  shows "entry_at bs j = entry_at (take 32 (drop j bs)) 0"
proof -
  have "le16 (take 32 (drop j bs)) i = le16 bs (j + i)" if "Suc i < 32" for i
    by (rule le16_slice) (use assms that in auto)
  then show ?thesis
    using assms by (simp add: entry_at_def le32_def take_drop add.commute)
qed

lemma length_put_entry: "entry_ok e \<Longrightarrow> j + 32 \<le> length s \<Longrightarrow> length (put_entry j e s) = length s"
  by (simp add: put_entry_def length_entry_bytes sizeof_entry_def)

lemma entry_at_put:
  assumes "entry_ok e" "j + 32 \<le> length s"
  shows "entry_at (put_entry j e s) j = e"
proof -
  have "take 32 (drop j (put_entry j e s)) = entry_bytes e"
    using assms by (simp add: put_entry_def length_entry_bytes)
  then show ?thesis
    using entry_at_slice [of j "put_entry j e s"] entry_roundtrip [OF assms(1)] assms
    by (simp add: length_put_entry)
qed

lemma entry_at_put_other:
  assumes "entry_ok e" "j + 32 \<le> length s" "i + 32 \<le> length s" "i + 32 \<le> j \<or> j + 32 \<le> i"
  shows "entry_at (put_entry j e s) i = entry_at s i"
proof -
  have "take 32 (drop i (put_entry j e s)) = take 32 (drop i s)"
  proof (rule nth_equalityI)
    fix k assume "k < length (take 32 (drop i (put_entry j e s)))"
    then have k: "k < 32" by simp
    show "take 32 (drop i (put_entry j e s)) ! k = take 32 (drop i s) ! k"
      using k assms length_entry_bytes [OF assms(1)] length_put_entry [OF assms(1,2)]
      by (auto simp: put_entry_def sizeof_entry_def nth_append)
  qed (use assms length_put_entry [OF assms(1,2)] in simp)
  then show ?thesis
    using entry_at_slice [of i s] entry_at_slice [of i "put_entry j e s"] assms
    by (simp add: length_put_entry)
qed

end
