(* ===== verification/FileSystem.thy ===== *)
theory FileSystem
  imports Fat16
begin

text \<open>
  What the FAT16 operations promise: the view of a volume as a list of directory entries, a
  map of cluster entries and the contents of the clusters, and the proof that the operations
  work on that view.
\<close>

section \<open>The volume\<close>

definition disk :: "fat16 \<Rightarrow> u32 \<Rightarrow> u8 list" where
  "disk fs = platter (fs_disk fs)"

definition fat_entry :: "fat16 \<Rightarrow> u16 \<Rightarrow> u16" where
  "fat_entry fs c = le16 (disk fs (fat_sector fs c)) (fat_offset c)"

definition dir_of :: "fat16 \<Rightarrow> u32 list \<Rightarrow> fat16_entry list" where
  "dir_of fs lbas = concat (map (\<lambda>a. map (entry_at (disk fs a)) entry_offsets) lbas)"

definition dir :: "fat16 \<Rightarrow> fat16_entry list" where
  "dir fs = dir_of fs (root_sectors fs)"

definition cluster_data :: "fat16 \<Rightarrow> u16 \<Rightarrow> u8 list" where
  "cluster_data fs c = concat (map (disk fs) (cluster_sectors fs c))"

text \<open>
  A mounted volume: the sectors have 512 bytes, and the FAT, the root directory and the data
  follow each other on the drive. The data are addressed by 28 bits and the FAT has fewer than
  256 sectors.
\<close>

definition volume_ok :: "fat16 \<Rightarrow> bool" where
  "volume_ok fs \<longleftrightarrow> (\<forall>a. length (disk fs a) = 512)
     \<and> unat (sectors_per_fat fs) < 256
     \<and> unat (fat_start_lba (geometry fs)) + 256 \<le> 2 ^ 28
     \<and> unat (fat_start_lba (geometry fs)) + unat (sectors_per_fat fs) \<le> unat (root_dir_start_lba (geometry fs))
     \<and> unat (root_dir_start_lba (geometry fs)) + unat (root_dir_sectors (geometry fs)) \<le> unat (data_start_lba (geometry fs))
     \<and> unat (data_start_lba (geometry fs)) + 65536 * unat (sectors_per_cluster fs) \<le> 2 ^ 28"

lemma volume_sector: "volume_ok fs \<Longrightarrow> length (disk fs a) = 512"
  by (simp add: volume_ok_def)

lemma lba28_small: "unat a < 2 ^ 28 \<Longrightarrow> lba28 a"
proof -
  assume "unat a < 2 ^ 28"
  then have "take_bit 28 (unat a) = unat a" by (simp add: take_bit_nat_eq_self_iff)
  then have "take_bit 28 a = a" by (metis unsigned_take_bit_eq word_unat_eq_iff)
  moreover have "(0x0FFFFFFF :: u32) = mask 28" by (simp add: mask_eq_exp_minus_1)
  ultimately show "lba28 a" unfolding lba28_def by (simp only: take_bit_eq_mask [symmetric])
qed

lemma unat16: "unat (x :: u16) < 65536"
  using unsigned_less [of x] by simp

lemma unat8: "unat (x :: u8) < 256"
  using unsigned_less [of x] by simp

lemma unat_of_nat16: "n < 65536 \<Longrightarrow> unat (of_nat n :: u16) = n"
  by (simp add: unat_of_nat take_bit_nat_eq_self_iff)

lemma unat_ucast_8_32 [simp]: "unat (ucast (x :: u8) :: u32) = unat x"
  using unat8 [of x] by (simp add: unsigned_ucast_eq take_bit_nat_eq_self_iff)

lemma unat_ucast_16_32 [simp]: "unat (ucast (x :: u16) :: u32) = unat x"
  using unat16 [of x] by (simp add: unsigned_ucast_eq take_bit_nat_eq_self_iff)

lemma fat_sector_addr:
  assumes "volume_ok fs"
  shows "unat (fat_sector fs c) = unat (fat_start_lba (geometry fs)) + unat c div 256"
    and "lba28 (fat_sector fs c)"
proof -
  have d: "unat (ucast c div 256 :: u32) = unat c div 256" by (simp add: unat_div)
  have l: "unat c div 256 < 256" using unat16 [of c] by simp
  show "unat (fat_sector fs c) = unat (fat_start_lba (geometry fs)) + unat c div 256"
    unfolding fat_sector_def using assms d l by (subst unat_plus32) (simp_all add: volume_ok_def)
  with l show "lba28 (fat_sector fs c)" using assms by (intro lba28_small) (simp add: volume_ok_def)
qed

lemma cluster_addr:
  assumes "volume_ok fs" "2 \<le> unat c" "i < unat (sectors_per_cluster fs)"
  shows "unat (cluster_lba fs c + of_nat i) =
      unat (data_start_lba (geometry fs)) + (unat c - 2) * unat (sectors_per_cluster fs) + i"
    and "lba28 (cluster_lba fs c + of_nat i)"
proof -
  let ?s = "unat (sectors_per_cluster fs)" and ?d = "unat (data_start_lba (geometry fs))"
  have c: "unat (ucast c - 2 :: u32) = unat c - 2"
    using assms(2) by (subst unat_minus32) (simp_all add: word_le_nat_alt)
  have s: "?s < 256" by (rule unat8)
  have "(unat c - 2) * ?s + i < (unat c - 2) * ?s + ?s" using assms(3) by simp
  also have "\<dots> = Suc (unat c - 2) * ?s" by simp
  also have "\<dots> \<le> 65536 * ?s" using unat16 [of c] by (intro mult_le_mono1) linarith
  finally have b: "?d + (unat c - 2) * ?s + i < 2 ^ 28" using assms(1) by (simp add: volume_ok_def)
  have m: "unat ((ucast c - 2) * ucast (sectors_per_cluster fs) :: u32) = (unat c - 2) * ?s"
    using b c by (subst unat_times32) simp_all
  have l: "unat (cluster_lba fs c) = ?d + (unat c - 2) * ?s"
    unfolding cluster_lba_def using b m by (subst unat_plus32) simp_all
  have i: "unat (of_nat i :: u32) = i" using assms(3) s by simp
  show e: "unat (cluster_lba fs c + of_nat i) = ?d + (unat c - 2) * ?s + i"
    using b l i by (subst unat_plus32) simp_all
  show "lba28 (cluster_lba fs c + of_nat i)" using b e by (intro lba28_small) simp
qed

lemma root_addr:
  assumes "volume_ok fs" "i < unat (root_dir_sectors (geometry fs))"
  shows "unat (root_dir_start_lba (geometry fs) + of_nat i) = unat (root_dir_start_lba (geometry fs)) + i"
    and "lba28 (root_dir_start_lba (geometry fs) + of_nat i)"
proof -
  have "unat (root_dir_start_lba (geometry fs)) + i < 2 ^ 28" "i < 2 ^ 32"
    using assms by (auto simp: volume_ok_def)
  then show "unat (root_dir_start_lba (geometry fs) + of_nat i) = unat (root_dir_start_lba (geometry fs)) + i"
    by (subst unat_plus32) simp_all
  with \<open>_ < 2 ^ 28\<close> show "lba28 (root_dir_start_lba (geometry fs) + of_nat i)"
    by (intro lba28_small) simp
qed

text \<open>The operations change the drive and the heap; the layout is read from the rest.\<close>

lemma layout_kept [simp]:
  "sectors_per_cluster (fs\<lparr>fs_disk := d\<rparr>) = sectors_per_cluster fs"
  "sectors_per_fat (fs\<lparr>fs_disk := d\<rparr>) = sectors_per_fat fs"
  "cluster_lba (fs\<lparr>fs_disk := d\<rparr>) c = cluster_lba fs c"
  "cluster_sectors (fs\<lparr>fs_disk := d\<rparr>) c = cluster_sectors fs c"
  "fat_sector (fs\<lparr>fs_disk := d\<rparr>) c = fat_sector fs c"
  "root_sectors (fs\<lparr>fs_disk := d\<rparr>) = root_sectors fs"
  "total_clusters (fs\<lparr>fs_disk := d\<rparr>) = total_clusters fs"
  "disk (fs\<lparr>fs_disk := d\<rparr>) = platter d"
  "sectors_per_cluster (fs\<lparr>fs_heap := h\<rparr>) = sectors_per_cluster fs"
  "sectors_per_fat (fs\<lparr>fs_heap := h\<rparr>) = sectors_per_fat fs"
  "cluster_lba (fs\<lparr>fs_heap := h\<rparr>) c = cluster_lba fs c"
  "cluster_sectors (fs\<lparr>fs_heap := h\<rparr>) c = cluster_sectors fs c"
  "fat_sector (fs\<lparr>fs_heap := h\<rparr>) c = fat_sector fs c"
  "root_sectors (fs\<lparr>fs_heap := h\<rparr>) = root_sectors fs"
  "total_clusters (fs\<lparr>fs_heap := h\<rparr>) = total_clusters fs"
  "disk (fs\<lparr>fs_heap := h\<rparr>) = disk fs"
  by (simp_all add: sectors_per_cluster_def sectors_per_fat_def cluster_lba_def cluster_sectors_def
      fat_sector_def root_sectors_def total_clusters_def disk_def)

lemma platter_disk [simp]: "platter (fs_disk fs) = disk fs"
  by (simp add: disk_def)

lemma volume_ok_heap [simp]: "volume_ok (fs\<lparr>fs_heap := h\<rparr>) = volume_ok fs"
  by (simp add: volume_ok_def)

lemma volume_ok_disk: "volume_ok fs \<Longrightarrow> \<forall>a. length (platter d a) = 512 \<Longrightarrow> volume_ok (fs\<lparr>fs_disk := d\<rparr>)"
  by (simp add: volume_ok_def)

lemma fs_read_eq: "lba28 a \<Longrightarrow> fs_read a fs = (disk fs a, fs\<lparr>fs_disk := ata_select a (fs_disk fs)\<rparr>)"
  by (simp add: fs_read_def ata_read_sector_def lba28_def)

lemma fs_write_eq: "lba28 a \<Longrightarrow> fs_write a s fs =
    fs\<lparr>fs_disk := (ata_select a (fs_disk fs))\<lparr>platter := (disk fs)(a := s)\<rparr>\<rparr>"
  by (simp add: fs_write_def ata_write_sector_def lba28_def)

section \<open>The allocation table\<close>

definition mark_cluster :: "fat16 \<Rightarrow> u16 \<Rightarrow> u32 \<Rightarrow> u8 list" where
  "mark_cluster fs c = (disk fs)(fat_sector fs c := put16 (fat_offset c) 0xFFF8 (disk fs (fat_sector fs c)))"

lemma alloc_loop_spec:
  assumes "volume_ok fs"
  shows "\<exists>d. alloc_loop cs fs = (case find (\<lambda>c. fat_entry fs c = 0) cs of None \<Rightarrow> 0 | Some c \<Rightarrow> c, fs\<lparr>fs_disk := d\<rparr>)
    \<and> platter d = (case find (\<lambda>c. fat_entry fs c = 0) cs of None \<Rightarrow> disk fs | Some c \<Rightarrow> mark_cluster fs c)"
  using assms
proof (induction cs arbitrary: fs)
  case Nil
  show ?case by (intro exI [of _ "fs_disk fs"]) simp
next
  case (Cons c cs)
  let ?fs = "fs\<lparr>fs_disk := ata_select (fat_sector fs c) (fs_disk fs)\<rparr>"
  have rd: "fs_read (fat_sector fs c) fs = (disk fs (fat_sector fs c), ?fs)"
    by (rule fs_read_eq [OF fat_sector_addr(2) [OF Cons.prems]])
  have wr: "fs_write (fat_sector fs c) s ?fs
      = ?fs\<lparr>fs_disk := (ata_select (fat_sector fs c) (fs_disk ?fs))\<lparr>platter := (disk ?fs)(fat_sector fs c := s)\<rparr>\<rparr>" for s
    by (rule fs_write_eq [OF fat_sector_addr(2) [OF Cons.prems]])
  have e: "disk ?fs = disk fs" by simp
  have fe: "fat_entry ?fs = fat_entry fs" by (rule ext) (simp add: fat_entry_def e)
  have v: "volume_ok ?fs" using Cons.prems by (intro volume_ok_disk) (simp_all add: volume_ok_def)
  show ?case
  proof (cases "fat_entry fs c = 0")
    case True
    then have z: "le16 (disk fs (fat_sector fs c)) (fat_offset c) = 0" by (simp add: fat_entry_def)
    show ?thesis
      using True by (simp add: rd wr z e mark_cluster_def) (rule exI, rule conjI [OF refl], simp)
  next
    case False
    then have z: "le16 (disk fs (fat_sector fs c)) (fat_offset c) \<noteq> 0" by (simp add: fat_entry_def)
    have m: "mark_cluster ?fs = mark_cluster fs" by (rule ext) (simp add: mark_cluster_def e)
    obtain d where "alloc_loop cs ?fs = (case find (\<lambda>c. fat_entry fs c = 0) cs of None \<Rightarrow> 0 | Some c \<Rightarrow> c, ?fs\<lparr>fs_disk := d\<rparr>)"
       "platter d = (case find (\<lambda>c. fat_entry fs c = 0) cs of None \<Rightarrow> disk fs | Some c \<Rightarrow> mark_cluster fs c)"
      using Cons.IH [OF v] unfolding fe e m by blast
    then show ?thesis using False z by (intro exI [of _ d]) (simp add: rd)
  qed
qed

lemma fat_offset_bound: "Suc (fat_offset c) < 512"
proof -
  have "unat c mod 256 < 256" by simp
  then show ?thesis unfolding fat_offset_def by linarith
qed

lemma fat_offset_apart:
  assumes "unat c div 256 = unat x div 256" "c \<noteq> x"
  shows "fat_offset c \<noteq> fat_offset x" "fat_offset x \<noteq> Suc (fat_offset c)"
proof -
  have "unat c \<noteq> unat x" using assms(2) by (simp add: word_unat_eq_iff)
  moreover define a b where "a = unat c mod 256" and "b = unat x mod 256"
  moreover have "unat c div 256 * 256 + a = unat c" "unat x div 256 * 256 + b = unat x"
    unfolding calculation(2,3) by (rule div_mult_mod_eq)+
  ultimately have "a \<noteq> b" using assms(1) by metis
  then show "fat_offset c \<noteq> fat_offset x" by (simp add: fat_offset_def \<open>a = _\<close> \<open>b = _\<close>)
  have "b * 2 \<noteq> Suc (a * 2)" by arith
  then show "fat_offset x \<noteq> Suc (fat_offset c)" by (simp add: fat_offset_def \<open>a = _\<close> \<open>b = _\<close>)
qed

lemma fat_entry_mark:
  assumes "volume_ok fs" "platter d = mark_cluster fs c"
  shows "fat_entry (fs\<lparr>fs_disk := d\<rparr>) x = (if x = c then 0xFFF8 else fat_entry fs x)"
proof (cases "fat_sector fs x = fat_sector fs c")
  case True
  then have "unat c div 256 = unat x div 256" using arg_cong [OF True, of unat] fat_sector_addr(1) [OF assms(1), of x] fat_sector_addr(1) [OF assms(1), of c]
    by linarith
  note dv = this
  have b: "Suc (fat_offset c) < length (disk fs (fat_sector fs c))"
    using fat_offset_bound volume_sector [OF assms(1)] by simp
  have e: "fat_entry (fs\<lparr>fs_disk := d\<rparr>) x = le16 (put16 (fat_offset c) 0xFFF8 (disk fs (fat_sector fs c))) (fat_offset x)"
    using True assms(2) by (simp add: fat_entry_def mark_cluster_def)
  show ?thesis
  proof (cases "x = c")
    case True
    then show ?thesis unfolding e by (simp add: le16_put16 [OF b])
  next
    case False
    have "fat_offset x \<noteq> fat_offset c" "fat_offset x \<noteq> Suc (fat_offset c)" "Suc (fat_offset x) \<noteq> fat_offset c"
      using fat_offset_apart [OF dv] fat_offset_apart(2) [OF dv [symmetric]] False by force+
    then have "le16 (put16 (fat_offset c) 0xFFF8 (disk fs (fat_sector fs c))) (fat_offset x) = fat_entry fs x"
      unfolding fat_entry_def True by (rule le16_put16_other)
    then show ?thesis unfolding e using False by simp
  qed
next
  case False
  then show ?thesis using assms(2) by (auto simp: fat_entry_def mark_cluster_def)
qed

text \<open>The regions of the drive: a cluster entry that the FAT holds is not in the other two.\<close>

lemma regions_apart_lba:
  assumes "volume_ok fs" "unat c < 256 * unat (sectors_per_fat fs)"
  shows "fat_sector fs c \<notin> set (root_sectors fs)"
    and "2 \<le> unat x \<Longrightarrow> fat_sector fs c \<notin> set (cluster_sectors fs x)"
    and "2 \<le> unat x \<Longrightarrow> a \<in> set (cluster_sectors fs x) \<Longrightarrow> a \<notin> set (root_sectors fs)"
proof -
  have "unat c div 256 < unat (sectors_per_fat fs)" using assms(2) by (simp add: less_mult_imp_div_less mult.commute)
  then have f: "unat (fat_sector fs c) < unat (root_dir_start_lba (geometry fs))"
    using fat_sector_addr(1) [OF assms(1), of c] assms(1) by (simp add: volume_ok_def)
  have r: "unat (root_dir_start_lba (geometry fs)) \<le> unat a \<and> unat a < unat (data_start_lba (geometry fs))"
    if "a \<in> set (root_sectors fs)" for a
    using that root_addr(1) [OF assms(1)] assms(1) by (auto simp: root_sectors_def volume_ok_def)
  have k: "unat (data_start_lba (geometry fs)) \<le> unat a" if "2 \<le> unat x" "a \<in> set (cluster_sectors fs x)" for a
    using that cluster_addr(1) [OF assms(1)] by (auto simp: cluster_sectors_def)
  show "fat_sector fs c \<notin> set (root_sectors fs)" using f r by (meson not_le)
  show "fat_sector fs c \<notin> set (cluster_sectors fs x)" if "2 \<le> unat x"
  proof
    assume "fat_sector fs c \<in> set (cluster_sectors fs x)"
    from k [OF that this] f assms(1) show False by (simp add: volume_ok_def)
  qed
  show "a \<notin> set (root_sectors fs)" if "2 \<le> unat x" "a \<in> set (cluster_sectors fs x)"
    using k [OF that] r by (meson not_le)
qed

lemma dir_of_cong: "(\<And>a. a \<in> set lbas \<Longrightarrow> disk fs a = disk fs' a) \<Longrightarrow> dir_of fs lbas = dir_of fs' lbas"
  by (simp add: dir_of_def cong: map_cong)

text \<open>
  The operations take one sector buffer from the heap and give it back. In the steady state,
  once a free block is large enough, this leaves the heap as it was.
\<close>

definition borrow :: "u32 \<Rightarrow> kheap \<Rightarrow> kheap option" where
  "borrow n h = do { (p, h) \<leftarrow> kmalloc n h; if p = 0 then None else kfree p h }"

definition scratch_ok :: "fat16 \<Rightarrow> bool" where
  "scratch_ok fs \<longleftrightarrow> borrow 512 (fs_heap fs) = Some (fs_heap fs)"

lemma scratch_ok_disk [simp]: "scratch_ok (fs\<lparr>fs_disk := d\<rparr>) = scratch_ok fs"
  by (simp add: scratch_ok_def)

lemma scratch:
  assumes "scratch_ok fs"
  obtains p h where "fs_alloc (of_nat SECTOR_SIZE) fs = Some (p, fs\<lparr>fs_heap := h\<rparr>)"
    and "\<And>d. fs_release p (fs\<lparr>fs_heap := h, fs_disk := d\<rparr>) = Some (fs\<lparr>fs_disk := d\<rparr>)"
proof -
  obtain p h where p: "kmalloc 512 (fs_heap fs) = Some (p, h)" "p \<noteq> 0" "kfree p h = Some (fs_heap fs)"
    using assms by (auto simp: scratch_ok_def borrow_def split: bind_splits if_splits)
  show ?thesis
    by (rule that [of p h]) (use p in \<open>simp_all add: fs_alloc_def fs_release_def SECTOR_SIZE_def\<close>)
qed

lemma unat_total_clusters:
  assumes "volume_ok fs"
  shows "unat (total_clusters fs) = 256 * unat (sectors_per_fat fs)"
proof -
  define n where "n = unat (sectors_per_fat fs)"
  have u: "uint (sectors_per_fat fs) = int n" by (simp add: n_def)
  have "uint (sectors_per_fat fs) * 512 sdiv 2 = int (256 * n)"
    unfolding u by (simp add: signed_divide_int_def sgn_if)
  then have "total_clusters fs = of_nat (256 * n)" unfolding total_clusters_def by (simp del: of_nat_mult)
  then show ?thesis
    using assms unat_of_nat16 [of "256 * n"] by (simp add: volume_ok_def n_def del: of_nat_mult)
qed

definition free_cluster :: "fat16 \<Rightarrow> u16 option" where
  "free_cluster fs = find (\<lambda>c. fat_entry fs c = 0) (map of_nat [2..<256 * unat (sectors_per_fat fs)])"

lemma alloc_spec:
  assumes "volume_ok fs" "scratch_ok fs"
  shows "\<exists>d. fat16_alloc_cluster fs
      = Some (case free_cluster fs of None \<Rightarrow> 0 | Some c \<Rightarrow> c, fs\<lparr>fs_disk := d\<rparr>)
    \<and> platter d = (case free_cluster fs of None \<Rightarrow> disk fs | Some c \<Rightarrow> mark_cluster fs c)"
proof -
  obtain p h where h: "fs_alloc (of_nat SECTOR_SIZE) fs = Some (p, fs\<lparr>fs_heap := h\<rparr>)"
      "\<And>d. fs_release p (fs\<lparr>fs_heap := h, fs_disk := d\<rparr>) = Some (fs\<lparr>fs_disk := d\<rparr>)"
    using scratch [OF assms(2)] by blast
  have v: "volume_ok (fs\<lparr>fs_heap := h\<rparr>)" using assms(1) by simp
  have e: "disk (fs\<lparr>fs_heap := h\<rparr>) = disk fs" "fat_entry (fs\<lparr>fs_heap := h\<rparr>) = fat_entry fs" "mark_cluster (fs\<lparr>fs_heap := h\<rparr>) = mark_cluster fs"
    by (simp_all add: fat_entry_def mark_cluster_def fun_eq_iff)
  define cs :: "u16 list" where "cs = map of_nat [2..<256 * unat (sectors_per_fat fs)]"
  obtain d where d: "alloc_loop cs (fs\<lparr>fs_heap := h\<rparr>)
      = (case free_cluster fs of None \<Rightarrow> 0 | Some c \<Rightarrow> c, fs\<lparr>fs_heap := h, fs_disk := d\<rparr>)"
      "platter d = (case free_cluster fs of None \<Rightarrow> disk fs | Some c \<Rightarrow> mark_cluster fs c)"
    using alloc_loop_spec [OF v, of cs] unfolding e free_cluster_def cs_def [symmetric] by blast
  show ?thesis
    by (rule exI [of _ d]) (simp add: fat16_alloc_cluster_def h d unat_total_clusters [OF assms(1)] Let_def cs_def [symmetric])
qed

lemma free_cluster_Some:
  assumes "volume_ok fs" "free_cluster fs = Some c"
  shows "2 \<le> unat c" "unat c < 256 * unat (sectors_per_fat fs)" "fat_entry fs c = 0"
    and "\<And>x. 2 \<le> unat x \<Longrightarrow> unat x < unat c \<Longrightarrow> fat_entry fs x \<noteq> 0"
proof -
  let ?n = "256 * unat (sectors_per_fat fs)"
  have n: "?n < 65536" using assms(1) by (simp add: volume_ok_def)
  obtain i where i: "i < ?n - 2" "fat_entry fs (of_nat (2 + i)) = 0" "c = of_nat (2 + i)"
      "\<forall>j < i. fat_entry fs (of_nat (2 + j)) \<noteq> 0"
    using assms(2) unfolding free_cluster_def find_Some_iff by auto
  have u: "unat (of_nat (2 + j) :: u16) = 2 + j" if "j < ?n - 2" for j
    using that n by (intro unat_of_nat16) linarith
  show "2 \<le> unat c" "unat c < ?n" "fat_entry fs c = 0" using i u [of i] by simp_all
  fix x :: u16 assume x: "2 \<le> unat x" "unat x < unat c"
  then have "unat x - 2 < i" "x = of_nat (2 + (unat x - 2))" using i(1,3) u [of i] by simp_all
  then show "fat_entry fs x \<noteq> 0" using i(4) by metis
qed

lemma free_cluster_None:
  assumes "volume_ok fs" "free_cluster fs = None" "2 \<le> unat x" "unat x < 256 * unat (sectors_per_fat fs)"
  shows "fat_entry fs x \<noteq> 0"
proof -
  have "x = of_nat (unat x)" by simp
  then have "x \<in> set (map of_nat [2..<256 * unat (sectors_per_fat fs)])" using assms(3,4) by (auto intro!: image_eqI [of _ _ "unat x"])
  then show ?thesis using assms(2) unfolding free_cluster_def find_None_iff by blast
qed

section \<open>The directory\<close>

definition free_entry :: "fat16_entry \<Rightarrow> bool" where
  "free_entry e \<longleftrightarrow> e_name e ! 0 = 0 \<or> e_name e ! 0 = 0xE5"

fun scan_dir :: "u8 list \<Rightarrow> u8 list \<Rightarrow> fat16_entry list \<Rightarrow> fat16_entry scan" where
  "scan_dir name ext [] = Goes_on"
| "scan_dir name ext (e # es) =
     (if e_name e ! 0 = 0 then Ends
      else if e_name e ! 0 \<noteq> 0xE5 \<and> e_name e = name \<and> e_extension e = ext then Found e
      else scan_dir name ext es)"

text \<open>The file that a name stands for, and the directory with a new entry in its first free slot.\<close>

definition dir_lookup :: "u8 list \<Rightarrow> u8 list \<Rightarrow> fat16_entry list \<Rightarrow> fat16_entry option" where
  "dir_lookup name ext es = (case scan_dir name ext es of Found e \<Rightarrow> Some e | _ \<Rightarrow> None)"

fun dir_insert :: "fat16_entry \<Rightarrow> fat16_entry list \<Rightarrow> fat16_entry list" where
  "dir_insert e [] = []"
| "dir_insert e (x # xs) = (if free_entry x then e # xs else x # dir_insert e xs)"

lemma scan_dir_append:
  "scan_dir name ext (xs @ ys) = (case scan_dir name ext xs of Goes_on \<Rightarrow> scan_dir name ext ys | r \<Rightarrow> r)"
  by (induction xs) auto

lemma dir_insert_append:
  "dir_insert e (xs @ ys) = (if \<exists>x \<in> set xs. free_entry x then dir_insert e xs @ ys else xs @ dir_insert e ys)"
  by (induction xs) auto

lemma dir_insert_full: "\<not> (\<exists>x \<in> set xs. free_entry x) \<Longrightarrow> dir_insert e xs = xs"
  by (induction xs) auto

lemma length_dir_insert [simp]: "length (dir_insert e xs) = length xs"
  by (induction xs) auto

lemma lookup_insert:
  assumes "dir_lookup (e_name e) (e_extension e) es = None" "\<exists>x \<in> set es. free_entry x" "\<not> free_entry e"
  shows "dir_lookup (e_name e) (e_extension e) (dir_insert e es) = Some e"
  using assms(1,2)
proof (induction es)
  case (Cons x es)
  show ?case
  proof (cases "free_entry x")
    case True
    then show ?thesis using assms(3) by (simp add: dir_lookup_def free_entry_def)
  next
    case False
    then show ?thesis using Cons by (auto simp: dir_lookup_def free_entry_def split: if_splits)
  qed
qed simp

lemma lookup_insert_other:
  assumes "\<exists>x \<in> set es. free_entry x" "\<not> free_entry e" "(name, ext) \<noteq> (e_name e, e_extension e)"
    "dir_lookup name ext es = Some f"
  shows "dir_lookup name ext (dir_insert e es) = Some f"
  using assms(1,4)
proof (induction es)
  case (Cons x es)
  then show ?case using assms(2,3) by (auto simp: dir_lookup_def free_entry_def split: if_splits)
qed simp

subsection \<open>The loops over the sectors\<close>

lemma strncmp_eq: "length a = n \<Longrightarrow> length b = n \<Longrightarrow> 0 \<notin> set a \<Longrightarrow> strncmp a b n = Some (a = b)"
proof (induction a b n rule: strncmp.induct)
  case (2 a as b bs n)
  then show ?case by auto
qed auto

lemma entry_offsets_fit: "j \<in> set entry_offsets \<Longrightarrow> j + 32 \<le> 512"
  by (auto simp: entry_offsets_def sizeof_entry_def)

lemma entry_fields: "j + 32 \<le> length s \<Longrightarrow> length (e_name (entry_at s j)) = 8 \<and> length (e_extension (entry_at s j)) = 3"
  by (simp add: entry_at_def)

lemma find_in_sector_spec:
  assumes "length name = 8" "length ext = 3" "0 \<notin> set name" "0 \<notin> set ext" "\<forall>j \<in> set js. j + 32 \<le> length s"
  shows "find_in_sector name ext s js = Some (scan_dir name ext (map (entry_at s) js))"
  using assms(5)
proof (induction js)
  case (Cons j js)
  have f: "length (e_name (entry_at s j)) = 8" "length (e_extension (entry_at s j)) = 3"
    using entry_fields [of j s] Cons.prems by simp_all
  have n: "strncmp name (e_name (entry_at s j)) 8 = Some (e_name (entry_at s j) = name)"
    using strncmp_eq [OF assms(1) f(1) assms(3)] by (simp add: eq_commute)
  have x: "strncmp ext (e_extension (entry_at s j)) 3 = Some (e_extension (entry_at s j) = ext)"
    using strncmp_eq [OF assms(2) f(2) assms(4)] by (simp add: eq_commute)
  show ?case using Cons by (simp add: n x Let_def strncmp_eq [OF assms(2,2,4)])
qed simp

lemma find_in_root_spec:
  assumes "length name = 8" "length ext = 3" "0 \<notin> set name" "0 \<notin> set ext"
    and "\<forall>a. length (disk fs a) = 512" "\<forall>a \<in> set lbas. lba28 a"
  shows "\<exists>d. find_in_root name ext lbas fs = Some (dir_lookup name ext (dir_of fs lbas), fs\<lparr>fs_disk := d\<rparr>)
    \<and> platter d = disk fs"
  using assms(5,6)
proof (induction lbas arbitrary: fs)
  case Nil
  show ?case by (intro exI [of _ "fs_disk fs"]) (simp add: dir_of_def dir_lookup_def)
next
  case (Cons a lbas)
  let ?fs = "fs\<lparr>fs_disk := ata_select a (fs_disk fs)\<rparr>"
  have rd: "fs_read a fs = (disk fs a, ?fs)" by (rule fs_read_eq) (use Cons.prems in simp)
  have s: "find_in_sector name ext (disk fs a) entry_offsets
      = Some (scan_dir name ext (map (entry_at (disk fs a)) entry_offsets))"
    by (rule find_in_sector_spec [OF assms(1-4)]) (use Cons.prems(1) entry_offsets_fit in auto)
  have c: "dir_of fs (a # lbas) = map (entry_at (disk fs a)) entry_offsets @ dir_of fs lbas"
    by (simp add: dir_of_def)
  have "dir_of ?fs lbas = dir_of fs lbas" by (rule dir_of_cong) simp
  then obtain d where d: "find_in_root name ext lbas ?fs = Some (dir_lookup name ext (dir_of fs lbas), ?fs\<lparr>fs_disk := d\<rparr>)"
      "platter d = disk fs"
    using Cons.IH [of ?fs] Cons.prems by auto
  show ?case
  proof (cases "scan_dir name ext (map (entry_at (disk fs a)) entry_offsets)")
    case Goes_on
    then show ?thesis using d by (intro exI [of _ d]) (simp add: rd s c dir_lookup_def scan_dir_append)
  qed (auto simp: rd s c dir_lookup_def scan_dir_append intro!: exI [of _ "ata_select a (fs_disk fs)"])
qed

lemma free_slot_spec:
  "free_slot s js = find (\<lambda>j. free_entry (entry_at s j)) js"
  by (induction js) (auto simp: free_entry_def Let_def)

lemma put_entry_dir:
  assumes "entry_ok e" "length s = 512" "find (\<lambda>j. free_entry (entry_at s j)) entry_offsets = Some j"
  shows "map (entry_at (put_entry j e s)) entry_offsets = dir_insert e (map (entry_at s) entry_offsets)"
proof -
  obtain i where i: "i < 16" "j = 32 * i" "free_entry (entry_at s (32 * i))" "\<And>k. k < i \<Longrightarrow> \<not> free_entry (entry_at s (32 * k))"
    using assms(3) by (auto simp: find_Some_iff entry_offsets_def sizeof_entry_def)
  have at: "entry_at (put_entry j e s) (32 * k) = (if k = i then e else entry_at s (32 * k))" if "k < 16" for k
  proof (cases "k = i")
    case True
    then show ?thesis using entry_at_put [OF assms(1), of j s] i assms(2) by simp
  next
    case False
    then have "32 * k + 32 \<le> j \<or> j + 32 \<le> 32 * k" using i(2) by auto
    then show ?thesis using entry_at_put_other [OF assms(1), of j s "32 * k"] False i assms(2) that by simp
  qed
  have ins: "dir_insert e (map f [m..<n]) = map (f(i := e)) [m..<n]"
    if "m \<le> i" "i < n" "free_entry (f i)" "\<And>k. k < i \<Longrightarrow> \<not> free_entry (f k)" for f :: "nat \<Rightarrow> fat16_entry" and m n
    using that(1)
  proof (induction "i - m" arbitrary: m)
    case 0
    then show ?case using that(2,3) by (simp add: upt_conv_Cons)
  next
    case (Suc k)
    then have "m < i" by simp
    then show ?case using Suc that(2) that(4) [of m] by (simp add: upt_conv_Cons)
  qed
  have "map (entry_at (put_entry j e s)) entry_offsets = map ((\<lambda>k. entry_at s (32 * k))(i := e)) [0..<16]"
    unfolding entry_offsets_def sizeof_entry_def map_map o_def by (rule map_cong) (use at in auto)
  also have "\<dots> = dir_insert e (map (\<lambda>k. entry_at s (32 * k)) [0..<16])"
    by (rule ins [symmetric]) (use i in auto)
  finally show ?thesis unfolding entry_offsets_def sizeof_entry_def map_map o_def .
qed

lemma create_in_root_spec:
  assumes "entry_ok e" "\<forall>a. length (disk fs a) = 512" "\<forall>a \<in> set lbas. lba28 a" "distinct lbas"
  shows "\<exists>d. create_in_root e lbas fs = fs\<lparr>fs_disk := d\<rparr> \<and> (\<forall>a. length (platter d a) = 512)
    \<and> (\<forall>a. a \<notin> set lbas \<longrightarrow> platter d a = disk fs a)
    \<and> dir_of (fs\<lparr>fs_disk := d\<rparr>) lbas = dir_insert e (dir_of fs lbas)"
  using assms(2-4)
proof (induction lbas arbitrary: fs)
  case Nil
  then show ?case by (intro exI [of _ "fs_disk fs"]) (simp add: dir_of_def)
next
  case (Cons a lbas)
  let ?fs = "fs\<lparr>fs_disk := ata_select a (fs_disk fs)\<rparr>"
  have a: "lba28 a" "length (disk fs a) = 512" "a \<notin> set lbas" using Cons.prems by simp_all
  have rd: "fs_read a fs = (disk fs a, ?fs)" by (rule fs_read_eq [OF a(1)])
  have c: "dir_of f (a # lbas) = map (entry_at (disk f a)) entry_offsets @ dir_of f lbas" for f
    by (simp add: dir_of_def)
  show ?case
  proof (cases "free_slot (disk fs a) entry_offsets")
    case None
    then have nf: "\<not> (\<exists>x \<in> set (map (entry_at (disk fs a)) entry_offsets). free_entry x)"
      by (auto simp: free_slot_spec find_None_iff)
    have "dir_of ?fs lbas = dir_of fs lbas" by (rule dir_of_cong) simp
    then obtain d where d: "create_in_root e lbas ?fs = fs\<lparr>fs_disk := d\<rparr>" "\<forall>a. length (platter d a) = 512"
      "\<forall>a. a \<notin> set lbas \<longrightarrow> platter d a = disk fs a" "dir_of (fs\<lparr>fs_disk := d\<rparr>) lbas = dir_insert e (dir_of fs lbas)"
      using Cons.IH [of ?fs] Cons.prems by auto
    then show ?thesis
      using None nf a(3) by (intro exI [of _ d]) (simp add: rd c dir_insert_append)
  next
    case (Some j)
    let ?s = "put_entry j e (disk fs a)"
    let ?d = "(ata_select a (fs_disk ?fs))\<lparr>platter := (disk fs)(a := ?s)\<rparr>"
    have f: "find (\<lambda>j. free_entry (entry_at (disk fs a) j)) entry_offsets = Some j"
      using Some by (simp add: free_slot_spec)
    then have ex: "\<exists>x \<in> set (map (entry_at (disk fs a)) entry_offsets). free_entry x" "j \<in> set entry_offsets"
      by (auto simp: find_Some_iff)
    have l: "length ?s = 512" using length_put_entry [OF assms(1)] entry_offsets_fit [OF ex(2)] a(2) by simp
    have w: "fs_write a ?s ?fs = ?fs\<lparr>fs_disk := ?d\<rparr>" using fs_write_eq [OF a(1), of ?s ?fs] by simp
    have "dir_of (fs\<lparr>fs_disk := ?d\<rparr>) lbas = dir_of fs lbas"
      by (rule dir_of_cong) (use a(3) in auto)
    then show ?thesis
      using Some put_entry_dir [OF assms(1) a(2) f] ex(1) Cons.prems(1) l
      by (intro exI [of _ ?d]) (simp add: rd w c dir_insert_append)
  qed
qed

section \<open>Names\<close>

definition upcase :: "u8 \<Rightarrow> u8" where
  "upcase c = (if 97 \<le> c \<and> c \<le> 122 then c - 32 else c)"

definition name_field :: "nat \<Rightarrow> u8 list \<Rightarrow> u8 list" where
  "name_field n t = map upcase t @ replicate (n - length t) 32"

definition base_name :: "u8 list \<Rightarrow> u8 list" where
  "base_name t = takeWhile (\<lambda>c. c \<noteq> 46) (dropWhile (\<lambda>c. c = 46) t)"

definition ext_name :: "u8 list \<Rightarrow> u8 list" where
  "ext_name t = base_name (drop 1 (dropWhile (\<lambda>c. c \<noteq> 46) (dropWhile (\<lambda>c. c = 46) t)))"

lemma fill_ended: "fill_field n True s = replicate n 32"
  by (induction n arbitrary: s) auto

lemma fill_field_text: "0 \<notin> set t \<Longrightarrow> length t \<le> n \<Longrightarrow> fill_field n False (t @ 0 # r) = name_field n t"
proof (induction t arbitrary: n)
  case Nil
  then show ?case by (cases n) (simp_all add: name_field_def fill_ended)
next
  case (Cons c t)
  then obtain m where "n = Suc m" by (cases n) auto
  then show ?case using Cons by (auto simp: name_field_def upcase_def)
qed

lemma text_fits: "length (text_of d) < length d \<Longrightarrow> \<exists>r. d = text_of d @ 0 # r"
  by (induction d) (auto split: if_splits)

lemma field_nonzero: "0 \<notin> set t \<Longrightarrow> 0 \<notin> set (name_field n t)"
proof -
  have "upcase c \<noteq> 0" if "c \<noteq> 0" for c
  proof
    assume z: "upcase c = 0"
    show False
    proof (cases "97 \<le> c \<and> c \<le> 122")
      case True
      then have "c = 32" using z by (simp add: upcase_def)
      then show False using True by simp
    qed (use z that in \<open>auto simp: upcase_def\<close>)
  qed
  then show "0 \<notin> set t \<Longrightarrow> 0 \<notin> set (name_field n t)" by (auto simp: name_field_def) (metis)
qed

lemma length_field: "length t \<le> n \<Longrightarrow> length (name_field n t) = n"
  by (simp add: name_field_def)

lemma base_nonzero: "0 \<notin> set t \<Longrightarrow> 0 \<notin> set (base_name t)"
  by (auto simp: base_name_def dest: set_takeWhileD set_dropWhileD)

lemma ext_nonzero: "0 \<notin> set t \<Longrightarrow> 0 \<notin> set (ext_name t)"
  unfolding ext_name_def by (rule base_nonzero) (auto dest: in_set_dropD set_dropWhileD)

lemma format_name_spec:
  assumes "terminated input" "length (text_of input) < 64"
    and "length (base_name (text_of input)) \<le> 8" "length (ext_name (text_of input)) \<le> 3"
  shows "fat16_format_name input
    = Some (name_field 8 (base_name (text_of input)), name_field 3 (ext_name (text_of input)))"
proof -
  let ?t = "text_of input"
  obtain r where r: "strcpy (replicate 64 0) input = Some (?t @ 0 # r)"
    using strcpy_text [of input "replicate 64 0"] assms(1,2) by auto
  define u where "u = drop 1 (dropWhile (\<lambda>c. c \<noteq> 46) (dropWhile (\<lambda>c. c = 46) ?t))"
  have z: "0 \<notin> set ?t" "0 \<notin> set u"
    using text_of_nonzero [of input] unfolding u_def by (auto dest: in_set_dropD set_dropWhileD)
  obtain n where n: "strtok (replicate 9 0) (Some (?t @ 0 # r)) 46 None = Some (n, dropWhile (\<lambda>c. c = 46) ?t \<noteq> [], Some (u @ 0 # r))"
      "length n = 9" "text_of n = base_name ?t"
    using strtok_step [OF z(1), of 46 "replicate 9 0" None "Some (?t @ 0 # r)" r] assms(3)
    by (auto simp: base_name_def u_def)
  obtain e where e: "strtok (replicate 4 0) None 46 (Some (u @ 0 # r)) = Some (e, dropWhile (\<lambda>c. c = 46) u \<noteq> [],
       Some (drop 1 (dropWhile (\<lambda>c. c \<noteq> 46) (dropWhile (\<lambda>c. c = 46) u)) @ 0 # r))"
      "length e = 4" "text_of e = ext_name ?t"
    using strtok_step [OF z(2), of 46 "replicate 4 0" "Some (u @ 0 # r)" None r] assms(4)
    by (auto simp: ext_name_def base_name_def u_def)
  obtain n' where n': "n = base_name ?t @ 0 # n'" using text_fits [of n] n assms(3) by auto
  obtain e' where e': "e = ext_name ?t @ 0 # e'" using text_fits [of e] e assms(4) by auto
  have "fat16_format_name input = Some (fill_field 8 False n, fill_field 3 False e)"
    by (simp add: fat16_format_name_def r n(1) e(1))
  then show ?thesis
    unfolding n' e' by (simp add: fill_field_text base_nonzero ext_nonzero z(1) assms(3,4))
qed

section \<open>Reading\<close>

lemma read_sectors_spec:
  assumes "\<forall>a \<in> set lbas. lba28 a" "\<forall>a. length (disk fs a) = 512" "length out + 512 * length lbas \<le> cap"
  shows "\<exists>d. read_sectors cap lbas out fs = Some (out @ concat (map (disk fs) lbas), fs\<lparr>fs_disk := d\<rparr>)
    \<and> platter d = disk fs"
  using assms
proof (induction lbas arbitrary: out fs)
  case Nil
  show ?case by (intro exI [of _ "fs_disk fs"]) simp
next
  case (Cons a lbas)
  let ?fs = "fs\<lparr>fs_disk := ata_select a (fs_disk fs)\<rparr>"
  have rd: "fs_read a fs = (disk fs a, ?fs)" by (rule fs_read_eq) (use Cons.prems in simp)
  obtain d where d: "read_sectors cap lbas (out @ disk fs a) ?fs
      = Some ((out @ disk fs a) @ concat (map (disk fs) lbas), fs\<lparr>fs_disk := d\<rparr>)" "platter d = disk fs"
    using Cons.IH [of ?fs "out @ disk fs a"] Cons.prems by auto
  then show ?case using Cons.prems(3) by (intro exI [of _ d]) (simp add: rd SECTOR_SIZE_def)
qed

lemma read_cluster:
  assumes "volume_ok fs" "2 \<le> unat c" "length out + 512 * unat (sectors_per_cluster fs) \<le> cap"
  shows "\<exists>d. read_sectors cap (cluster_sectors fs c) out fs = Some (out @ cluster_data fs c, fs\<lparr>fs_disk := d\<rparr>)
    \<and> platter d = disk fs"
  unfolding cluster_data_def
proof (rule read_sectors_spec)
  show "\<forall>a \<in> set (cluster_sectors fs c). lba28 a"
    using cluster_addr(2) [OF assms(1,2)] by (auto simp: cluster_sectors_def)
qed (use assms volume_sector in \<open>auto simp: cluster_sectors_def\<close>)

lemma length_cluster_data: "volume_ok fs \<Longrightarrow> length (cluster_data fs c) = 512 * unat (sectors_per_cluster fs)"
  by (simp add: cluster_data_def cluster_sectors_def length_concat comp_def volume_sector sum_list_triv)

text \<open>The clusters that follow the table entry \<open>v\<close>, up to the end mark.\<close>

fun fat_chain :: "fat16 \<Rightarrow> u16 \<Rightarrow> u16 list \<Rightarrow> bool" where
  "fat_chain fs v [] \<longleftrightarrow> 0xFFF8 \<le> v"
| "fat_chain fs v (c # cs) \<longleftrightarrow> v = c \<and> c < 0xFFF8 \<and> 2 \<le> unat c \<and> fat_chain fs (fat_entry fs c) cs"

lemma fat_chain_disk: "platter d = disk fs \<Longrightarrow> fat_chain (fs\<lparr>fs_disk := d\<rparr>) v cs = fat_chain fs v cs"
  by (induction cs arbitrary: v) (simp_all add: fat_entry_def)

lemma cluster_data_disk: "platter d = disk fs \<Longrightarrow> cluster_data (fs\<lparr>fs_disk := d\<rparr>) c = cluster_data fs c"
  by (simp add: cluster_data_def)

lemma read_chain_spec:
  assumes "volume_ok fs" "fat_chain fs v cs"
    and "length out + 512 * unat (sectors_per_cluster fs) * length cs \<le> cap"
  shows "\<exists>d. read_chain cap v out fs = Some (out @ concat (map (cluster_data fs) cs), fs\<lparr>fs_disk := d\<rparr>)
    \<and> platter d = disk fs"
  using assms
proof (induction cs arbitrary: v out fs)
  case Nil
  then show ?case by (intro exI [of _ "fs_disk fs"]) (subst read_chain.simps, simp add: leD)
next
  case (Cons c cs)
  let ?fs = "fs\<lparr>fs_disk := ata_select (fat_sector fs c) (fs_disk fs)\<rparr>"
  have v: "v = c" "c < 0xFFF8" "2 \<le> unat c" "fat_chain fs (fat_entry fs c) cs" using Cons.prems(2) by simp_all
  have rd: "fs_read (fat_sector fs c) fs = (disk fs (fat_sector fs c), ?fs)"
    by (rule fs_read_eq [OF fat_sector_addr(2) [OF Cons.prems(1)]])
  have vk: "volume_ok ?fs" using Cons.prems(1) by (intro volume_ok_disk) (simp_all add: volume_ok_def)
  have len: "length out + 512 * unat (sectors_per_cluster fs) \<le> cap" using Cons.prems(3) by simp
  obtain d1 where d1: "read_sectors cap (cluster_sectors fs c) out ?fs = Some (out @ cluster_data fs c, fs\<lparr>fs_disk := d1\<rparr>)"
      "platter d1 = disk fs"
    using read_cluster [OF vk v(3), of out cap] len cluster_data_disk [of "ata_select (fat_sector fs c) (fs_disk fs)" fs c]
    by auto
  have vk1: "volume_ok (fs\<lparr>fs_disk := d1\<rparr>)" using Cons.prems(1) d1(2) by (intro volume_ok_disk) (simp_all add: volume_ok_def)
  have ch: "fat_chain (fs\<lparr>fs_disk := d1\<rparr>) (fat_entry fs c) cs" using v(4) fat_chain_disk [OF d1(2)] by simp
  have "cluster_data (fs\<lparr>fs_disk := d1\<rparr>) = cluster_data fs" by (rule ext) (rule cluster_data_disk [OF d1(2)])
  then obtain d where d: "read_chain cap (fat_entry fs c) (out @ cluster_data fs c) (fs\<lparr>fs_disk := d1\<rparr>)
      = Some ((out @ cluster_data fs c) @ concat (map (cluster_data fs) cs), fs\<lparr>fs_disk := d\<rparr>)" "platter d = disk fs"
    using Cons.IH [OF vk1 ch, of "out @ cluster_data fs c"] Cons.prems(3) d1(2) length_cluster_data [OF Cons.prems(1), of c]
    by auto
  have e: "le16 (disk fs (fat_sector fs c)) (fat_offset c) = fat_entry fs c" by (simp add: fat_entry_def)
  show ?case
    by (intro exI [of _ d], subst read_chain.simps) (simp add: v(1,2) rd d1(1) e d)
qed

section \<open>Writing\<close>

text \<open>The bytes that fill \<open>n\<close> sectors: the data, and zeros behind them.\<close>

definition padded :: "u8 list \<Rightarrow> u32 \<Rightarrow> nat \<Rightarrow> u8 list" where
  "padded data len n = take (512 * n) (take (unat len) data @ replicate (512 * n) 0)"

definition data_sector :: "u8 list \<Rightarrow> u32 \<Rightarrow> nat \<Rightarrow> u8 list" where
  "data_sector data len i = take 512 (drop (512 * i) (take (unat len) data) @ replicate 512 0)"

lemma length_data_sector [simp]: "length (data_sector data len i) = 512"
  by (simp add: data_sector_def)

lemma padded_sectors: "concat (map (data_sector data len) [0..<n]) = padded data len n"
proof (induction n)
  case (Suc n)
  define x where "x = take (unat len) data"
  have p: "padded data len m ! j = (if j < length x then x ! j else 0)" if "j < 512 * m" for m j
    using that by (simp add: padded_def x_def [symmetric] nth_append)
  have d: "data_sector data len n ! k = (if 512 * n + k < length x then x ! (512 * n + k) else 0)" if "k < 512" for k
    using that by (auto simp: data_sector_def x_def [symmetric] nth_append)
  have l: "length (padded data len m) = 512 * m" for m by (simp add: padded_def)
  have "padded data len n @ data_sector data len n = padded data len (Suc n)"
  proof (rule nth_equalityI)
    fix j assume j: "j < length (padded data len n @ data_sector data len n)"
    then have b: "j < 512 * Suc n" by (simp add: l)
    show "(padded data len n @ data_sector data len n) ! j = padded data len (Suc n) ! j"
    proof (cases "j < 512 * n")
      case True
      then show ?thesis using p [OF True] p [OF b] by (simp add: nth_append l)
    next
      case False
      then have "j - 512 * n < 512" "512 * n + (j - 512 * n) = j" using b by simp_all
      then show ?thesis using False d [of "j - 512 * n"] p [OF b] by (simp add: nth_append l)
    qed
  qed (simp add: l)
  then show ?case using Suc by simp
qed (simp add: padded_def)

lemma file_sector_spec:
  assumes "unat len < 2 ^ 31" "i < 256" "min (unat len) (512 * Suc i) \<le> length data"
  shows "file_sector data len (of_nat i * of_nat SECTOR_SIZE) = Some (data_sector data len i)"
proof -
  define off :: u32 where "off = of_nat i * of_nat SECTOR_SIZE"
  define r where "r = (if len > off then len - off else 0)"
  have o: "unat off = 512 * i"
    using assms(2) unat_times32 [of "of_nat i" "of_nat SECTOR_SIZE"] by (simp add: off_def SECTOR_SIZE_def)
  have ur: "unat r = unat len - 512 * i"
    using o unat_minus32 [of off len] by (auto simp: r_def word_less_nat_alt word_le_nat_alt)
  then have "sint r = int (unat r)" using assms(1) by (intro sint_small) simp
  then have c: "c_min (sint r) (int SECTOR_SIZE) = int (min (unat r) 512)"
    by (simp only: c_min_eq SECTOR_SIZE_def of_nat_min)
  have t: "unat (word_of_int (c_min (sint r) (int SECTOR_SIZE)) :: u32) = min (unat r) 512"
    unfolding c by (subst unat_u32_of) simp_all
  define t where "t = (word_of_int (c_min (sint r) (int SECTOR_SIZE)) :: u32)"
  have ut: "unat t = min (unat r) 512" using t by (simp add: t_def)
  have ds: "data_sector data len i = take (unat t) (drop (512 * i) data) @ replicate (512 - unat t) 0"
  proof (rule nth_equalityI)
    have m: "min (unat len) (512 + 512 * i) \<le> length data" using assms(3) by simp
    then have td: "unat t \<le> length data - 512 * i" "unat t \<le> 512" using ur ut by arith+
    then show "length (data_sector data len i) = length (take (unat t) (drop (512 * i) data) @ replicate (512 - unat t) 0)"
      by simp
    fix k assume "k < length (data_sector data len i)"
    then have k: "k < 512" by simp
    have "k < unat t \<longleftrightarrow> 512 * i + k < unat len" using k ur ut by linarith
    moreover have "512 * i + k < unat len \<Longrightarrow> 512 * i + k < length data" using k m by arith
    ultimately show "data_sector data len i ! k = (take (unat t) (drop (512 * i) data) @ replicate (512 - unat t) 0) ! k"
      using k td by (auto simp: data_sector_def nth_append)
  qed
  have "file_sector data len off = Some (data_sector data len i)"
  proof (cases "t > 0")
    case True
    then have "0 < unat t" by (simp add: word_less_nat_alt)
    then have "unat t \<le> length (drop (512 * i) data)" using assms(3) ur ut by (auto simp: min_def split: if_splits)
    then show ?thesis
      using True ut unfolding file_sector_def r_def [symmetric] Let_def t_def [symmetric] ds
      by (simp add: memcpy_copies SECTOR_SIZE_def o)
  next
    case False
    then have "t = 0" using word_gt_0 by blast
    then show ?thesis
      using False unfolding file_sector_def r_def [symmetric] Let_def t_def [symmetric] ds
      by (simp add: SECTOR_SIZE_def)
  qed
  then show ?thesis unfolding off_def .
qed

lemma write_cluster_run:
  assumes "unat len < 2 ^ 31" "n \<le> 256" "min (unat len) (512 * n) \<le> length data"
  shows "m \<le> n \<Longrightarrow> foldM (\<lambda>i fs. do {
         sector \<leftarrow> file_sector data len (of_nat i * of_nat SECTOR_SIZE);
         Some (fs_write (lba + of_nat i) sector fs) }) [m..<n] fs
    = Some (fs\<lparr>fs_disk := ad.write_run (lba + of_nat m) (map (data_sector data len) [m..<n]) (fs_disk fs)\<rparr>)"
proof (induction "n - m" arbitrary: m fs)
  case 0
  then show ?case by simp
next
  case (Suc k)
  then have m: "m < n" by simp
  have f: "file_sector data len (of_nat m * of_nat SECTOR_SIZE) = Some (data_sector data len m)"
    by (rule file_sector_spec [OF assms(1)]) (use m assms(2,3) in auto)
  have u: "[m..<n] = m # [Suc m..<n]" using m by (rule upt_conv_Cons)
  have a: "lba + of_nat m + 1 = lba + of_nat (Suc m)" by simp
  show ?case
    unfolding u foldM.simps f bind.bind_lunit list.map ad.write_run.simps a
    using Suc.hyps(1) [of "Suc m" "fs_write (lba + of_nat m) (data_sector data len m) fs"] Suc.hyps(2) m
    by (simp add: fs_write_def)
qed

lemma platter_write: "lba28 a \<Longrightarrow> platter (ata_write_sector a s d) = (platter d)(a := s)"
  by (simp add: ata_write_sector_def lba28_def)

lemma write_run_frame:
  assumes "\<forall>i < length ss. lba28 (a + of_nat i)" "\<forall>i < length ss. b \<noteq> a + of_nat i"
  shows "platter (ad.write_run a ss d) b = platter d b"
  using assms
proof (induction ss arbitrary: a d)
  case (Cons s ss)
  have "lba28 (a + 1 + of_nat i)" "b \<noteq> a + 1 + of_nat i" if "i < length ss" for i
    using Cons.prems [rule_format, of "Suc i"] that by (simp_all add: add.assoc)
  moreover have "lba28 a" "b \<noteq> a" using Cons.prems [rule_format, of 0] by simp_all
  ultimately show ?case
    using Cons.IH [of "a + 1" "ata_write_sector a s d"] by (simp add: platter_write)
qed simp

lemma write_run_sized:
  "\<forall>s \<in> set ss. length s = 512 \<Longrightarrow> \<forall>a. length (platter d a) = 512
    \<Longrightarrow> length (platter (ad.write_run a ss d) b) = 512"
  by (induction ss arbitrary: a d) (simp_all add: ata_write_sector_def)

lemma write_cluster_spec:
  assumes v: "volume_ok fs" and c: "2 \<le> unat c" and len: "unat len < 2 ^ 31"
    and data: "min (unat len) (512 * unat (sectors_per_cluster fs)) \<le> length data"
  shows "\<exists>d. write_cluster data len (cluster_lba fs c) fs = Some (fs\<lparr>fs_disk := d\<rparr>)
    \<and> volume_ok (fs\<lparr>fs_disk := d\<rparr>)
    \<and> (\<forall>a. a \<notin> set (cluster_sectors fs c) \<longrightarrow> platter d a = disk fs a)
    \<and> cluster_data (fs\<lparr>fs_disk := d\<rparr>) c = padded data len (unat (sectors_per_cluster fs))"
proof -
  let ?n = "unat (sectors_per_cluster fs)" and ?a = "cluster_lba fs c"
  let ?ss = "map (data_sector data len) [0..<?n]"
  define d where "d = ad.write_run ?a ?ss (fs_disk fs)"
  have n: "?n < 256" by (rule unat8)
  have w: "write_cluster data len ?a fs = Some (fs\<lparr>fs_disk := d\<rparr>)"
    using write_cluster_run [OF len _ data, of 0 ?a fs] n by (simp add: write_cluster_def d_def)
  have ok: "\<forall>i < length ?ss. lba28 (?a + of_nat i)" using cluster_addr(2) [OF v c] by simp
  have sz: "length (platter d b) = 512" for b
    unfolding d_def by (rule write_run_sized) (use volume_sector [OF v] in auto)
  have fr: "platter d b = disk fs b" if "b \<notin> set (cluster_sectors fs c)" for b
    unfolding d_def using that by (subst write_run_frame [OF ok]) (auto simp: cluster_sectors_def)
  have "platter d (?a + of_nat i) = data_sector data len i" if "i < ?n" for i
  proof -
    have i: "unat (of_nat i :: u32) = i" using that n by simp
    show ?thesis
      unfolding d_def using ad.write_run_contents [OF ok, of "?a + of_nat i" "fs_disk fs"] cluster_addr(2) [OF v c that] that n
      by (simp add: i)
  qed
  then have "cluster_data (fs\<lparr>fs_disk := d\<rparr>) c = concat (map (data_sector data len) [0..<?n])"
    unfolding cluster_data_def cluster_sectors_def layout_kept map_map comp_def
    by (intro arg_cong [where f = concat] map_cong) auto
  then show ?thesis using w sz fr volume_ok_disk [OF v, of d] padded_sectors by auto
qed

lemma length_fill [simp]: "length (fill_field n b s) = n"
  by (induction n b s rule: fill_field.induct) auto

lemma fill_nonzero: "0 \<notin> set (fill_field n b s)"
proof (induction n b s rule: fill_field.induct)
  case (2 n b s)
  have "upcase (hd s) \<noteq> 0" if "hd s \<noteq> 0"
    using field_nonzero [of "[hd s]" 1] that by (simp add: name_field_def)
  then show ?case using 2 by (simp add: upcase_def split: if_splits)
qed simp

lemma two_fields:
  "do { t \<leftarrow> A; (m, _, tok) \<leftarrow> B t; (k, _, tok) \<leftarrow> C tok; Some (f m, g k) } = Some (n, e)
    \<Longrightarrow> \<exists>m k. n = f m \<and> e = g k"
  by (auto simp: bind_eq_Some_conv split: prod.splits)

lemma format_fields:
  assumes "fat16_format_name input = Some (n, e)"
  obtains m k where "n = fill_field 8 False m" "e = fill_field 3 False k"
proof -
  have "\<exists>m k. n = fill_field 8 False m \<and> e = fill_field 3 False k"
    using assms unfolding fat16_format_name_def by (rule two_fields)
  then show thesis by (elim exE conjE) (rule that)
qed

lemma format_shape:
  assumes "fat16_format_name input = Some (n, e)"
  shows "length n = 8" "length e = 3" "0 \<notin> set n" "0 \<notin> set e"
  by (rule format_fields [OF assms], simp only: length_fill fill_nonzero not_False_eq_True)+

lemma root_sectors_ok:
  assumes "volume_ok fs"
  shows "\<forall>a \<in> set (root_sectors fs). lba28 a" "distinct (root_sectors fs)"
proof -
  show "\<forall>a \<in> set (root_sectors fs). lba28 a"
    using root_addr(2) [OF assms] by (auto simp: root_sectors_def)
  have "inj_on (\<lambda>i. root_dir_start_lba (geometry fs) + of_nat i) {0..<unat (root_dir_sectors (geometry fs))}"
  proof (rule inj_onI)
    fix i j
    assume i: "i \<in> {0..<unat (root_dir_sectors (geometry fs))}" and j: "j \<in> {0..<unat (root_dir_sectors (geometry fs))}"
      and e: "root_dir_start_lba (geometry fs) + of_nat i = root_dir_start_lba (geometry fs) + of_nat j"
    have "unat (root_dir_start_lba (geometry fs)) + i = unat (root_dir_start_lba (geometry fs)) + j"
      using arg_cong [OF e, of unat] root_addr(1) [OF assms, of i] root_addr(1) [OF assms, of j] i j
      unfolding atLeastLessThan_iff by linarith
    then show "i = j" by (rule add_left_imp_eq)
  qed
  then show "distinct (root_sectors fs)" by (simp add: root_sectors_def distinct_map)
qed

lemma cluster_sectors_apart:
  assumes "volume_ok fs" "2 \<le> unat c" "2 \<le> unat x" "x \<noteq> c"
  shows "set (cluster_sectors fs x) \<inter> set (cluster_sectors fs c) = {}"
proof (rule ccontr)
  let ?n = "unat (sectors_per_cluster fs)"
  assume "set (cluster_sectors fs x) \<inter> set (cluster_sectors fs c) \<noteq> {}"
  then obtain i j where ij: "i < ?n" "j < ?n" "cluster_lba fs x + of_nat i = cluster_lba fs c + of_nat j"
    by (auto simp: cluster_sectors_def)
  have "unat (cluster_lba fs x + of_nat i) = unat (cluster_lba fs c + of_nat j)" by (simp only: ij(3))
  then have "(unat x - 2) * ?n + i = (unat c - 2) * ?n + j"
    unfolding cluster_addr(1) [OF assms(1,3) ij(1)] cluster_addr(1) [OF assms(1,2) ij(2)] by simp
  then have "((unat x - 2) * ?n + i) div ?n = ((unat c - 2) * ?n + j) div ?n" by (rule arg_cong)
  then have "unat x - 2 = unat c - 2" using ij(1,2) by simp
  then have "unat x = unat c" using assms(2,3) by linarith
  then show False using assms(4) by (simp add: word_unat_eq_iff)
qed

lemma create_dir_entry_spec:
  assumes "volume_ok fs" "scratch_ok fs" "fat16_format_name input = Some (n, e)"
  shows "\<exists>d. fat16_create_dir_entry input c len fs = Some (fs\<lparr>fs_disk := d\<rparr>)
    \<and> volume_ok (fs\<lparr>fs_disk := d\<rparr>)
    \<and> dir (fs\<lparr>fs_disk := d\<rparr>) = dir_insert (new_entry n e c len) (dir fs)
    \<and> (\<forall>a. a \<notin> set (root_sectors fs) \<longrightarrow> platter d a = disk fs a)"
proof -
  let ?e = "new_entry n e c len"
  obtain p h where h: "fs_alloc (of_nat SECTOR_SIZE) fs = Some (p, fs\<lparr>fs_heap := h\<rparr>)"
      "\<And>d. fs_release p (fs\<lparr>fs_heap := h, fs_disk := d\<rparr>) = Some (fs\<lparr>fs_disk := d\<rparr>)"
    using scratch [OF assms(2)] by blast
  have ok: "entry_ok ?e" using format_shape [OF assms(3)] by (simp add: entry_ok_def new_entry_def)
  have "dir_of (fs\<lparr>fs_heap := h\<rparr>) l = dir_of fs l" "dir_of (fs\<lparr>fs_heap := h, fs_disk := d\<rparr>) l = dir_of (fs\<lparr>fs_disk := d\<rparr>) l" for d l
    by (rule dir_of_cong; simp)+
  then obtain d where d: "create_in_root ?e (root_sectors fs) (fs\<lparr>fs_heap := h\<rparr>) = fs\<lparr>fs_heap := h, fs_disk := d\<rparr>"
      "\<forall>a. length (platter d a) = 512" "\<forall>a. a \<notin> set (root_sectors fs) \<longrightarrow> platter d a = disk fs a"
      "dir_of (fs\<lparr>fs_disk := d\<rparr>) (root_sectors fs) = dir_insert ?e (dir_of fs (root_sectors fs))"
    using create_in_root_spec [OF ok, of "fs\<lparr>fs_heap := h\<rparr>" "root_sectors fs"] root_sectors_ok [OF assms(1)]
      volume_sector [OF assms(1)] by auto
  show ?thesis
    using d volume_ok_disk [OF assms(1) d(2)]
    by (intro exI [of _ d]) (simp add: fat16_create_dir_entry_def assms(3) h dir_def Let_def)
qed

lemma write_file_spec:
  assumes v: "volume_ok fs" and sc: "scratch_ok fs" and name: "fat16_format_name name = Some (n, e)"
    and c: "free_cluster fs = Some c" and len: "unat len < 2 ^ 31"
    and data: "min (unat len) (512 * unat (sectors_per_cluster fs)) \<le> length data"
  shows "\<exists>d. fat16_write_file name data len fs = Some (True, fs\<lparr>fs_disk := d\<rparr>)
    \<and> volume_ok (fs\<lparr>fs_disk := d\<rparr>)
    \<and> (\<forall>x. unat x < 256 * unat (sectors_per_fat fs) \<longrightarrow>
          fat_entry (fs\<lparr>fs_disk := d\<rparr>) x = (if x = c then 0xFFF8 else fat_entry fs x))
    \<and> dir (fs\<lparr>fs_disk := d\<rparr>) = dir_insert (new_entry n e c len) (dir fs)
    \<and> cluster_data (fs\<lparr>fs_disk := d\<rparr>) c = padded data len (unat (sectors_per_cluster fs))
    \<and> (\<forall>x. 2 \<le> unat x \<and> x \<noteq> c \<longrightarrow> cluster_data (fs\<lparr>fs_disk := d\<rparr>) x = cluster_data fs x)"
proof -
  note fc = free_cluster_Some [OF v c]
  note ap = regions_apart_lba [OF v fc(2)]
  obtain d1 where d1: "fat16_alloc_cluster fs = Some (c, fs\<lparr>fs_disk := d1\<rparr>)" "platter d1 = mark_cluster fs c"
    using alloc_spec [OF v sc] c by auto
  let ?f1 = "fs\<lparr>fs_disk := d1\<rparr>"
  have v1: "volume_ok ?f1" using v d1(2) by (intro volume_ok_disk) (auto simp: mark_cluster_def volume_sector)
  obtain p h where h: "fs_alloc (of_nat SECTOR_SIZE) ?f1 = Some (p, ?f1\<lparr>fs_heap := h\<rparr>)"
      "\<And>d. fs_release p (?f1\<lparr>fs_heap := h, fs_disk := d\<rparr>) = Some (?f1\<lparr>fs_disk := d\<rparr>)"
    using scratch [of ?f1] sc by auto
  let ?f2 = "?f1\<lparr>fs_heap := h\<rparr>"
  have v2: "volume_ok ?f2" using v1 by simp
  obtain d3 where d3: "write_cluster data len (cluster_lba fs c) ?f2 = Some (?f2\<lparr>fs_disk := d3\<rparr>)"
      "volume_ok (?f2\<lparr>fs_disk := d3\<rparr>)" "\<forall>a. a \<notin> set (cluster_sectors fs c) \<longrightarrow> platter d3 a = platter d1 a"
      "cluster_data (?f2\<lparr>fs_disk := d3\<rparr>) c = padded data len (unat (sectors_per_cluster fs))"
    using write_cluster_spec [OF v2 fc(1) len] data by auto
  let ?f3 = "fs\<lparr>fs_disk := d3\<rparr>"
  have v3: "volume_ok ?f3" using d3(2) v by (intro volume_ok_disk) (simp_all add: volume_ok_def)
  obtain d4 where d4: "fat16_create_dir_entry name c len ?f3 = Some (fs\<lparr>fs_disk := d4\<rparr>)" "volume_ok (fs\<lparr>fs_disk := d4\<rparr>)"
      "dir (fs\<lparr>fs_disk := d4\<rparr>) = dir_insert (new_entry n e c len) (dir ?f3)"
      "\<forall>a. a \<notin> set (root_sectors fs) \<longrightarrow> platter d4 a = platter d3 a"
    using create_dir_entry_spec [OF v3 _ name, of c len] sc by auto
  have w: "fat16_write_file name data len fs = Some (True, fs\<lparr>fs_disk := d4\<rparr>)"
    using fc(1) by (auto simp: fat16_write_file_def d1(1) h(1) h(2) [simplified] d3(1) d4(1))
  have root: "platter d3 a = disk fs a" if "a \<in> set (root_sectors fs)" for a
  proof -
    have "a \<notin> set (cluster_sectors fs c)" "a \<noteq> fat_sector fs c" using that ap(1) ap(3) [OF fc(1), of a] by blast+
    then show ?thesis using d3(3) by (simp add: d1(2) mark_cluster_def)
  qed
  have dir: "dir ?f3 = dir fs" unfolding dir_def layout_kept by (rule dir_of_cong) (simp add: root)
  have fat: "fat_entry (fs\<lparr>fs_disk := d4\<rparr>) x = (if x = c then 0xFFF8 else fat_entry fs x)"
    if x: "unat x < 256 * unat (sectors_per_fat fs)" for x
  proof -
    have "platter d4 (fat_sector fs x) = platter d1 (fat_sector fs x)"
      using d3(3) d4(4) regions_apart_lba(1,2) [OF v x] fc(1) by metis
    then have "fat_entry (fs\<lparr>fs_disk := d4\<rparr>) x = fat_entry ?f1 x" by (simp add: fat_entry_def)
    then show ?thesis using fat_entry_mark [OF v d1(2)] by simp
  qed
  have oth: "cluster_data (fs\<lparr>fs_disk := d4\<rparr>) x = cluster_data fs x" if x: "2 \<le> unat x" "x \<noteq> c" for x
  proof -
    have "platter d4 a = disk fs a" if a: "a \<in> set (cluster_sectors fs x)" for a
    proof -
      have "platter d4 a = platter d3 a" using d4(4) ap(3) [OF x(1) a] by blast
      also have "\<dots> = platter d1 a" using d3(3) cluster_sectors_apart [OF v fc(1) x] a by blast
      also have "\<dots> = disk fs a" using ap(2) [OF x(1)] a by (auto simp: d1(2) mark_cluster_def)
      finally show ?thesis .
    qed
    then show ?thesis by (simp add: cluster_data_def cong: map_cong)
  qed
  have own: "cluster_data (fs\<lparr>fs_disk := d4\<rparr>) c = padded data len (unat (sectors_per_cluster fs))"
  proof -
    have "platter d4 a = platter d3 a" if "a \<in> set (cluster_sectors fs c)" for a
      using d4(4) ap(3) [OF fc(1) that] by blast
    then show ?thesis using d3(4) by (simp add: cluster_data_def cong: map_cong)
  qed
  show ?thesis using w d4(2,3) dir fat own oth by (intro exI [of _ d4]) simp
qed

section \<open>Finding\<close>

text \<open>The heap serves the two objects of \<^verbatim>\<open>fat16_find_file\<close> and takes them back.\<close>

definition find_ok :: "fat16 \<Rightarrow> bool" where
  "find_ok fs \<longleftrightarrow> do {
     (p, h) \<leftarrow> kmalloc 512 (fs_heap fs);
     (q, h) \<leftarrow> if p = 0 then None else kmalloc 32 h;
     h \<leftarrow> if q = 0 then None else kfree p h;
     kfree q h } \<noteq> None"

lemma find_ok_disk [simp]: "find_ok (fs\<lparr>fs_disk := d\<rparr>) = find_ok fs"
  by (simp add: find_ok_def)

lemma find_file_spec:
  assumes v: "volume_ok fs" and f: "find_ok fs" and root: "strcmp input [47, 0] = Some False"
    and name: "fat16_format_name input = Some (n, e)"
  shows "\<exists>q h d. fat16_find_file stale input fs
      = Some (map_option (Pair q) (dir_lookup n e (dir fs)), fs\<lparr>fs_disk := d, fs_heap := h\<rparr>)
    \<and> platter d = disk fs"
proof -
  obtain p h1 q h2 h3 h4 where h: "kmalloc 512 (fs_heap fs) = Some (p, h1)" "p \<noteq> 0"
      "kmalloc 32 h1 = Some (q, h2)" "q \<noteq> 0" "kfree p h2 = Some h3" "kfree q h3 = Some h4"
    using f unfolding find_ok_def by (auto split: bind_splits if_splits)
  let ?fs = "fs\<lparr>fs_heap := h2\<rparr>"
  obtain d where d: "find_in_root n e (root_sectors fs) ?fs = Some (dir_lookup n e (dir fs), ?fs\<lparr>fs_disk := d\<rparr>)"
      "platter d = disk fs"
    using find_in_root_spec [OF format_shape [OF name], of ?fs "root_sectors fs"] root_sectors_ok(1) [OF v]
      volume_sector [OF v] dir_of_cong [of "root_sectors fs" ?fs fs] by (auto simp: dir_def)
  note eqs = fat16_find_file_def root name fs_alloc_def fs_release_def SECTOR_SIZE_def sizeof_entry_def
  show ?thesis
  proof (cases "dir_lookup n e (dir fs)")
    case None
    then show ?thesis using h d by (intro exI [of _ q] exI [of _ h4] exI [of _ d]) (simp add: eqs)
  next
    case (Some x)
    then show ?thesis using h d by (intro exI [of _ q] exI [of _ h3] exI [of _ d]) (simp add: eqs)
  qed
qed

lemma read_file_spec:
  assumes "volume_ok fs" "2 \<le> unat (e_start_cluster e)"
    and "fat_chain fs (fat_entry fs (e_start_cluster e)) cs"
    and "512 * unat (sectors_per_cluster fs) * Suc (length cs) \<le> cap"
  shows "\<exists>fs'. fat16_read_file cap e fs
      = Some (of_nat (512 * unat (sectors_per_cluster fs) * Suc (length cs)),
          concat (map (cluster_data fs) (e_start_cluster e # cs)), fs') \<and> disk fs' = disk fs"
proof -
  let ?c = "e_start_cluster e" and ?n = "512 * unat (sectors_per_cluster fs)"
  obtain d1 where d1: "read_sectors cap (cluster_sectors fs ?c) [] fs = Some (cluster_data fs ?c, fs\<lparr>fs_disk := d1\<rparr>)"
      "platter d1 = disk fs"
    using read_cluster [OF assms(1,2), of "[]" cap] assms(4) by auto
  let ?d2 = "ata_select (fat_sector fs ?c) d1"
  have rd: "fs_read (fat_sector fs ?c) (fs\<lparr>fs_disk := d1\<rparr>) = (disk fs (fat_sector fs ?c), fs\<lparr>fs_disk := ?d2\<rparr>)"
    using fs_read_eq [OF fat_sector_addr(2) [OF assms(1), of ?c], of "fs\<lparr>fs_disk := d1\<rparr>"] d1(2) by simp
  have p2: "platter ?d2 = disk fs" using d1(2) by simp
  have v2: "volume_ok (fs\<lparr>fs_disk := ?d2\<rparr>)" using assms(1) p2 by (intro volume_ok_disk) (simp_all add: volume_ok_def)
  have "fat_chain (fs\<lparr>fs_disk := ?d2\<rparr>) (fat_entry fs ?c) cs" using assms(3) fat_chain_disk [OF p2] by simp
  moreover have cd: "cluster_data (fs\<lparr>fs_disk := ?d2\<rparr>) = cluster_data fs" by (rule ext) (rule cluster_data_disk [OF p2])
  ultimately obtain d where d: "read_chain cap (fat_entry fs ?c) (cluster_data fs ?c) (fs\<lparr>fs_disk := ?d2\<rparr>)
      = Some (cluster_data fs ?c @ concat (map (cluster_data fs) cs), fs\<lparr>fs_disk := d\<rparr>)" "platter d = disk fs"
    using read_chain_spec [OF v2, of "fat_entry fs ?c" cs "cluster_data fs ?c" cap] assms(4) p2
      length_cluster_data [OF assms(1), of ?c] by auto
  have e: "le16 (disk fs (fat_sector fs ?c)) (fat_offset ?c) = fat_entry fs ?c" by (simp add: fat_entry_def)
  have "length (concat (map (cluster_data fs) cs)) = ?n * length cs"
    by (induction cs) (simp_all add: length_cluster_data [OF assms(1)] algebra_simps)
  then have "length (cluster_data fs ?c @ concat (map (cluster_data fs) cs)) = ?n * Suc (length cs)"
    by (simp add: length_cluster_data [OF assms(1)])
  then show ?thesis
    using d(2) by (intro exI [of _ "fs\<lparr>fs_disk := d\<rparr>"]) (simp add: fat16_read_file_def d1(1) rd e d(1) Let_def)
qed

lemma write_find_read:
  assumes "volume_ok fs" "scratch_ok fs" "find_ok fs"
    and "fat16_format_name name = Some (n, e)" "strcmp name [47, 0] = Some False" "n ! 0 \<noteq> 0xE5"
    and "free_cluster fs = Some c" "\<exists>x \<in> set (dir fs). free_entry x" "dir_lookup n e (dir fs) = None"
    and len: "unat len < 2 ^ 31" and data: "min (unat len) (512 * unat (sectors_per_cluster fs)) \<le> length data"
    and "512 * unat (sectors_per_cluster fs) \<le> cap"
  shows "\<exists>fs1 q en fs2 fs3. fat16_write_file name data len fs = Some (True, fs1)
    \<and> fat16_find_file stale name fs1 = Some (Some (q, en), fs2) \<and> e_file_size en = len
    \<and> fat16_read_file cap en fs2 = Some (of_nat (512 * unat (sectors_per_cluster fs)),
         padded data len (unat (sectors_per_cluster fs)), fs3)
    \<and> (\<forall>x. 2 \<le> unat x \<and> x \<noteq> c \<longrightarrow> cluster_data fs1 x = cluster_data fs x)
    \<and> (\<forall>m y f. (m, y) \<noteq> (n, e) \<and> dir_lookup m y (dir fs) = Some f \<longrightarrow> dir_lookup m y (dir fs1) = Some f)"
proof -
  let ?n = "unat (sectors_per_cluster fs)"
  let ?e = "new_entry n e c len"
  obtain d where d: "fat16_write_file name data len fs = Some (True, fs\<lparr>fs_disk := d\<rparr>)" "volume_ok (fs\<lparr>fs_disk := d\<rparr>)"
    "\<And>x. unat x < 256 * unat (sectors_per_fat fs) \<Longrightarrow> fat_entry (fs\<lparr>fs_disk := d\<rparr>) x = (if x = c then 0xFFF8 else fat_entry fs x)"
    "dir (fs\<lparr>fs_disk := d\<rparr>) = dir_insert ?e (dir fs)" "cluster_data (fs\<lparr>fs_disk := d\<rparr>) c = padded data len ?n"
    "\<And>x. 2 \<le> unat x \<and> x \<noteq> c \<Longrightarrow> cluster_data (fs\<lparr>fs_disk := d\<rparr>) x = cluster_data fs x"
    using write_file_spec [OF assms(1,2,4,7) len data] by blast
  let ?f1 = "fs\<lparr>fs_disk := d\<rparr>"
  have "n ! 0 \<noteq> 0" using format_shape(1,3) [OF assms(4)] by (metis nth_mem zero_less_numeral)
  then have nf: "\<not> free_entry ?e" using assms(6) by (simp add: free_entry_def new_entry_def)
  have f: "e_name ?e = n" "e_extension ?e = e" "e_file_size ?e = len" "e_start_cluster ?e = c" by (simp_all add: new_entry_def)
  have lk: "dir_lookup n e (dir ?f1) = Some ?e"
    unfolding d(4) using lookup_insert [of ?e "dir fs"] assms(8,9) nf f by simp
  have oth: "dir_lookup m y (dir ?f1) = Some g" if "(m, y) \<noteq> (n, e)" "dir_lookup m y (dir fs) = Some g" for m y g
    unfolding d(4) by (rule lookup_insert_other [OF assms(8) nf _ that(2)]) (use that(1) f in simp)
  have fo: "find_ok ?f1" using assms(3) by simp
  obtain q h d2 where q: "fat16_find_file stale name ?f1 = Some (Some (q, ?e), ?f1\<lparr>fs_disk := d2, fs_heap := h\<rparr>)"
      "platter d2 = disk ?f1"
    using find_file_spec [OF d(2) fo assms(5,4), of stale] unfolding lk by auto
  let ?f2 = "?f1\<lparr>fs_disk := d2, fs_heap := h\<rparr>"
  have v2: "volume_ok ?f2" using d(2) q(2) by (simp add: volume_ok_def)
  have k: "fat_entry ?f2 c = fat_entry ?f1 c" "cluster_data ?f2 c = cluster_data ?f1 c"
    using q(2) by (simp_all add: fat_entry_def cluster_data_def)
  have "fat_entry ?f1 c = 0xFFF8" using d(3) free_cluster_Some(2) [OF assms(1,7)] by simp
  then obtain fs3 where r: "fat16_read_file cap ?e ?f2 = Some (of_nat (512 * ?n), padded data len ?n, fs3)"
    using read_file_spec [OF v2, of ?e "[]" cap] free_cluster_Some(1) [OF assms(1,7)] assms(12) k d(5) f by auto
  show ?thesis
    by (rule exI [of _ ?f1], rule exI [of _ q], rule exI [of _ ?e], rule exI [of _ ?f2], rule exI [of _ fs3])
      (use d(1,6) q(1) f r oth in auto)
qed

section \<open>A volume to compute with\<close>

definition demo_fat16 :: fat16 where
  "demo_fat16 = \<lparr>fs_heap = the (borrow 512 (init_heap boot_heap)),
     fs_disk = \<lparr>sector_count = 0, lba_low = 0, lba_mid = 0, lba_high = 0, drive_port = 0,
       platter = (\<lambda>a. replicate 512 0)\<rparr>,
     bpb = (replicate 512 0)[13 := 1, 22 := 1],
     geometry = \<lparr>fat_start_lba = 2049, root_dir_start_lba = 2050, root_dir_sectors = 1, data_start_lba = 2051\<rparr>\<rparr>"

lemma demo_disk [simp]: "disk demo_fat16 a = replicate 512 0"
  by (simp add: demo_fat16_def disk_def)

lemma demo_layout [simp]:
  "sectors_per_cluster demo_fat16 = 1" "sectors_per_fat demo_fat16 = 1"
  "geometry demo_fat16 = \<lparr>fat_start_lba = 2049, root_dir_start_lba = 2050, root_dir_sectors = 1, data_start_lba = 2051\<rparr>"
  by (simp_all add: demo_fat16_def sectors_per_cluster_def sectors_per_fat_def le16_def)

lemma demo_volume: "volume_ok demo_fat16"
  by (simp add: volume_ok_def)

lemma demo_heap: "scratch_ok demo_fat16" "find_ok demo_fat16"
  by (simp_all add: scratch_ok_def find_ok_def demo_fat16_def borrow_def boot_heap_def heap_eval)

lemma demo_entries: "fat_entry demo_fat16 c = 0"
  using fat_offset_bound [of c] by (simp add: fat_entry_def le16_def)

lemma demo_free: "free_cluster demo_fat16 = Some 2"
  by (simp add: free_cluster_def demo_entries upt_conv_Cons)

lemma demo_dir: "x \<in> set (dir demo_fat16) \<Longrightarrow> e_name x ! 0 = 0" "length (dir demo_fat16) = 16"
proof -
  have d: "dir demo_fat16 = map (entry_at (replicate 512 0)) entry_offsets"
    by (simp add: dir_def dir_of_def root_sectors_def)
  have "e_name (entry_at (replicate 512 0) j) ! 0 = 0" if "j \<in> set entry_offsets" for j
    using entry_offsets_fit [OF that] by (simp add: entry_at_def)
  then show "x \<in> set (dir demo_fat16) \<Longrightarrow> e_name x ! 0 = 0" unfolding d by auto
  show "length (dir demo_fat16) = 16" unfolding d by (simp add: entry_offsets_def)
qed

lemma demo_dir_lookup: "dir_lookup n e (dir demo_fat16) = None" "\<exists>x \<in> set (dir demo_fat16). free_entry x"
proof -
  obtain x xs where d: "dir demo_fat16 = x # xs" using demo_dir(2) by (cases "dir demo_fat16") auto
  then have "e_name x ! 0 = 0" using demo_dir(1) [of x] by simp
  then show "dir_lookup n e (dir demo_fat16) = None" "\<exists>x \<in> set (dir demo_fat16). free_entry x"
    unfolding d by (simp_all add: dir_lookup_def free_entry_def)
qed

lemma demo_name: "fat16_format_name [97, 46, 98, 0] = Some (name_field 8 [97], name_field 3 [98])"
  using format_name_spec [of "[97, 46, 98, 0]"] by (simp add: base_name_def ext_name_def)

text \<open>What an entry of the heap may hold before it is set.\<close>

definition no_entry :: fat16_entry where
  "no_entry = new_entry [] [] 0 0"

section \<open>Properties\<close>

text \<open>A name with a stem of at most eight and an extension of at most three characters, whole
  name shorter than 64, becomes the two fields of a directory entry: upper case, padded with spaces.\<close>

theorem format_name_pads:
  assumes "terminated input" "length (text_of input) < 64"
    and "length (base_name (text_of input)) \<le> 8" "length (ext_name (text_of input)) \<le> 3"
  shows "fat16_format_name input
    = Some (name_field 8 (base_name (text_of input)), name_field 3 (ext_name (text_of input)))"
  by (rule format_name_spec [OF assms])

theorem format_name_pads_witness:
  "fat16_format_name [97, 98, 46, 99, 0] = Some ([65, 66] @ replicate 6 32, [67] @ replicate 2 32)"
  using format_name_pads [of "[97, 98, 46, 99, 0]"]
  by (simp add: base_name_def ext_name_def name_field_def upcase_def)

text \<open>On a mounted volume the allocation takes the lowest free cluster, marks it as the end of a
  chain and changes no other table entry; when there is none the result is 0 and the drive is
  unchanged.\<close>

theorem alloc_cluster_lowest:
  assumes "volume_ok fs" "scratch_ok fs"
  shows "\<exists>c fs'. fat16_alloc_cluster fs = Some (c, fs') \<and>
    (if \<exists>x. 2 \<le> unat x \<and> unat x < 256 * unat (sectors_per_fat fs) \<and> fat_entry fs x = 0
     then 2 \<le> unat c \<and> fat_entry fs c = 0 \<and> (\<forall>x. 2 \<le> unat x \<and> unat x < unat c \<longrightarrow> fat_entry fs x \<noteq> 0)
       \<and> (\<forall>x. fat_entry fs' x = (if x = c then 0xFFF8 else fat_entry fs x))
     else c = 0 \<and> disk fs' = disk fs)"
proof (cases "free_cluster fs")
  case None
  then obtain d where "fat16_alloc_cluster fs = Some (0, fs\<lparr>fs_disk := d\<rparr>)" "platter d = disk fs"
    using alloc_spec [OF assms] by auto
  then show ?thesis using free_cluster_None [OF assms(1) None] by auto
next
  case (Some c)
  then obtain d where "fat16_alloc_cluster fs = Some (c, fs\<lparr>fs_disk := d\<rparr>)" "platter d = mark_cluster fs c"
    using alloc_spec [OF assms] by auto
  then show ?thesis
    using free_cluster_Some [OF assms(1) Some] fat_entry_mark [OF assms(1)] by (intro exI conjI) auto
qed

theorem alloc_cluster_lowest_witness:
  "volume_ok demo_fat16 \<and> scratch_ok demo_fat16 \<and> (\<exists>c fs'. fat16_alloc_cluster demo_fat16 = Some (c, fs') \<and>
     2 \<le> unat c \<and> fat_entry fs' c = 0xFFF8)"
proof -
  have "\<exists>x. 2 \<le> unat x \<and> unat x < 256 * unat (sectors_per_fat demo_fat16) \<and> fat_entry demo_fat16 x = 0"
    by (intro exI [of _ 2]) (simp add: demo_entries)
  then obtain c fs' where "fat16_alloc_cluster demo_fat16 = Some (c, fs')" "2 \<le> unat c"
      "\<forall>x. fat_entry fs' x = (if x = c then 0xFFF8 else fat_entry demo_fat16 x)"
    using alloc_cluster_lowest [OF demo_volume demo_heap(1)] by auto
  then show ?thesis using demo_volume demo_heap(1) by auto
qed

text \<open>C13: A file whose clusters form a chain in the allocation table is read as the concatenation of
  their contents, in the order of the chain, and the reading ends; the drive is unchanged.\<close>

theorem read_file_follows_chain:
  assumes "volume_ok fs" "2 \<le> unat (e_start_cluster e)"
    and "fat_chain fs (fat_entry fs (e_start_cluster e)) cs"
    and "512 * unat (sectors_per_cluster fs) * Suc (length cs) \<le> cap"
  shows "\<exists>fs'. fat16_read_file cap e fs
      = Some (of_nat (512 * unat (sectors_per_cluster fs) * Suc (length cs)),
          concat (map (cluster_data fs) (e_start_cluster e # cs)), fs') \<and> disk fs' = disk fs"
  by (rule read_file_spec [OF assms])

definition demo_chain :: fat16 where
  "demo_chain = demo_fat16\<lparr>fs_disk := (fs_disk demo_fat16)\<lparr>platter :=
     (disk demo_fat16)(2049 := put16 4 3 (put16 6 0xFFF8 (replicate 512 0)))\<rparr>\<rparr>"

lemma demo_chain_facts:
  "volume_ok demo_chain" "fat_entry demo_chain 2 = 3" "fat_entry demo_chain 3 = 0xFFF8"
  "sectors_per_cluster demo_chain = 1"
proof -
  show "volume_ok demo_chain" unfolding demo_chain_def
    by (rule volume_ok_disk [OF demo_volume]) simp
  show "fat_entry demo_chain 2 = 3" "fat_entry demo_chain 3 = 0xFFF8" "sectors_per_cluster demo_chain = 1"
    by (simp_all add: demo_chain_def fat_entry_def fat_sector_def fat_offset_def le16_put16 le16_put16_other)
qed

theorem read_file_follows_chain_witness:
  "\<exists>fs'. fat16_read_file 2048 (new_entry [] [] 2 700) demo_chain
     = Some (1024, cluster_data demo_chain 2 @ cluster_data demo_chain 3, fs')"
  using read_file_follows_chain [of demo_chain "new_entry [] [] 2 700" "[3]" 2048] demo_chain_facts
  by (auto simp: new_entry_def)

text \<open>C12: The directory on the drive refines a list of entries: creating an entry is
  \<^verbatim>\<open>dir_insert\<close>, finding a name is \<^verbatim>\<open>dir_lookup\<close>, whatever sectors the entries are in,
  and finding leaves the drive as it is.\<close>

theorem directory_refines_entry_list:
  assumes "volume_ok fs" "scratch_ok fs" "find_ok fs"
    and "fat16_format_name input = Some (n, e)" "strcmp input [47, 0] = Some False"
  shows "\<exists>fs1 q fs2. fat16_create_dir_entry input c len fs = Some fs1
      \<and> dir fs1 = dir_insert (new_entry n e c len) (dir fs) \<and> volume_ok fs1
      \<and> fat16_find_file stale input fs = Some (map_option (Pair q) (dir_lookup n e (dir fs)), fs2)
      \<and> disk fs2 = disk fs"
proof -
  obtain d where "fat16_create_dir_entry input c len fs = Some (fs\<lparr>fs_disk := d\<rparr>)" "volume_ok (fs\<lparr>fs_disk := d\<rparr>)"
      "dir (fs\<lparr>fs_disk := d\<rparr>) = dir_insert (new_entry n e c len) (dir fs)"
    using create_dir_entry_spec [OF assms(1,2,4)] by blast
  moreover obtain q h d2 where "fat16_find_file stale input fs
      = Some (map_option (Pair q) (dir_lookup n e (dir fs)), fs\<lparr>fs_disk := d2, fs_heap := h\<rparr>)" "platter d2 = disk fs"
    using find_file_spec [OF assms(1,3,5,4)] by blast
  moreover have "disk (fs\<lparr>fs_disk := d2, fs_heap := h\<rparr>) = disk fs" using calculation(5) by simp
  ultimately show ?thesis by blast
qed

theorem directory_refines_entry_list_witness:
  "\<exists>fs1 q fs2. fat16_create_dir_entry [97, 46, 98, 0] 7 100 demo_fat16 = Some fs1
     \<and> new_entry (name_field 8 [97]) (name_field 3 [98]) 7 100 \<in> set (dir fs1)
     \<and> fat16_find_file no_entry [97, 46, 98, 0] demo_fat16 = Some (None, fs2)"
proof -
  have "x \<in> set xs \<Longrightarrow> free_entry x \<Longrightarrow> e \<in> set (dir_insert e xs)" for x e xs
    by (induction xs) auto
  then show ?thesis
    using directory_refines_entry_list [OF demo_volume demo_heap demo_name, of 7 100 no_entry] demo_dir_lookup by fastforce
qed


lemma demo_writes:
  "strcmp [97, 46, 98, 0] [47, 0] = Some False" "name_field 8 [97] ! 0 \<noteq> 0xE5"
  by (simp_all add: name_field_def upcase_def)


text \<open>C40: When the directory has no free slot the file is lost: writing reports success, but no entry is
  made, and the cluster stays marked as used.\<close>

theorem full_directory_loses_file:
  assumes "volume_ok fs" "scratch_ok fs" "fat16_format_name name = Some (n, e)" "free_cluster fs = Some c"
    and "\<not> (\<exists>x \<in> set (dir fs). free_entry x)" "unat len < 2 ^ 31"
    and "min (unat len) (512 * unat (sectors_per_cluster fs)) \<le> length data"
  shows "\<exists>fs1. fat16_write_file name data len fs = Some (True, fs1) \<and> dir fs1 = dir fs
    \<and> fat_entry fs c = 0 \<and> fat_entry fs1 c = 0xFFF8"
  using write_file_spec [OF assms(1-4,6,7)] dir_insert_full [OF assms(5)] free_cluster_Some(2,3) [OF assms(1,4)]
  by auto

definition demo_full :: fat16 where
  "demo_full = demo_fat16\<lparr>fs_disk := (fs_disk demo_fat16)\<lparr>platter :=
     (disk demo_fat16)(2050 := replicate 512 65)\<rparr>\<rparr>"

theorem full_directory_loses_file_witness:
  "\<exists>fs1. fat16_write_file [97, 46, 98, 0] [1, 2, 3] 3 demo_full = Some (True, fs1) \<and> dir fs1 = dir demo_full
    \<and> fat_entry fs1 2 = 0xFFF8"
proof -
  have v: "volume_ok demo_full" unfolding demo_full_def by (rule volume_ok_disk [OF demo_volume]) simp
  have s: "scratch_ok demo_full" using demo_heap(1) by (simp add: demo_full_def)
  have fe: "fat_entry demo_full 2 = 0"
    by (simp add: demo_full_def fat_entry_def fat_sector_def fat_offset_def le16_def)
  then have c: "free_cluster demo_full = Some 2"
    by (simp add: free_cluster_def upt_conv_Cons) (simp add: demo_full_def)
  have "root_sectors demo_full = [2050]" by (simp add: demo_full_def root_sectors_def)
  then have d: "dir demo_full = map (entry_at (replicate 512 65)) entry_offsets"
    by (simp add: dir_def dir_of_def demo_full_def)
  have "e_name (entry_at (replicate 512 65) j) ! 0 = 65" if "j \<in> set entry_offsets" for j
    using entry_offsets_fit [OF that] by (simp add: entry_at_def)
  then have f: "\<not> (\<exists>x \<in> set (dir demo_full). free_entry x)" unfolding d by (auto simp: free_entry_def)
  have "sectors_per_cluster demo_full = 1" by (simp add: demo_full_def)
  then show ?thesis using full_directory_loses_file [OF v s demo_name c f, of 3 "[1, 2, 3]"] by auto
qed

text \<open>A file larger than one cluster is cut: writing reports success and the entry records the whole
  size, but only the first cluster was written, and reading gives fewer bytes than the size.\<close>

theorem large_file_is_cut:
  assumes "volume_ok fs" "scratch_ok fs" "find_ok fs"
    and "fat16_format_name name = Some (n, e)" "strcmp name [47, 0] = Some False" "n ! 0 \<noteq> 0xE5"
    and "free_cluster fs = Some c" "\<exists>x \<in> set (dir fs). free_entry x" "dir_lookup n e (dir fs) = None"
    and "unat len < 2 ^ 31" "unat len \<le> length data" "512 * unat (sectors_per_cluster fs) < unat len"
    and "512 * unat (sectors_per_cluster fs) \<le> cap"
  shows "\<exists>fs1 q en fs2 out fs3. fat16_write_file name data len fs = Some (True, fs1)
    \<and> fat16_find_file stale name fs1 = Some (Some (q, en), fs2) \<and> e_file_size en = len
    \<and> fat16_read_file cap en fs2 = Some (of_nat (length out), out, fs3)
    \<and> out = take (512 * unat (sectors_per_cluster fs)) data \<and> length out < unat len"
proof -
  let ?n = "unat (sectors_per_cluster fs)"
  have data: "min (unat len) (512 * ?n) \<le> length data" using assms(11) by simp
  have "padded data len ?n = take (512 * ?n) data" "length (take (512 * ?n) data) = 512 * ?n"
    using assms(11,12) by (simp_all add: padded_def)
  with write_find_read [OF assms(1-10) data assms(13), of stale] assms(12) show ?thesis by metis
qed

theorem large_file_is_cut_witness:
  "\<exists>fs1 q en fs2 fs3. fat16_write_file [97, 46, 98, 0] (replicate 600 1) 600 demo_fat16 = Some (True, fs1)
    \<and> fat16_find_file no_entry [97, 46, 98, 0] fs1 = Some (Some (q, en), fs2) \<and> e_file_size en = 600
    \<and> fat16_read_file 1112 en fs2 = Some (512, replicate 512 1, fs3)"
  using large_file_is_cut [OF demo_volume demo_heap demo_name demo_writes demo_free demo_dir_lookup(2,1),
      of 600 "replicate 600 1" 1112 no_entry] by auto

end
