(* ===== verification/Syscall.thy ===== *)
theory Syscall
  imports Scheduler Fat16
begin

text \<open>
  The system calls, \<^verbatim>\<open>cpu/syscall.c\<close>: the handlers over the state of the whole kernel, in the
  order of the source. A handler takes the register frame of the caller and returns the one
  that the caller goes on with, its own or, after a switch, that of another process. User memory
  is reached through the loaded directory, so a bad pointer faults.
\<close>

section \<open>The state of the system\<close>

record os =
  os_kernel :: kernel
  os_disk :: ata
  os_bpb :: "u8 list"
  os_geometry :: fat16_geometry
  timer_ticks :: u32
  os_eflags :: u32

text \<open>What blocks of the heap hold before the code writes to them.\<close>

record stale =
  st_entry :: fat16_entry
  st_pcb :: pcb
  st_bytes :: "u8 list"

definition with_kernel :: "(kernel \<Rightarrow> ('a \<times> kernel) option) \<Rightarrow> os \<Rightarrow> ('a \<times> os) option" where
  "with_kernel f s = do { (x, k) \<leftarrow> f (os_kernel s); Some (x, s\<lparr>os_kernel := k\<rparr>) }"

definition on_kernel :: "(kernel \<Rightarrow> kernel option) \<Rightarrow> os \<Rightarrow> os option" where
  "on_kernel f s = do { k \<leftarrow> f (os_kernel s); Some (s\<lparr>os_kernel := k\<rparr>) }"

text \<open>The file system works on the same heap.\<close>

definition fs_of :: "os \<Rightarrow> fat16" where
  "fs_of s = \<lparr>fs_heap = wm_heap (k_wm (os_kernel s)), fs_disk = os_disk s, bpb = os_bpb s, geometry = os_geometry s\<rparr>"

definition put_fs :: "fat16 \<Rightarrow> os \<Rightarrow> os" where
  "put_fs f s = (let k = os_kernel s in
     s\<lparr>os_kernel := k\<lparr>k_wm := (k_wm k)\<lparr>wm_heap := fs_heap f\<rparr>\<rparr>, os_disk := fs_disk f, os_bpb := bpb f,
       os_geometry := geometry f\<rparr>)"

definition with_fs :: "(fat16 \<Rightarrow> ('a \<times> fat16) option) \<Rightarrow> os \<Rightarrow> ('a \<times> os) option" where
  "with_fs g s = do { (x, f) \<leftarrow> g (fs_of s); Some (x, put_fs f s) }"

definition on_fs :: "(fat16 \<Rightarrow> fat16 option) \<Rightarrow> os \<Rightarrow> os option" where
  "on_fs g s = do { f \<leftarrow> g (fs_of s); Some (put_fs f s) }"

text \<open>User memory: \<open>n\<close> bytes, a string with its end, a word, and the bytes up to the end of the
  mapped memory.\<close>

definition user_bytes :: "u32 \<Rightarrow> nat \<Rightarrow> os \<Rightarrow> u8 list option" where
  "user_bytes a n s = load_bytes (cr3 (os_kernel s)) a n (k_vm (os_kernel s))"

definition user_string :: "u32 \<Rightarrow> os \<Rightarrow> u8 list option" where
  "user_string a s = load_string (2 ^ 32) (cr3 (os_kernel s)) a (k_vm (os_kernel s))"

definition user_word :: "u32 \<Rightarrow> os \<Rightarrow> u32 option" where
  "user_word a s = load_word (cr3 (os_kernel s)) a (k_vm (os_kernel s))"

definition user_byte :: "u32 \<Rightarrow> os \<Rightarrow> u8 option" where
  "user_byte a s = load_byte (cr3 (os_kernel s)) a (k_vm (os_kernel s))"

definition user_store :: "u32 \<Rightarrow> u8 list \<Rightarrow> os \<Rightarrow> os option" where
  "user_store a bs s = on_kernel (\<lambda>k. on_vm (store_bytes (cr3 k) a bs) k) s"

definition running :: "os \<Rightarrow> pcb option" where
  "running s = current (os_kernel s)"

definition set_running :: "(pcb \<Rightarrow> pcb) \<Rightarrow> os \<Rightarrow> os option" where
  "set_running f = on_kernel (\<lambda>k. set_proc (current_process k) f k)"

section \<open>Descriptors and the terminal\<close>

definition get_fd :: "u32 \<Rightarrow> pcb \<Rightarrow> (nat \<times> file_descriptor) option" where
  "get_fd fd p = (if sint fd < 0 \<or> sint fd \<ge> int MAX_FDS then None else Some (nat (sint fd), p_fds p ! nat (sint fd)))"

definition set_fd :: "nat \<Rightarrow> file_descriptor \<Rightarrow> os \<Rightarrow> os option" where
  "set_fd i fd = set_running (\<lambda>p. p\<lparr>p_fds := (p_fds p)[i := fd]\<rparr>)"

definition print_colored :: "u8 \<Rightarrow> u8 \<Rightarrow> kernel \<Rightarrow> kernel option" where
  "print_colored c color k =
     do {
       (t, w) \<leftarrow> terminal_print_char_color (k_beyond k) c color (k_term k, k_wm k);
       Some (k\<lparr>k_term := t, k_wm := w\<rparr>)
     }"

definition k_clear_terminal :: "kernel \<Rightarrow> kernel option" where
  "k_clear_terminal k = do { (t, w) \<leftarrow> clear_terminal (k_term k, k_wm k); Some (k\<lparr>k_term := t, k_wm := w\<rparr>) }"

text \<open>\<^verbatim>\<open>stdin_write\<close> with its echo.\<close>

definition type_char :: "u8 \<Rightarrow> kernel \<Rightarrow> kernel option" where
  "type_char c k =
     do {
       (inp, shown) \<leftarrow> stdin_write c (k_stdin k);
       foldM (\<lambda>(c, color). print_colored c color) shown (k\<lparr>k_stdin := inp\<rparr>)
     }"

text \<open>
  \<^verbatim>\<open>parse_ansi_escape\<close>. \<open>mem\<close> is the memory from the buffer on: the number behind
  an escape is read even where the buffer has ended. Every step moves on by a byte at least, so
  \<open>len\<close> of them are enough.
\<close>

definition is_clear_screen :: "u8 list \<Rightarrow> bool" where
  "is_clear_screen buf \<longleftrightarrow> buf = [27, 91, 50, 74, 27, 91, 72]"

definition escape_color :: "int \<Rightarrow> u8 \<Rightarrow> u8 option" where
  "escape_color code color =
     (if 30 \<le> code \<and> code \<le> 50 then get ansi_to_terminal (nat (code - 30))
      else if code = 0 then Some WHITE else Some color)"

fun ansi_loop :: "nat \<Rightarrow> nat \<Rightarrow> u8 list \<Rightarrow> nat \<Rightarrow> u8 \<Rightarrow> kernel \<Rightarrow> kernel option" where
  "ansi_loop 0 len mem i color k = Some k"
| "ansi_loop (Suc n) len mem i color k =
     (if i < len then
        if i + 1 < len \<and> mem ! i = 27 \<and> mem ! (i + 1) = 91 then do {
          code \<leftarrow> stoi (drop (i + 2) mem);
          color \<leftarrow> escape_color code color;
          tmp \<leftarrow> itos (replicate 12 0) code;
          l \<leftarrow> strlen tmp;
          ansi_loop n len mem (i + l + 2 + 1) color k
        } else do {
          k \<leftarrow> print_colored (mem ! i) color k;
          ansi_loop n len mem (i + 1) color k
        }
      else Some k)"

definition parse_ansi_escape :: "u8 list \<Rightarrow> nat \<Rightarrow> kernel \<Rightarrow> kernel option" where
  "parse_ansi_escape mem len k =
     (if len = 7 \<and> is_clear_screen (take 7 mem) then k_clear_terminal k
      else ansi_loop len len mem 0 WHITE k)"

text \<open>The readable memory from an address on; the bytes of the buffer itself must be mapped.\<close>

fun mapped_bytes :: "nat \<Rightarrow> u32 \<Rightarrow> u32 \<Rightarrow> vm \<Rightarrow> u8 list" where
  "mapped_bytes 0 pd v s = []"
| "mapped_bytes (Suc n) pd v s =
     (case load_byte pd v s of None \<Rightarrow> [] | Some b \<Rightarrow> b # mapped_bytes n pd (v + 1) s)"

definition user_region :: "u32 \<Rightarrow> nat \<Rightarrow> os \<Rightarrow> u8 list option" where
  "user_region a n s =
     (let m = mapped_bytes (2 ^ 32) (cr3 (os_kernel s)) a (k_vm (os_kernel s))
      in if n \<le> length m then Some m else None)"

section \<open>Files\<close>

text \<open>\<^verbatim>\<open>min\<close> of two unsigned values, compared as \<^verbatim>\<open>int\<close>s.\<close>

definition u_min :: "u32 \<Rightarrow> u32 \<Rightarrow> u32" where
  "u_min a b = word_of_int (c_min (sint a) (sint b))"

definition fd_sector :: "u8 list \<Rightarrow> u32 \<Rightarrow> u32 \<Rightarrow> u8 list option" where
  "fd_sector buf to_write offset =
     (let remaining = (if to_write > offset then to_write - offset else 0) in
      if remaining > 0
      then memcpy (replicate SECTOR_SIZE 0) (drop (unat offset) buf) (unat (u_min remaining (of_nat SECTOR_SIZE)))
      else Some (replicate SECTOR_SIZE 0))"

definition write_fd_sectors :: "u8 list \<Rightarrow> u32 \<Rightarrow> u32 \<Rightarrow> fat16 \<Rightarrow> fat16 option" where
  "write_fd_sectors buf to_write lba fs =
     foldM (\<lambda>i fs. do {
         sector \<leftarrow> fd_sector buf to_write (of_nat i * of_nat SECTOR_SIZE);
         Some (fs_write (lba + of_nat i) sector fs)
       }) [0..<unat (sectors_per_cluster fs)] fs"

definition write_file :: "file_descriptor \<Rightarrow> u32 \<Rightarrow> u32 \<Rightarrow> registers \<Rightarrow> os \<Rightarrow> (registers \<times> os) option" where
  "write_file fd buf len regs s =
     (if \<not> fd_open fd then Some (regs\<lparr>r_eax := -1\<rparr>, s)
      else do {
        fat_fd \<leftarrow> fat_fds (os_kernel s) (fd_data fd);
        let to_write = u_min len (ff_size fat_fd);
        bytes \<leftarrow> user_bytes buf (unat to_write) s;
        data \<leftarrow> memcpy (ff_bytes fat_fd) bytes (unat to_write);
        let k = os_kernel s;
        let s = s\<lparr>os_kernel := k\<lparr>fat_fds := (fat_fds k)(fd_data fd \<mapsto> fat_fd\<lparr>ff_bytes := data\<rparr>)\<rparr>\<rparr>;
        (sector, s) \<leftarrow> with_fs (fs_alloc (of_nat SECTOR_SIZE)) s;
        s \<leftarrow> on_fs (\<lambda>fs. write_fd_sectors bytes to_write (cluster_lba fs (ff_start_cluster fat_fd)) fs) s;
        s \<leftarrow> on_fs (fs_release sector) s;
        Some (regs\<lparr>r_eax := to_write\<rparr>, s)
      })"

section \<open>Processes\<close>

definition switch :: "registers \<Rightarrow> os \<Rightarrow> (registers \<times> os) option" where
  "switch regs = with_kernel (update_scheduler regs)"

definition handle_syscall_exit :: "registers \<Rightarrow> os \<Rightarrow> (registers \<times> os) option" where
  "handle_syscall_exit regs s =
     do {
       p \<leftarrow> running s;
       (_, s) \<leftarrow> with_kernel (scheduler_remove (p_pid p)) s;
       switch regs s
     }"

definition fork_directory :: "u32 \<Rightarrow> vm \<Rightarrow> (u32 \<times> vm) option" where
  "fork_directory parent_pd m =
     do {
       (child_pd, m) \<leftarrow> alloc_frame m;
       let m = identity_map_in parent_pd child_pd m;
       let m = zero_entries child_pd m;
       m \<leftarrow> copy_page_directory child_pd parent_pd m;
       Some (child_pd, m)
     }"

definition handle_syscall_fork :: "pcb \<Rightarrow> registers \<Rightarrow> os \<Rightarrow> (registers \<times> os) option" where
  "handle_syscall_fork stale_pcb regs s =
     do {
       p \<leftarrow> running s;
       (child_pd, m) \<leftarrow> fork_directory (p_directory p) (k_vm (os_kernel s));
       let s = s\<lparr>os_kernel := (os_kernel s)\<lparr>k_vm := m\<rparr>\<rparr>;
       let child_regs = regs\<lparr>r_eax := 0\<rparr>;
       (child, s) \<leftarrow> with_kernel (create_process_control_block stale_pcb child_pd child_regs (p_pid p)) s;
       let s = s\<lparr>os_kernel := scheduler_enqueue child (os_kernel s)\<rparr>;
       Some (regs\<lparr>r_eax := p_pid child\<rparr>, s)
     }"

text \<open>The argument is put on top of the new stack, with its address below it.\<close>

definition push_argument :: "u8 list \<Rightarrow> registers \<Rightarrow> os \<Rightarrow> (registers \<times> os) option" where
  "push_argument arg_buf regs s =
     do {
       c \<leftarrow> get arg_buf 0;
       if c = 0 then Some (regs, s)
       else do {
         l \<leftarrow> strlen arg_buf;
         let arg_len = of_nat l + 1;
         let str_addr = r_useresp regs - arg_len;
         s \<leftarrow> user_store str_addr (take (unat arg_len) arg_buf) s;
         let stack_top = str_addr - 4;
         s \<leftarrow> user_store stack_top (word_bytes str_addr) s;
         Some (regs\<lparr>r_useresp := stack_top, r_esp := stack_top\<rparr>, s)
       }
     }"

text \<open>The file as it is in the buffer: what was read, and behind it what the block held.\<close>

definition program_bytes :: "u32 \<Rightarrow> u8 list \<Rightarrow> u8 list \<Rightarrow> u8 list" where
  "program_bytes sz out old = take (unat sz) (out @ old @ replicate (unat sz) 0)"

definition exec_image :: "fat16_entry \<Rightarrow> u8 list \<Rightarrow> registers \<Rightarrow> os \<Rightarrow> (registers \<times> os) option" where
  "exec_image entry fn_bytes regs s =
     do {
       p \<leftarrow> running s;
       s \<leftarrow> on_kernel (on_vm (clear_page_directory (p_directory p))) s;
       with_kernel (\<lambda>k. do {
           (regs, m) \<leftarrow> update_page_directory (os_eflags s) (p_directory p) fn_bytes regs (k_vm k);
           Some (regs, k\<lparr>k_vm := m\<rparr>) }) s
     }"

definition handle_syscall_exec :: "stale \<Rightarrow> registers \<Rightarrow> os \<Rightarrow> (registers \<times> os) option" where
  "handle_syscall_exec old regs s =
     do {
       file_name \<leftarrow> user_string (r_ecx regs) s;
       name_buf \<leftarrow> strcpy (replicate 64 0) file_name;
       arg \<leftarrow> if r_edx regs = 0 then Some [0] else user_string (r_edx regs) s;
       arg_buf \<leftarrow> strcpy (replicate 256 0) arg;
       (found, s) \<leftarrow> with_fs (fat16_find_file (st_entry old) file_name) s;
       case found of
         None \<Rightarrow> Some (regs\<lparr>r_eax := -1\<rparr>, s)
       | Some (entry_ptr, entry) \<Rightarrow> do {
           let cluster_size = ucast (sectors_per_cluster (fs_of s)) * 512;
           num_clusters \<leftarrow> if cluster_size = 0 then None
             else Some (word_of_int (c_ceil (sint (e_file_size entry)) (sint cluster_size)));
           let bytes = num_clusters * cluster_size + cluster_size;
           (data, s) \<leftarrow> with_kernel (k_kmalloc bytes) s;
           ((_, out), s) \<leftarrow> with_fs (\<lambda>f. do {
               (n, out, f) \<leftarrow> fat16_read_file (if data = 0 then 0 else unat bytes) entry f;
               Some ((n, out), f) }) s;
           (regs, s) \<leftarrow> exec_image entry (program_bytes (e_file_size entry) out (st_bytes old)) regs s;
           (regs, s) \<leftarrow> push_argument arg_buf regs s;
           s \<leftarrow> on_kernel (k_kfree entry_ptr) s;
           s \<leftarrow> on_kernel (k_kfree data) s;
           Some (regs, s)
         }
     }"

definition handle_syscall_kill :: "registers \<Rightarrow> os \<Rightarrow> (registers \<times> os) option" where
  "handle_syscall_kill regs s =
     do {
       (removed, s) \<leftarrow> with_kernel (scheduler_remove (r_ebx regs)) s;
       Some (regs\<lparr>r_eax := (if removed then 0 else -1)\<rparr>, s)
     }"

definition go_waiting :: "pcb \<Rightarrow> pcb" where
  "go_waiting p = p\<lparr>p_status := (if p_status p = ZOMBIE then ZOMBIE else WAITING)\<rparr>"

definition handle_syscall_wait :: "registers \<Rightarrow> os \<Rightarrow> (registers \<times> os) option" where
  "handle_syscall_wait regs s =
     do {
       let pid = r_ebx regs;
       let s = s\<lparr>os_kernel := (os_kernel s)\<lparr>foreground_pid := pid\<rparr>\<rparr>;
       s \<leftarrow> set_running (\<lambda>p. go_waiting (p\<lparr>p_waiting_pid := pid\<rparr>)) s;
       switch regs s
     }"

definition status_code :: "process_status \<Rightarrow> u32" where
  "status_code st = (case st of RUNNING \<Rightarrow> 0 | READY \<Rightarrow> 1 | WAITING \<Rightarrow> 2 | ZOMBIE \<Rightarrow> 3)"

definition ps_bytes :: "pcb \<Rightarrow> u8 list" where
  "ps_bytes p = word_bytes (p_pid p) @ word_bytes (p_parent_pid p) @ word_bytes (status_code (p_status p))"

definition handle_syscall_ps :: "registers \<Rightarrow> os \<Rightarrow> (registers \<times> os) option" where
  "handle_syscall_ps regs s =
     do {
       let listed = take (nat (sint (r_ecx regs))) (procs (os_kernel s));
       s \<leftarrow> user_store (r_ebx regs) (concat (map ps_bytes listed)) s;
       Some (regs\<lparr>r_eax := of_nat (length listed)\<rparr>, s)
     }"

definition handle_syscall_sleep :: "registers \<Rightarrow> os \<Rightarrow> (registers \<times> os) option" where
  "handle_syscall_sleep regs s =
     do {
       waits \<leftarrow> if r_ebx regs = 0 then Some False else do { p \<leftarrow> running s; Some (p_pid p \<noteq> 1) };
       if \<not> waits then Some (regs, s)
       else do {
         s \<leftarrow> set_running (\<lambda>p. go_waiting (p\<lparr>p_sleep_ticks := r_ebx regs\<rparr>)) s;
         switch regs s
       }
     }"

definition handle_syscall_uptime :: "registers \<Rightarrow> os \<Rightarrow> (registers \<times> os) option" where
  "handle_syscall_uptime regs s = Some (regs\<lparr>r_eax := timer_ticks s\<rparr>, s)"

section \<open>Reading and writing\<close>

definition read_stdin :: "registers \<Rightarrow> os \<Rightarrow> (registers \<times> os) option" where
  "read_stdin regs s =
     (let len = r_edx regs; inp = k_stdin (os_kernel s) in
      if word_of_int (s_count inp) < len
      then with_kernel (stdin_block_process regs (sint len)) s
      else do {
        (inp, out) \<leftarrow> stdin_read (sint len) inp;
        let s = s\<lparr>os_kernel := (os_kernel s)\<lparr>k_stdin := inp\<rparr>\<rparr>;
        s \<leftarrow> user_store (r_ecx regs) out s;
        Some (regs\<lparr>r_eax := of_nat (length out)\<rparr>, s)
      })"

text \<open>Copying from the file's buffer faults behind its end.\<close>

definition read_fd :: "nat \<Rightarrow> file_descriptor \<Rightarrow> registers \<Rightarrow> os \<Rightarrow> (registers \<times> os) option" where
  "read_fd i fd regs s =
     (if \<not> fd_open fd then Some (regs\<lparr>r_eax := -1\<rparr>, s)
      else do {
        fat_fd \<leftarrow> fat_fds (os_kernel s) (fd_data fd);
        if ff_size fat_fd \<le> fd_offset fd then Some (regs\<lparr>r_eax := 0\<rparr>, s)
        else do {
          let n = u_min (r_edx regs) (ff_size fat_fd - fd_offset fd);
          bytes \<leftarrow> memcpy (replicate (unat n) 0) (drop (unat (fd_offset fd)) (ff_bytes fat_fd)) (unat n);
          s \<leftarrow> user_store (r_ecx regs) bytes s;
          s \<leftarrow> set_fd i (fd\<lparr>fd_offset := fd_offset fd + n\<rparr>) s;
          Some (regs\<lparr>r_eax := n\<rparr>, s)
        }
      })"

definition handle_syscall_read :: "registers \<Rightarrow> os \<Rightarrow> (registers \<times> os) option" where
  "handle_syscall_read regs s =
     do {
       p \<leftarrow> running s;
       case get_fd (r_ebx regs) p of
         None \<Rightarrow> Some (regs\<lparr>r_eax := -1\<rparr>, s)
       | Some (i, fd) \<Rightarrow>
           (case fd_type fd of
              FD_STDIN \<Rightarrow> read_stdin regs s
            | FD_FILE \<Rightarrow> read_fd i fd regs s
            | _ \<Rightarrow> Some (regs\<lparr>r_eax := -1\<rparr>, s))
     }"

definition write_stdin :: "registers \<Rightarrow> os \<Rightarrow> (registers \<times> os) option" where
  "write_stdin regs s =
     do {
       bytes \<leftarrow> user_bytes (r_ecx regs) (unat (r_edx regs)) s;
       s \<leftarrow> on_kernel (foldM type_char bytes) s;
       Some (regs\<lparr>r_eax := r_edx regs\<rparr>, s)
     }"

definition write_stdout :: "registers \<Rightarrow> os \<Rightarrow> (registers \<times> os) option" where
  "write_stdout regs s =
     do {
       mem \<leftarrow> user_region (r_ecx regs) (unat (r_edx regs)) s;
       s \<leftarrow> on_kernel (parse_ansi_escape mem (unat (r_edx regs))) s;
       let k = os_kernel s;
       let t = k_term k;
       let t = t\<lparr>cursor_floor := of_nat TERMINAL_COLS * cursor_row t + cursor_column t\<rparr>;
       Some (regs\<lparr>r_eax := r_edx regs\<rparr>, s\<lparr>os_kernel := k\<lparr>k_term := t\<rparr>\<rparr>)
     }"

definition handle_syscall_write :: "registers \<Rightarrow> os \<Rightarrow> (registers \<times> os) option" where
  "handle_syscall_write regs s =
     do {
       p \<leftarrow> running s;
       case get_fd (r_ebx regs) p of
         None \<Rightarrow> Some (regs\<lparr>r_eax := -1\<rparr>, s)
       | Some (i, fd) \<Rightarrow>
           (case fd_type fd of
              FD_STDIN \<Rightarrow> write_stdin regs s
            | FD_STDOUT \<Rightarrow> write_stdout regs s
            | FD_FILE \<Rightarrow> write_file fd (r_ecx regs) (r_edx regs) regs s
            | _ \<Rightarrow> Some (regs\<lparr>r_eax := -1\<rparr>, s))
     }"

text \<open>The contents of a file or folder for a new descriptor: the object, with its buffer.\<close>

definition open_folder :: "fat16_entry \<Rightarrow> os \<Rightarrow> (fat16_fd \<times> os) option" where
  "open_folder entry s =
     do {
       let bytes = ucast (sectors_per_cluster (fs_of s)) * of_nat SECTOR_SIZE;
       (data, s) \<leftarrow> with_kernel (k_kmalloc bytes) s;
       ((n, out), s) \<leftarrow> with_fs (\<lambda>f. do {
           (n, out, f) \<leftarrow> fat16_read_folder (if data = 0 then 0 else unat bytes) entry f;
           Some ((n, out), f) }) s;
       Some (\<lparr>ff_data = data, ff_bytes = out, ff_size = n, ff_attributes = e_attributes entry,
         ff_start_cluster = e_start_cluster entry\<rparr>, s)
     }"

definition open_regular :: "fat16_entry \<Rightarrow> os \<Rightarrow> (fat16_fd \<times> os) option" where
  "open_regular entry s =
     do {
       let bytes = e_file_size entry + ucast (sectors_per_cluster (fs_of s)) * of_nat SECTOR_SIZE;
       (data, s) \<leftarrow> with_kernel (k_kmalloc bytes) s;
       ((n, out), s) \<leftarrow> with_fs (\<lambda>f. do {
           (n, out, f) \<leftarrow> fat16_read_file (if data = 0 then 0 else unat bytes) entry f;
           Some ((n, out), f) }) s;
       Some (\<lparr>ff_data = data, ff_bytes = out, ff_size = n, ff_attributes = e_attributes entry,
         ff_start_cluster = e_start_cluster entry\<rparr>, s)
     }"

definition free_fd :: "pcb \<Rightarrow> nat option" where
  "free_fd p = find (\<lambda>i. \<not> fd_open (p_fds p ! i)) [2..<MAX_FDS]"

definition sizeof_fat16_fd :: u32 where "sizeof_fat16_fd = 12"

definition handle_syscall_open :: "stale \<Rightarrow> registers \<Rightarrow> os \<Rightarrow> (registers \<times> os) option" where
  "handle_syscall_open old regs s =
     (if r_ebx regs = 0 then Some (regs\<lparr>r_eax := -1\<rparr>, s)
      else do {
        file_name \<leftarrow> user_string (r_ebx regs) s;
        (found, s) \<leftarrow> with_fs (fat16_find_file (st_entry old) file_name) s;
        case found of
          None \<Rightarrow> Some (regs\<lparr>r_eax := -1\<rparr>, s)
        | Some (entry_ptr, entry) \<Rightarrow> do {
            (fd_ptr, s) \<leftarrow> with_kernel (k_kmalloc sizeof_fat16_fd) s;
            (fat_fd, s) \<leftarrow> if fd_ptr = 0 then None
              else if e_attributes entry AND 0x10 \<noteq> 0 then open_folder entry s else open_regular entry s;
            let s = s\<lparr>os_kernel := (os_kernel s)\<lparr>fat_fds := (fat_fds (os_kernel s))(fd_ptr \<mapsto> fat_fd)\<rparr>\<rparr>;
            p \<leftarrow> running s;
            case free_fd p of
              Some i \<Rightarrow> do {
                s \<leftarrow> set_fd i \<lparr>fd_type = FD_FILE, fd_data = fd_ptr, fd_offset = 0, fd_open = True\<rparr> s;
                s \<leftarrow> on_kernel (k_kfree entry_ptr) s;
                Some (regs\<lparr>r_eax := of_nat i\<rparr>, s)
              }
            | None \<Rightarrow> do {
                s \<leftarrow> on_kernel (k_kfree (ff_data fat_fd)) s;
                s \<leftarrow> on_kernel (k_kfree fd_ptr) s;
                s \<leftarrow> on_kernel (k_kfree entry_ptr) s;
                Some (regs\<lparr>r_eax := -1\<rparr>, s)
              }
          }
      })"

definition handle_syscall_close :: "registers \<Rightarrow> os \<Rightarrow> (registers \<times> os) option" where
  "handle_syscall_close regs s =
     do {
       p \<leftarrow> running s;
       case get_fd (r_ebx regs) p of
         None \<Rightarrow> Some (regs\<lparr>r_eax := -1\<rparr>, s)
       | Some (i, fd) \<Rightarrow>
           if \<not> fd_open fd then Some (regs\<lparr>r_eax := -1\<rparr>, s)
           else do {
             fat_fd \<leftarrow> fat_fds (os_kernel s) (fd_data fd);
             s \<leftarrow> on_kernel (k_kfree (ff_data fat_fd)) s;
             s \<leftarrow> on_kernel (k_kfree (fd_data fd)) s;
             s \<leftarrow> set_fd i (fd\<lparr>fd_data := 0, fd_open := False\<rparr>) s;
             Some (regs\<lparr>r_eax := 0\<rparr>, s)
           }
     }"

text \<open>\<^verbatim>\<open>fat16_write_file\<close> reads the data one sector after the other, at most a cluster.\<close>

definition handle_syscall_create :: "registers \<Rightarrow> os \<Rightarrow> (registers \<times> os) option" where
  "handle_syscall_create regs s =
     do {
       name \<leftarrow> user_string (r_ebx regs) s;
       let data = mapped_bytes (512 * unat (sectors_per_cluster (fs_of s))) (cr3 (os_kernel s)) (r_ecx regs) (k_vm (os_kernel s));
       (done, s) \<leftarrow> with_fs (fat16_write_file name data (r_edx regs)) s;
       Some (regs\<lparr>r_eax := (if done then 0 else -1)\<rparr>, s)
     }"

definition handle_syscall_poll :: "registers \<Rightarrow> os \<Rightarrow> (registers \<times> os) option" where
  "handle_syscall_poll regs s =
     Some (regs\<lparr>r_eax := (if r_ebx regs = 0 \<and> s_count (k_stdin (os_kernel s)) > 0 then 1 else 0)\<rparr>, s)"

section \<open>Windows\<close>

definition handle_syscall_create_window :: "registers \<Rightarrow> os \<Rightarrow> (registers \<times> os) option" where
  "handle_syscall_create_window regs s =
     do {
       let params = r_ebx regs;
       x \<leftarrow> user_word params s;
       y \<leftarrow> user_word (params + 4) s;
       width \<leftarrow> user_word (params + 8) s;
       height \<leftarrow> user_word (params + 12) s;
       t \<leftarrow> user_string (params + 16) s;
       p \<leftarrow> running s;
       (win, s) \<leftarrow> with_kernel (\<lambda>k. do {
           (win, w) \<leftarrow> wm_create_window (sint x) (sint y) width height t (p_pid p) (k_wm k);
           Some (win, k\<lparr>k_wm := w\<rparr>) }) s;
       Some (regs\<lparr>r_eax := window_id win\<rparr>, s)
     }"

text \<open>The common frame of the drawing calls: the window of the id, or the error.\<close>

definition in_window :: "u32 \<Rightarrow> (window \<Rightarrow> window option) \<Rightarrow> registers \<Rightarrow> os \<Rightarrow> (registers \<times> os) option" where
  "in_window wid draw regs s =
     (let w = k_wm (os_kernel s) in
      case get_window wid w of
        None \<Rightarrow> Some (regs\<lparr>r_eax := -1\<rparr>, s)
      | Some win \<Rightarrow> do {
          ws \<leftarrow> update_first (\<lambda>w. window_id w = wid) draw (windows w);
          Some (regs, s\<lparr>os_kernel := (os_kernel s)\<lparr>k_wm := w\<lparr>windows := ws\<rparr>\<rparr>\<rparr>)
        })"

definition handle_syscall_draw_rect :: "registers \<Rightarrow> os \<Rightarrow> (registers \<times> os) option" where
  "handle_syscall_draw_rect regs s =
     do {
       let rect = r_ebx regs;
       wid \<leftarrow> user_word rect s;
       in_window wid (\<lambda>w. do {
           x \<leftarrow> user_word (rect + 4) s;
           y \<leftarrow> user_word (rect + 8) s;
           width \<leftarrow> user_word (rect + 12) s;
           height \<leftarrow> user_word (rect + 16) s;
           color \<leftarrow> user_byte (rect + 20) s;
           window_draw_rect (sint x) (sint y) (sint width) (sint height) color w }) regs s
     }"

definition handle_syscall_draw_line :: "registers \<Rightarrow> os \<Rightarrow> (registers \<times> os) option" where
  "handle_syscall_draw_line regs s =
     do {
       let line = r_ebx regs;
       wid \<leftarrow> user_word line s;
       in_window wid (\<lambda>w. do {
           x0 \<leftarrow> user_word (line + 4) s;
           y0 \<leftarrow> user_word (line + 8) s;
           x1 \<leftarrow> user_word (line + 12) s;
           y1 \<leftarrow> user_word (line + 16) s;
           color \<leftarrow> user_byte (line + 20) s;
           window_draw_line (sint x0) (sint y0) (sint x1) (sint y1) color w }) regs s
     }"

definition handle_syscall_draw_text :: "registers \<Rightarrow> os \<Rightarrow> (registers \<times> os) option" where
  "handle_syscall_draw_text regs s =
     do {
       let txt = r_ebx regs;
       wid \<leftarrow> user_word txt s;
       in_window wid (\<lambda>w. do {
           x \<leftarrow> user_word (txt + 4) s;
           y \<leftarrow> user_word (txt + 8) s;
           str \<leftarrow> user_word (txt + 12) s;
           color \<leftarrow> user_byte (txt + 16) s;
           chars \<leftarrow> user_string str s;
           window_draw_string (sint x) (sint y) chars color 0 w }) regs s
     }"

definition event_code :: "event_type \<Rightarrow> u32" where
  "event_code t = (case t of EVENT_KEYPRESS \<Rightarrow> 0 | EVENT_KEYRELEASE \<Rightarrow> 1 | EVENT_MOUSE_CLICK \<Rightarrow> 2 | EVENT_MOUSE_MOVE \<Rightarrow> 3)"

text \<open>The fields of an \<^verbatim>\<open>event_t\<close> in user memory; the padding between them is left out.\<close>

definition store_event :: "u32 \<Rightarrow> event \<Rightarrow> os \<Rightarrow> os option" where
  "store_event a e s =
     do {
       s \<leftarrow> user_store a (word_bytes (event_code (ev_type e))) s;
       s \<leftarrow> user_store (a + 4) [keyboard_scancode e] s;
       s \<leftarrow> user_store (a + 8) (word_bytes (word_of_int (ev_mouse_x e))) s;
       s \<leftarrow> user_store (a + 12) (word_bytes (word_of_int (ev_mouse_y e))) s;
       user_store (a + 16) [ev_mouse_button e, ev_c e] s
     }"

definition handle_syscall_get_event :: "registers \<Rightarrow> os \<Rightarrow> (registers \<times> os) option" where
  "handle_syscall_get_event regs s =
     (let w = k_wm (os_kernel s) in
      case get_window (r_ebx regs) w of
        None \<Rightarrow> Some (regs\<lparr>r_eax := -1\<rparr>, s)
      | Some win \<Rightarrow>
          if event_queue_is_empty (w_events win) then Some (regs\<lparr>r_eax := 0\<rparr>, s)
          else do {
            (q, e) \<leftarrow> event_queue_pop (w_events win) zero_event;
            ws \<leftarrow> update_first (\<lambda>w. window_id w = r_ebx regs) (\<lambda>w. Some (w\<lparr>w_events := q\<rparr>)) (windows w);
            s \<leftarrow> store_event (r_ecx regs) e (s\<lparr>os_kernel := (os_kernel s)\<lparr>k_wm := w\<lparr>windows := ws\<rparr>\<rparr>\<rparr>);
            Some (regs\<lparr>r_eax := 1\<rparr>, s)
          })"

definition set_wm_dirty :: "os \<Rightarrow> os" where
  "set_wm_dirty s = (let k = os_kernel s in s\<lparr>os_kernel := k\<lparr>k_wm := (k_wm k)\<lparr>wm_dirty := True\<rparr>\<rparr>\<rparr>)"

definition handle_syscall_destroy_window :: "registers \<Rightarrow> os \<Rightarrow> (registers \<times> os) option" where
  "handle_syscall_destroy_window regs s =
     do {
       s \<leftarrow> on_kernel (\<lambda>k. do { w \<leftarrow> remove_window (r_ebx regs) (k_wm k); Some (k\<lparr>k_wm := w\<rparr>) }) s;
       Some (regs, set_wm_dirty s)
     }"

definition handle_syscall_flush :: "registers \<Rightarrow> os \<Rightarrow> (registers \<times> os) option" where
  "handle_syscall_flush regs s = Some (regs, set_wm_dirty s)"

section \<open>Identity and memory\<close>

definition handle_syscall_getpid :: "registers \<Rightarrow> os \<Rightarrow> (registers \<times> os) option" where
  "handle_syscall_getpid regs s = do { p \<leftarrow> running s; Some (regs\<lparr>r_eax := p_pid p\<rparr>, s) }"

definition handle_syscall_getppid :: "registers \<Rightarrow> os \<Rightarrow> (registers \<times> os) option" where
  "handle_syscall_getppid regs s = do { p \<leftarrow> running s; Some (regs\<lparr>r_eax := p_parent_pid p\<rparr>, s) }"

text \<open>The pages are numbered by 20 bits, which bounds the loop; \<^verbatim>\<open>sbrk_loop\<close> is in
  \<^verbatim>\<open>PageTable\<close>.\<close>

definition handle_syscall_sbrk :: "registers \<Rightarrow> os \<Rightarrow> (registers \<times> os) option" where
  "handle_syscall_sbrk regs s =
     do {
       let offset = r_ebx regs;
       s \<leftarrow> set_running (\<lambda>p. if p_heap_break p = 0 then p\<lparr>p_heap_break := USER_HEAP_VADDR\<rparr> else p) s;
       p \<leftarrow> running s;
       let old_break = p_heap_break p;
       if offset = 0 then Some (regs\<lparr>r_eax := old_break\<rparr>, s)
       else do {
         let new_break = old_break + offset;
         let page = (old_break + of_nat PAGE_SIZE - 1) AND NOT (of_nat PAGE_SIZE - 1);
         s \<leftarrow> on_kernel (on_vm (sbrk_loop (p_directory p) (2 ^ 20) page new_break)) s;
         s \<leftarrow> set_running (\<lambda>p. p\<lparr>p_heap_break := new_break\<rparr>) s;
         Some (regs\<lparr>r_eax := old_break\<rparr>, s)
       }
     }"

section \<open>Dispatch\<close>

definition syscall_handler_main :: "stale \<Rightarrow> registers \<Rightarrow> os \<Rightarrow> (registers \<times> os) option" where
  "syscall_handler_main old regs s =
     (let n = r_eax regs in
      if n = 1 then handle_syscall_exit regs s
      else if n = 2 then handle_syscall_fork (st_pcb old) regs s
      else if n = 3 then handle_syscall_read regs s
      else if n = 4 then handle_syscall_write regs s
      else if n = 5 then handle_syscall_open old regs s
      else if n = 6 then handle_syscall_close regs s
      else if n = 11 then handle_syscall_exec old regs s
      else if n = 7 then handle_syscall_ps regs s
      else if n = 12 then handle_syscall_kill regs s
      else if n = 13 then handle_syscall_wait regs s
      else if n = 14 then handle_syscall_create regs s
      else if n = 15 then handle_syscall_poll regs s
      else if n = 16 then handle_syscall_sleep regs s
      else if n = 17 then handle_syscall_uptime regs s
      else if n = 18 then handle_syscall_create_window regs s
      else if n = 19 then handle_syscall_draw_rect regs s
      else if n = 20 then handle_syscall_draw_line regs s
      else if n = 21 then handle_syscall_draw_text regs s
      else if n = 22 then handle_syscall_get_event regs s
      else if n = 23 then handle_syscall_destroy_window regs s
      else if n = 24 then handle_syscall_flush regs s
      else if n = 25 then handle_syscall_getpid regs s
      else if n = 26 then handle_syscall_getppid regs s
      else if n = 27 then handle_syscall_sbrk regs s
      else Some (regs\<lparr>r_eax := -1\<rparr>, s))"

end
