(* ===== verification/SyscallLaws.thy ===== *)
theory SyscallLaws
  imports Syscall
begin

text \<open>
  What every system call keeps: the consistency of the list of processes, and the typing of the
  descriptor tables, under which a descriptor of an open file leads to a file object; and what the
  calls on files and processes do.
\<close>

section \<open>The typing of the descriptor tables\<close>

definition fd_typed :: "(u32 \<rightharpoonup> fat16_fd) \<Rightarrow> file_descriptor \<Rightarrow> bool" where
  "fd_typed fat fd \<longleftrightarrow> (fd_open fd \<and> fd_type fd = FD_FILE \<longrightarrow> fat (fd_data fd) \<noteq> None)"

definition fds_typed :: "kernel \<Rightarrow> bool" where
  "fds_typed k \<longleftrightarrow> (\<forall>p \<in> set (procs k). length (p_fds p) = MAX_FDS \<and> (\<forall>fd \<in> set (p_fds p). fd_typed (fat_fds k) fd))"

lemma initial_fds_typed: "length initial_fds = MAX_FDS" "fd \<in> set initial_fds \<Longrightarrow> fd_typed fat fd"
proof -
  show l: "length initial_fds = MAX_FDS" by (simp add: initial_fds_def Let_def)
  have "fd_typed fat (initial_fds ! i)" if "i < MAX_FDS" for i
    using that by (cases "i = 0"; cases "i = 1")
      (simp_all add: initial_fds_def Let_def nth_list_update fd_typed_def closed_fd_def MAX_FDS_def)
  then show "fd \<in> set initial_fds \<Longrightarrow> fd_typed fat fd" using l by (auto simp: in_set_conv_nth)
qed

text \<open>The tables after an operation are among those before it.\<close>

definition fds_kept :: "kernel \<Rightarrow> kernel \<Rightarrow> bool" where
  "fds_kept k k' \<longleftrightarrow> fat_fds k' = fat_fds k \<and> p_fds ` set (procs k') \<subseteq> p_fds ` set (procs k)"

lemma fds_kept_refl [simp]: "fds_kept k k"
  by (simp add: fds_kept_def)

lemma fds_kept_trans: "fds_kept k k' \<Longrightarrow> fds_kept k' k'' \<Longrightarrow> fds_kept k k''"
  unfolding fds_kept_def by (elim conjE, intro conjI, simp, erule (1) subset_trans)

lemma fds_kept_typed: "fds_kept k k' \<Longrightarrow> fds_typed k \<Longrightarrow> fds_typed k'"
proof -
  assume k: "fds_kept k k'" and t: "fds_typed k"
  have "length (p_fds p) = MAX_FDS \<and> (\<forall>fd \<in> set (p_fds p). fd_typed (fat_fds k') fd)" if "p \<in> set (procs k')" for p
  proof -
    have "p_fds p \<in> p_fds ` set (procs k)" using k that by (auto simp: fds_kept_def)
    then obtain q where "q \<in> set (procs k)" "p_fds p = p_fds q" by (rule imageE)
    then show ?thesis using t k by (simp add: fds_kept_def fds_typed_def)
  qed
  then show "fds_typed k'" by (simp add: fds_typed_def)
qed

lemma roster_fds: "same_roster k k' \<Longrightarrow> fds_kept k k'"
proof -
  assume r: "same_roster k k'"
  have "p_fds ` set (procs k) = (\<lambda>x. snd (snd x)) ` set (roster k)" for k by (simp add: roster_def image_image)
  then show ?thesis using r by (simp add: fds_kept_def same_roster_def)
qed

lemma advance_procs: "advance k = Some k' \<Longrightarrow> \<exists>a. k' = k\<lparr>current_process := a\<rparr>"
  by (auto simp: advance_def split: bind_splits)

lemma skip_waiting_procs: "skip_waiting n k = Some k' \<Longrightarrow> \<exists>a. k' = k\<lparr>current_process := a\<rparr>"
proof (induction n k arbitrary: k' rule: skip_waiting.induct)
  case (1 k)
  then show ?case by (intro exI [of _ "current_process k"]) simp
next
  case (2 n k)
  then obtain p where p: "current k = Some p" by (auto split: bind_splits)
  show ?case
  proof (cases "p_status p = WAITING")
    case True
    then obtain k1 where k1: "advance k = Some k1" "skip_waiting n k1 = Some k'" using 2(2) p by (auto split: bind_splits)
    then show ?thesis using advance_procs [OF k1(1)] 2(1) [OF p True k1] by force
  next
    case False
    then show ?thesis using 2(2) p by (intro exI [of _ "current_process k"]) simp
  qed
qed

lemma next_process_fds: "next_process k = Some k' \<Longrightarrow> fds_kept k k'"
proof -
  assume "next_process k = Some k'"
  then obtain k1 where "advance k = Some k1" "skip_waiting (unat (process_queue_size k)) k1 = Some k'"
    by (auto simp: next_process_def Let_def split: bind_splits if_splits)
  then obtain a where "k' = k\<lparr>current_process := a\<rparr>" using advance_procs skip_waiting_procs by fastforce
  then show "fds_kept k k'" by (simp add: fds_kept_def)
qed

lemma set_drop_first: "set (drop_first P xs) \<subseteq> set xs"
  by (induction xs) auto

lemma remove_fds:
  assumes "scheduler_remove pid k = Some (b, k')"
  shows "fds_kept k k'"
proof (cases "pid = 1 \<or> pid = 2")
  case True
  then show ?thesis using assms by (simp add: scheduler_remove_def)
next
  case False
  obtain c where c: "current k = Some c" using assms False by (auto simp: scheduler_remove_def split: bind_splits)
  show ?thesis
  proof (cases "pid = p_pid c")
    case True
    then have "same_roster k k'"
      using assms False c by (auto simp: scheduler_remove_def split: bind_splits intro: set_proc_roster)
    then show ?thesis by (rule roster_fds)
  next
    case ne: False
    obtain k1 where k1: "reparent_children pid k = Some k1"
      using assms False c ne by (auto simp: scheduler_remove_def split: bind_splits)
    note r1 = roster_fds [OF reparent_roster [OF k1]]
    show ?thesis
    proof (cases "find (\<lambda>p. p_pid p = pid) (procs k1)")
      case None
      then show ?thesis using assms False c ne k1 r1 by (simp add: scheduler_remove_def)
    next
      case (Some p)
      let ?k2 = "k1\<lparr>procs := drop_first (\<lambda>p. p_pid p = pid) (procs k1), process_queue_size := process_queue_size k1 - 1\<rparr>"
      obtain k3 k4 k5 where k: "on_vm (clear_page_directory (p_directory p)) ?k2 = Some k3"
          "foldM close_file (p_fds p) k3 = Some k4"
          "k_kfree (p_kernel_stack p - of_nat PAGE_SIZE) k4 = Some k5" "k_kfree (p_addr p) k5 = Some k'"
        using assms False c ne k1 Some by (auto simp: scheduler_remove_def Let_def split: bind_splits)
      have "same_roster ?k2 k3" "same_roster k3 k4" "same_roster k4 k5" "same_roster k5 k'"
        by (rule on_vm_roster [OF k(1)], rule foldM_roster [OF k(2) close_file_roster], assumption,
            rule k_kfree_roster [OF k(3)], rule k_kfree_roster [OF k(4)])
      then have "fds_kept ?k2 k'" by (intro roster_fds) (simp add: same_roster_def)
      moreover have "fds_kept k1 ?k2" by (simp add: fds_kept_def image_mono set_drop_first)
      ultimately show ?thesis using r1 fds_kept_trans by blast
    qed
  qed
qed

lemma update_scheduler_fds:
  assumes "update_scheduler regs k = Some (r, k')"
  shows "fds_kept k k'"
proof (cases "enable_scheduler k")
  case False
  then show ?thesis using assms by (simp add: update_scheduler_def)
next
  case True
  obtain woke k0 where k0: "decrement_wait_process k = (woke, k0)" by (cases "decrement_wait_process k")
  define k1 where "k1 = k0\<lparr>quantum_counter := quantum_counter k0 + 1\<rparr>"
  have r1: "fds_kept k k1"
    using tick_roster [OF k0] by (intro roster_fds) (simp add: k1_def same_roster_def roster_def)
  have u: "do { c \<leftarrow> current k1; if stays woke c k1 then Some (regs, k1)
      else do { k \<leftarrow> leave_process c regs k1; enter_process k } } = Some (r, k')"
    using assms True unfolding update_scheduler_def k0 k1_def Let_def by simp
  then obtain c where c: "current k1 = Some c" by (auto split: bind_splits)
  show ?thesis
  proof (cases "stays woke c k1")
    case True
    then show ?thesis using u c r1 by simp
  next
    case False
    then obtain k2 where k2: "leave_process c regs k1 = Some k2" "enter_process k2 = Some (r, k')"
      using u c by (auto split: bind_splits)
    have "fds_kept k1 k2"
    proof (cases "p_status c = ZOMBIE")
      case True
      then obtain ka kb b where "scheduler_wake (p_pid c) k1 = Some ka" "next_process ka = Some kb"
          "scheduler_remove (p_pid c) kb = Some (b, k2)"
        using k2(1) by (auto simp: leave_process_def split: bind_splits)
      then show ?thesis using wake_roster roster_fds next_process_fds remove_fds fds_kept_trans by meson
    next
      case False
      then obtain ka where ka: "set_proc (current_process k1) (\<lambda>p. p\<lparr>p_registers := regs\<rparr>) k1 = Some ka"
          "next_process ka = Some k2"
        using k2(1) by (auto simp: leave_process_def split: bind_splits)
      have "same_roster k1 ka" by (rule set_proc_roster [OF ka(1)]) simp
      then show ?thesis using roster_fds next_process_fds [OF ka(2)] fds_kept_trans by blast
    qed
    then show ?thesis using r1 roster_fds [OF enter_process_roster [OF k2(2)]] fds_kept_trans by blast
  qed
qed

lemma block_fds:
  assumes "stdin_block_process regs len k = Some (r, k')"
  shows "fds_kept k k'"
proof -
  obtain k1 where k1: "set_proc (current_process k)
      (\<lambda>p. p\<lparr>p_status := (if p_status p = ZOMBIE then ZOMBIE else WAITING)\<rparr>) k = Some k1"
      "update_scheduler regs (k1\<lparr>k_stdin := (k_stdin k1)\<lparr>wait_process := current_process k1, requested_len := len\<rparr>\<rparr>)
        = Some (r, k')"
    using assms by (auto simp: stdin_block_process_def split: bind_splits)
  have "same_roster k k1" by (rule set_proc_roster [OF k1(1)]) simp
  then have "fds_kept k (k1\<lparr>k_stdin := (k_stdin k1)\<lparr>wait_process := current_process k1, requested_len := len\<rparr>\<rparr>)"
    using roster_fds by (simp add: fds_kept_def)
  then show ?thesis using update_scheduler_fds [OF k1(2)] fds_kept_trans by blast
qed

section \<open>What every call keeps\<close>

definition sound :: "os \<Rightarrow> os \<Rightarrow> bool" where
  "sound s s' \<longleftrightarrow> (sched_ok (os_kernel s) \<longrightarrow> sched_ok (os_kernel s'))
     \<and> (fds_typed (os_kernel s) \<longrightarrow> fds_typed (os_kernel s'))"

definition quiet :: "os \<Rightarrow> os \<Rightarrow> bool" where
  "quiet s s' \<longleftrightarrow> same_roster (os_kernel s) (os_kernel s')"

lemma sound_refl [simp]: "sound s s"
  by (simp add: sound_def)

lemma sound_trans [trans]: "sound s s' \<Longrightarrow> sound s' s'' \<Longrightarrow> sound s s''"
  by (simp add: sound_def)

lemma quiet_refl [simp]: "quiet s s"
  by (simp add: quiet_def)

lemma quiet_trans [trans]: "quiet s s' \<Longrightarrow> quiet s' s'' \<Longrightarrow> quiet s s''"
  unfolding quiet_def by (rule same_roster_trans)

lemma quiet_sound: "quiet s s' \<Longrightarrow> sound s s'"
  unfolding quiet_def sound_def using same_roster_ok fds_kept_typed [OF roster_fds] by blast

lemma with_kernel_parts: "with_kernel f s = Some (x, s') \<Longrightarrow> f (os_kernel s) = Some (x, os_kernel s')"
  by (auto simp: with_kernel_def split: bind_splits)

lemma on_kernel_parts: "on_kernel f s = Some s' \<Longrightarrow> f (os_kernel s) = Some (os_kernel s')"
  by (auto simp: on_kernel_def split: bind_splits)

lemma put_fs_quiet: "quiet s (put_fs f s)"
  by (simp add: quiet_def put_fs_def Let_def same_roster_def roster_def)

lemma with_fs_quiet: "with_fs g s = Some (x, s') \<Longrightarrow> quiet s s'"
  by (auto simp: with_fs_def put_fs_quiet split: bind_splits)

lemma on_fs_quiet: "on_fs g s = Some s' \<Longrightarrow> quiet s s'"
  by (auto simp: on_fs_def put_fs_quiet split: bind_splits)

lemma user_store_quiet: "user_store a bs s = Some s' \<Longrightarrow> quiet s s'"
  unfolding user_store_def quiet_def by (drule on_kernel_parts) (rule on_vm_roster)

lemma kfree_quiet: "on_kernel (k_kfree p) s = Some s' \<Longrightarrow> quiet s s'"
  unfolding quiet_def by (drule on_kernel_parts) (rule k_kfree_roster)

lemma k_kmalloc_roster: "k_kmalloc n k = Some (p, k') \<Longrightarrow> same_roster k k'"
  by (auto simp: k_kmalloc_def same_roster_def roster_def split: bind_splits)

lemma kmalloc_quiet: "with_kernel (k_kmalloc n) s = Some (p, s') \<Longrightarrow> quiet s s'"
  unfolding quiet_def by (drule with_kernel_parts) (rule k_kmalloc_roster)

lemma on_vm_quiet: "on_kernel (on_vm f) s = Some s' \<Longrightarrow> quiet s s'"
  unfolding quiet_def by (drule on_kernel_parts) (rule on_vm_roster)

lemma set_running_quiet:
  "set_running f s = Some s' \<Longrightarrow> (\<And>p. p_addr (f p) = p_addr p \<and> p_pid (f p) = p_pid p \<and> p_fds (f p) = p_fds p) \<Longrightarrow> quiet s s'"
  unfolding set_running_def quiet_def by (drule on_kernel_parts) (rule set_proc_roster)

lemma switch_sound: "switch regs s = Some (r, s') \<Longrightarrow> sound s s'"
  unfolding switch_def sound_def
  by (drule with_kernel_parts) (use update_scheduler_ok fds_kept_typed [OF update_scheduler_fds] in blast)

lemma remove_sound: "with_kernel (scheduler_remove pid) s = Some (b, s') \<Longrightarrow> sound s s'"
  unfolding sound_def by (drule with_kernel_parts) (use remove_ok fds_kept_typed [OF remove_fds] in blast)

lemma block_sound: "with_kernel (stdin_block_process regs len) s = Some (r, s') \<Longrightarrow> sound s s'"
  unfolding sound_def by (drule with_kernel_parts) (use stdin_block_ok fds_kept_typed [OF block_fds] in blast)

lemma print_quiet: "print_colored c color k = Some k' \<Longrightarrow> same_roster k k'"
  by (auto simp: print_colored_def same_roster_def roster_def split: bind_splits)

lemma type_char_quiet: "type_char c k = Some k' \<Longrightarrow> same_roster k k'"
proof -
  assume "type_char c k = Some k'"
  then obtain inp shown where "foldM (\<lambda>(c, color). print_colored c color) shown (k\<lparr>k_stdin := inp\<rparr>) = Some k'"
    by (auto simp: type_char_def split: bind_splits)
  then have "same_roster (k\<lparr>k_stdin := inp\<rparr>) k'" by (rule foldM_roster) (auto intro: print_quiet)
  then show ?thesis by (simp add: same_roster_def roster_def)
qed

lemma ansi_loop_quiet: "ansi_loop n len mem i color k = Some k' \<Longrightarrow> same_roster k k'"
proof (induction n arbitrary: i color k)
  case (Suc n)
  show ?case
  proof (cases "i < len")
    case True
    show ?thesis
    proof (cases "i + 1 < len \<and> mem ! i = 27 \<and> mem ! (i + 1) = 91")
      case True
      then show ?thesis using Suc \<open>i < len\<close> by (auto split: bind_splits)
    next
      case False
      then obtain k1 where "print_colored (mem ! i) color k = Some k1" "ansi_loop n len mem (i + 1) color k1 = Some k'"
        using Suc.prems \<open>i < len\<close> by (auto split: bind_splits)
      then show ?thesis using Suc.IH print_quiet same_roster_trans by blast
    qed
  next
    case False
    then show ?thesis using Suc.prems by simp
  qed
qed simp

lemma parse_quiet: "parse_ansi_escape mem len k = Some k' \<Longrightarrow> same_roster k k'"
  by (auto simp: parse_ansi_escape_def k_clear_terminal_def same_roster_def roster_def
      split: if_splits bind_splits dest!: ansi_loop_quiet)

text \<open>
  The steps a handler is made of, as rules that go back from the state after the step to the
  one before it.
\<close>

lemma after_quiet: "quiet s1 s2 \<Longrightarrow> sound s s1 \<Longrightarrow> sound s s2"
  by (rule sound_trans [OF _ quiet_sound])

lemma after_switch: "switch regs s1 = Some (r, s2) \<Longrightarrow> sound s s1 \<Longrightarrow> sound s s2"
  by (rule sound_trans [OF _ switch_sound])

lemmas quiet_after = with_fs_quiet [THEN after_quiet] on_fs_quiet [THEN after_quiet]
  user_store_quiet [THEN after_quiet] kfree_quiet [THEN after_quiet] kmalloc_quiet [THEN after_quiet]
  on_vm_quiet [THEN after_quiet] set_running_quiet [THEN after_quiet] after_switch

text \<open>Fields that neither the list of processes nor the typing depends on.\<close>

lemma sound_fields [simp]:
  "sound s (s1\<lparr>os_kernel := (os_kernel s1)\<lparr>k_wm := w\<rparr>\<rparr>) \<longleftrightarrow> sound s s1"
  "sound s (s1\<lparr>os_kernel := (os_kernel s1)\<lparr>k_term := t\<rparr>\<rparr>) \<longleftrightarrow> sound s s1"
  "sound s (s1\<lparr>os_kernel := (os_kernel s1)\<lparr>k_vm := m\<rparr>\<rparr>) \<longleftrightarrow> sound s s1"
  "sound s (s1\<lparr>os_kernel := (os_kernel s1)\<lparr>k_stdin := b\<rparr>\<rparr>) \<longleftrightarrow> sound s s1"
  "sound s (s1\<lparr>os_kernel := (os_kernel s1)\<lparr>foreground_pid := a\<rparr>\<rparr>) \<longleftrightarrow> sound s s1"
  by (simp_all add: sound_def sched_ok_def fds_typed_def)

lemma exit_sound: "handle_syscall_exit regs s = Some (r, s') \<Longrightarrow> sound s s'"
  unfolding handle_syscall_exit_def
  by (auto split: bind_splits intro: sound_trans [OF remove_sound switch_sound])

lemma kill_sound: "handle_syscall_kill regs s = Some (r, s') \<Longrightarrow> sound s s'"
  unfolding handle_syscall_kill_def by (auto split: bind_splits intro: remove_sound)

lemma wait_sound: "handle_syscall_wait regs s = Some (r, s') \<Longrightarrow> sound s s'"
  unfolding handle_syscall_wait_def Let_def
  by (auto split: bind_splits) (erule quiet_after | simp add: go_waiting_def)+

lemma sleep_sound: "handle_syscall_sleep regs s = Some (r, s') \<Longrightarrow> sound s s'"
  unfolding handle_syscall_sleep_def
  by (auto split: bind_splits if_splits) (erule quiet_after | simp add: go_waiting_def)+

lemma ps_sound: "handle_syscall_ps regs s = Some (r, s') \<Longrightarrow> sound s s'"
  unfolding handle_syscall_ps_def Let_def by (auto split: bind_splits) (erule quiet_after | simp)+

lemma uptime_sound: "handle_syscall_uptime regs s = Some (r, s') \<Longrightarrow> sound s s'"
  by (auto simp: handle_syscall_uptime_def)

lemma create_sound: "handle_syscall_create regs s = Some (r, s') \<Longrightarrow> sound s s'"
  unfolding handle_syscall_create_def Let_def by (auto split: bind_splits) (erule quiet_after | simp)+

lemma sbrk_sound: "handle_syscall_sbrk regs s = Some (r, s') \<Longrightarrow> sound s s'"
  unfolding handle_syscall_sbrk_def Let_def by (auto split: bind_splits if_splits) (erule quiet_after | simp)+

lemma poll_sound: "handle_syscall_poll regs s = Some (r, s') \<Longrightarrow> sound s s'"
  by (auto simp: handle_syscall_poll_def)

text \<open>Calls that change a descriptor, and those on windows and the terminal.\<close>

lemma quiet_sym_fds: "quiet s s1 \<Longrightarrow> fat_fds (os_kernel s1) = fat_fds (os_kernel s)"
  by (simp add: quiet_def same_roster_def)

lemma set_fd_sound:
  assumes "set_fd i fd s = Some s'" "fd_typed (fat_fds (os_kernel s)) fd"
  shows "sound s s'"
proof -
  let ?f = "\<lambda>p. p\<lparr>p_fds := (p_fds p)[i := fd]\<rparr>" and ?k = "os_kernel s"
  have k': "os_kernel s' = ?k\<lparr>procs := map (\<lambda>p. if p_addr p = current_process ?k then ?f p else p) (procs ?k)\<rparr>"
    using on_kernel_parts [OF assms(1) [unfolded set_fd_def set_running_def]]
    by (auto simp: set_proc_def split: if_splits)
  have a: "map p_addr (procs (os_kernel s')) = map p_addr (procs ?k)" by (simp add: k')
  have "sched_ok ?k \<Longrightarrow> sched_ok (os_kernel s')"
    using a unfolding sched_ok_def by (metis (no_types, lifting) k' kernel.select_convs(8,11) kernel.surjective
      kernel.update_convs(7) length_map list.set_map)
  moreover have "fds_typed (os_kernel s')" if t: "fds_typed ?k"
  proof -
    have "length (p_fds (?f p)) = MAX_FDS \<and> (\<forall>x \<in> set (p_fds (?f p)). fd_typed (fat_fds ?k) x)" if "p \<in> set (procs ?k)" for p
      using t that assms(2) set_update_subset_insert [of "p_fds p" i fd] unfolding fds_typed_def by auto
    then show ?thesis using t unfolding fds_typed_def k' by (auto split: if_splits)
  qed
  ultimately show ?thesis by (simp add: sound_def)
qed

lemma type_chars_quiet: "on_kernel (foldM type_char bytes) s = Some s' \<Longrightarrow> quiet s s'"
  unfolding quiet_def by (drule on_kernel_parts, erule foldM_roster) (rule type_char_quiet)

lemma parse_escapes_quiet: "on_kernel (parse_ansi_escape mem n) s = Some s' \<Longrightarrow> quiet s s'"
  unfolding quiet_def by (drule on_kernel_parts) (rule parse_quiet)

lemma read_stdin_sound: "read_stdin regs s = Some (r, s') \<Longrightarrow> sound s s'"
  unfolding read_stdin_def Let_def
  by (auto split: bind_splits if_splits intro: block_sound) (erule quiet_after | simp)+

lemma read_fd_sound: "read_fd i fd regs s = Some (r, s') \<Longrightarrow> sound s s'"
proof (cases "fd_open fd \<and> (\<exists>f. fat_fds (os_kernel s) (fd_data fd) = Some f \<and> fd_offset fd < ff_size f)")
  case True
  assume "read_fd i fd regs s = Some (r, s')"
  with True obtain bytes n s1 where st: "user_store (r_ecx regs) bytes s = Some s1"
      "set_fd i (fd\<lparr>fd_offset := fd_offset fd + n\<rparr>) s1 = Some s'"
    by (auto simp: read_fd_def Let_def linorder_not_less [symmetric] split: bind_splits if_splits)
  have "fd_typed (fat_fds (os_kernel s1)) (fd\<lparr>fd_offset := fd_offset fd + n\<rparr>)"
    using True quiet_sym_fds [OF user_store_quiet [OF st(1)]] by (auto simp: fd_typed_def)
  then show ?thesis
    using sound_trans [OF quiet_sound [OF user_store_quiet [OF st(1)]] set_fd_sound [OF st(2)]] by blast
next
  case False
  assume "read_fd i fd regs s = Some (r, s')"
  with False show ?thesis by (auto simp: read_fd_def Let_def linorder_not_less split: bind_splits if_splits)
qed

lemma read_sound: "handle_syscall_read regs s = Some (r, s') \<Longrightarrow> sound s s'"
  unfolding handle_syscall_read_def
  by (auto split: bind_splits option.splits fd_type.splits intro: read_stdin_sound read_fd_sound)

lemma write_stdin_sound: "write_stdin regs s = Some (r, s') \<Longrightarrow> sound s s'"
  unfolding write_stdin_def
  by (auto split: bind_splits) (erule quiet_after type_chars_quiet [THEN after_quiet] | simp)+

lemma write_stdout_sound: "write_stdout regs s = Some (r, s') \<Longrightarrow> sound s s'"
  unfolding write_stdout_def Let_def
  by (auto split: bind_splits) (erule parse_escapes_quiet [THEN after_quiet], simp)

lemma write_file_sound: "write_file fd buf len regs s = Some (r, s') \<Longrightarrow> sound s s'"
  unfolding write_file_def Let_def
  apply (auto split: bind_splits if_splits)
  apply (erule quiet_after)+
  apply (auto simp: sound_def sched_ok_def fds_typed_def fd_typed_def)
  done

lemma write_sound: "handle_syscall_write regs s = Some (r, s') \<Longrightarrow> sound s s'"
  unfolding handle_syscall_write_def
  by (auto split: bind_splits option.splits fd_type.splits
      intro: write_stdin_sound write_stdout_sound write_file_sound)

lemma close_sound: "handle_syscall_close regs s = Some (r, s') \<Longrightarrow> sound s s'"
  unfolding handle_syscall_close_def
  apply (auto split: bind_splits option.splits if_splits)
  apply (erule set_fd_sound [THEN sound_trans [rotated]])
   apply (simp add: fd_typed_def)
  apply (erule quiet_after | simp)+
  done

lemma in_window_sound: "in_window wid draw regs s = Some (r, s') \<Longrightarrow> sound s s'"
  unfolding in_window_def Let_def by (auto split: bind_splits option.splits)

lemma set_wm_dirty_sound [simp]: "sound s (set_wm_dirty s1) \<longleftrightarrow> sound s s1"
  by (simp add: set_wm_dirty_def Let_def)

lemma create_window_sound: "handle_syscall_create_window regs s = Some (r, s') \<Longrightarrow> sound s s'"
  unfolding handle_syscall_create_window_def Let_def
  by (auto simp: with_kernel_def split: bind_splits)

lemma draw_sound:
  "handle_syscall_draw_rect regs s = Some (r, s') \<Longrightarrow> sound s s'"
  "handle_syscall_draw_line regs s = Some (r, s') \<Longrightarrow> sound s s'"
  "handle_syscall_draw_text regs s = Some (r, s') \<Longrightarrow> sound s s'"
  unfolding handle_syscall_draw_rect_def handle_syscall_draw_line_def handle_syscall_draw_text_def Let_def
  by (auto split: bind_splits intro: in_window_sound)

lemma get_event_sound: "handle_syscall_get_event regs s = Some (r, s') \<Longrightarrow> sound s s'"
  unfolding handle_syscall_get_event_def store_event_def Let_def
  by (auto split: bind_splits option.splits if_splits) (erule quiet_after | simp)+

lemma destroy_sound: "handle_syscall_destroy_window regs s = Some (r, s') \<Longrightarrow> sound s s'"
  unfolding handle_syscall_destroy_window_def
  by (auto simp: on_kernel_def split: bind_splits)

lemma open_contents_sound:
  "open_folder entry s = Some (f, s') \<Longrightarrow> sound s s'"
  "open_regular entry s = Some (f, s') \<Longrightarrow> sound s s'"
  unfolding open_folder_def open_regular_def Let_def
  by (auto split: bind_splits) (erule quiet_after | simp)+

lemma new_file_sound:
  "sound s (s1\<lparr>os_kernel := (os_kernel s1)\<lparr>fat_fds := (fat_fds (os_kernel s1))(a \<mapsto> f)\<rparr>\<rparr>)" if "sound s s1"
  using that by (auto simp: sound_def sched_ok_def fds_typed_def fd_typed_def)

lemmas contents_after = open_contents_sound [THEN sound_trans [rotated]]

lemma after_open_fd:
  "set_fd i fd s1 = Some s2 \<Longrightarrow> fd_typed (fat_fds (os_kernel s1)) fd \<Longrightarrow> sound s s1 \<Longrightarrow> sound s s2"
  using set_fd_sound sound_trans by blast

lemma open_sound: "handle_syscall_open old regs s = Some (r, s') \<Longrightarrow> sound s s'"
  unfolding handle_syscall_open_def Let_def
  by (auto split: bind_splits option.splits if_splits)
    (erule quiet_after contents_after after_open_fd | rule new_file_sound | simp add: fd_typed_def)+

lemma exec_image_sound: "exec_image entry bytes regs s = Some (r, s') \<Longrightarrow> sound s s'"
  unfolding exec_image_def
  by (auto simp: with_kernel_def split: bind_splits) (erule quiet_after | simp)+

lemma push_argument_sound: "push_argument arg regs s = Some (r, s') \<Longrightarrow> sound s s'"
  unfolding push_argument_def Let_def
  by (auto split: bind_splits if_splits) (erule quiet_after | simp)+

lemmas image_after = exec_image_sound [THEN sound_trans [rotated]] push_argument_sound [THEN sound_trans [rotated]]

lemma exec_sound: "handle_syscall_exec old regs s = Some (r, s') \<Longrightarrow> sound s s'"
  unfolding handle_syscall_exec_def Let_def
  by (auto split: bind_splits option.splits if_splits) (erule quiet_after image_after | simp)+

text \<open>A new process: the block must not be that of a process already there.\<close>

definition block_fresh :: "os \<Rightarrow> bool" where
  "block_fresh s \<longleftrightarrow> length (procs (os_kernel s)) < 2 ^ 31
     \<and> (\<forall>a h. kmalloc sizeof_pcb (wm_heap (k_wm (os_kernel s))) = Some (a, h) \<longrightarrow> a \<notin> p_addr ` set (procs (os_kernel s)))"

lemma create_pcb_parts:
  assumes "create_process_control_block st pd regs parent k = Some (p, k')"
  shows "same_roster k k'" "p_addr p \<noteq> 0" "p_fds p = initial_fds" "p_pid p = pid_static k"
    "p_parent_pid p = parent" "p_registers p = regs" "p_directory p = pd" "p_heap_break p = 0" "p_status p = READY"
    "\<exists>h. kmalloc sizeof_pcb (wm_heap (k_wm k)) = Some (p_addr p, h)" "k_vm k' = k_vm k" "cr3 k' = cr3 k"
  using assms
  by (auto simp: create_process_control_block_def k_kmalloc_def same_roster_def roster_def Let_def
      split: bind_splits if_splits)

lemma fork_parts:
  assumes "handle_syscall_fork st regs s = Some (r, s')"
  obtains p pd m child k where "running s = Some p" "fork_directory (p_directory p) (k_vm (os_kernel s)) = Some (pd, m)"
    "create_process_control_block st pd (regs\<lparr>r_eax := 0\<rparr>) (p_pid p) ((os_kernel s)\<lparr>k_vm := m\<rparr>) = Some (child, k)"
    "s' = s\<lparr>os_kernel := scheduler_enqueue child k\<rparr>" "r = regs\<lparr>r_eax := p_pid child\<rparr>"
proof -
  obtain p pd m child k where "running s = Some p" "fork_directory (p_directory p) (k_vm (os_kernel s)) = Some (pd, m)"
    "create_process_control_block st pd (regs\<lparr>r_eax := 0\<rparr>) (p_pid p) ((os_kernel s)\<lparr>k_vm := m\<rparr>) = Some (child, k)"
    "Some (regs\<lparr>r_eax := p_pid child\<rparr>, s\<lparr>os_kernel := scheduler_enqueue child k\<rparr>) = Some (r, s')"
    using assms by (auto simp: handle_syscall_fork_def with_kernel_def Let_def split: bind_splits)
  then show thesis by (intro that [of p pd m child k]) auto
qed

lemma fork_sound:
  assumes "handle_syscall_fork st regs s = Some (r, s')" "block_fresh s"
  shows "sound s s'"
proof -
  from assms(1) obtain p :: pcb and pd m child k where
    f: "create_process_control_block st pd (regs\<lparr>r_eax := 0\<rparr>) (p_pid p) ((os_kernel s)\<lparr>k_vm := m\<rparr>) = Some (child, k)"
    "s' = s\<lparr>os_kernel := scheduler_enqueue child k\<rparr>"
    by (elim fork_parts)
  note c = create_pcb_parts [OF f(1)]
  have r: "same_roster (os_kernel s) k" using c(1) by (simp add: same_roster_def roster_def)
  then have a: "map p_addr (procs k) = map p_addr (procs (os_kernel s))"
    by (simp add: same_roster_def roster_addrs)
  then have "length (procs k) = length (procs (os_kernel s))" "p_addr ` set (procs k) = p_addr ` set (procs (os_kernel s))"
    by (metis length_map, metis list.set_map)
  then have new: "p_addr child \<notin> p_addr ` set (procs k)" "length (procs k) < 2 ^ 31"
    using c(10) assms(2) by (auto simp: block_fresh_def)
  have "sched_ok (os_kernel s) \<Longrightarrow> sched_ok (os_kernel s')"
    using same_roster_ok [OF r] enqueue_ok [OF _ new(1) c(2) new(2)] by (simp add: f(2))
  moreover have "fds_typed (os_kernel s')" if "fds_typed (os_kernel s)"
    using fds_kept_typed [OF roster_fds [OF r] that] initial_fds_typed c(3)
    by (auto simp: f(2) fds_typed_def scheduler_enqueue_def)
  ultimately show ?thesis by (simp add: sound_def)
qed

lemma syscall_sound:
  assumes "syscall_handler_main old regs s = Some (r, s')" "block_fresh s"
  shows "sound s s'"
proof -
  note handled = exit_sound read_sound write_sound open_sound close_sound exec_sound ps_sound kill_sound wait_sound
    create_sound poll_sound sleep_sound uptime_sound create_window_sound draw_sound get_event_sound destroy_sound
    sbrk_sound fork_sound [OF _ assms(2)]
  have id: "handle_syscall_flush regs s = Some (r, s') \<Longrightarrow> sound s s'"
    "handle_syscall_getpid regs s = Some (r, s') \<Longrightarrow> sound s s'"
    "handle_syscall_getppid regs s = Some (r, s') \<Longrightarrow> sound s s'"
    by (auto simp: handle_syscall_flush_def handle_syscall_getpid_def handle_syscall_getppid_def split: bind_splits)
  show ?thesis
    using assms(1) unfolding syscall_handler_main_def Let_def
    by (simp only: split: if_splits) (erule handled id | simp)+
qed

section \<open>Reading a file\<close>

lemma set_running_at:
  assumes "current (os_kernel s) = Some p" "\<And>q. p_addr (f q) = p_addr q"
  obtains s' where "set_running f s = Some s'" "current (os_kernel s') = Some (f p)"
    "os_kernel s' = (os_kernel s)\<lparr>procs := procs (os_kernel s')\<rparr>" "s' = s\<lparr>os_kernel := os_kernel s'\<rparr>"
proof -
  let ?k = "os_kernel s"
  let ?k' = "?k\<lparr>procs := map (\<lambda>p. if p_addr p = current_process ?k then f p else p) (procs ?k)\<rparr>"
  have a: "p_addr p = current_process ?k"
    using assms(1) by (auto simp: current_def proc_at_def find_Some_iff)
  have "set_running f s = Some (s\<lparr>os_kernel := ?k'\<rparr>)"
    using assms(1) by (simp add: set_running_def on_kernel_def set_proc_def current_def)
  moreover have "current ?k' = Some (f p)"
    using assms a unfolding current_def proc_at_def by (simp add: find_map_keep)
  ultimately show thesis by (intro that [of "s\<lparr>os_kernel := ?k'\<rparr>"]) simp_all
qed

text \<open>What is still to be read through a descriptor.\<close>

definition fd_rest :: "os \<Rightarrow> file_descriptor \<Rightarrow> u8 list" where
  "fd_rest s fd = (case fat_fds (os_kernel s) (fd_data fd) of
     None \<Rightarrow> [] | Some f \<Rightarrow> drop (unat (fd_offset fd)) (take (unat (ff_size f)) (ff_bytes f)))"

text \<open>A file descriptor whose object has its whole contents in memory.\<close>

definition readable :: "os \<Rightarrow> file_descriptor \<Rightarrow> bool" where
  "readable s fd \<longleftrightarrow> fd_open fd \<and> fd_type fd = FD_FILE \<and> (\<exists>f. fat_fds (os_kernel s) (fd_data fd) = Some f
     \<and> unat (ff_size f) \<le> length (ff_bytes f) \<and> unat (ff_size f) < 2 ^ 31 \<and> fd_offset fd \<le> ff_size f)"

lemma unat_u_min:
  assumes "unat a < 2 ^ 31" "unat b < 2 ^ 31"
  shows "unat (u_min a b) = min (unat a) (unat b)"
proof -
  have "u_min a b = word_of_int (int (min (unat a) (unat b)))"
    using assms by (simp only: u_min_def c_min_eq sint_small of_nat_min)
  then show ?thesis using assms by (simp add: unat_u32_of min_def del: of_nat_min)
qed

lemma running_fd:
  assumes "running s = Some p" "get_fd n p = Some (i, fd)"
  shows "i < MAX_FDS" "fd = p_fds p ! i"
  using assms by (auto simp: get_fd_def split: if_splits)

lemma get_fd_update:
  assumes "get_fd n p = Some (i, fd)" "length (p_fds p) = MAX_FDS"
  shows "get_fd n (p\<lparr>p_fds := (p_fds p)[i := fd']\<rparr>) = Some (i, fd')"
  using assms by (auto simp: get_fd_def split: if_splits)

lemma read_file_step:
  assumes "running s = Some p" "get_fd (r_ebx regs) p = Some (i, fd)" "length (p_fds p) = MAX_FDS" "readable s fd"
    and "unat (r_edx regs) < 2 ^ 31"
    and "user_store (r_ecx regs) (take (unat (r_edx regs)) (fd_rest s fd)) s = Some s1" "running s1 = Some p"
  obtains s2 fd' where "handle_syscall_read regs s = Some (regs\<lparr>r_eax := of_nat (min (unat (r_edx regs)) (length (fd_rest s fd)))\<rparr>, s2)"
    "running s2 = Some (p\<lparr>p_fds := (p_fds p)[i := fd']\<rparr>)" "readable s2 fd'"
    "fd_rest s2 fd' = drop (unat (r_edx regs)) (fd_rest s fd)" "k_vm (os_kernel s2) = k_vm (os_kernel s1)"
proof -
  obtain f where f: "fat_fds (os_kernel s) (fd_data fd) = Some f" "unat (ff_size f) \<le> length (ff_bytes f)"
      "unat (ff_size f) < 2 ^ 31" "fd_offset fd \<le> ff_size f" "fd_open fd" "fd_type fd = FD_FILE"
    using assms(4) by (auto simp: readable_def)
  define n off sz where "n = unat (r_edx regs)" and "off = unat (fd_offset fd)" and "sz = unat (ff_size f)"
  have o: "off \<le> sz" using f(4) by (simp add: off_def sz_def word_le_nat_alt)
  have d: "unat (ff_size f - fd_offset fd) = sz - off" using f(4) by (simp add: unat_minus32 off_def sz_def)
  let ?m = "u_min (r_edx regs) (ff_size f - fd_offset fd)"
  have m: "unat ?m = min n (sz - off)"
    using assms(5) f(3) d by (simp add: unat_u_min n_def sz_def)
  have rest: "fd_rest s fd = take (sz - off) (drop off (ff_bytes f))"
    by (simp add: fd_rest_def f(1) off_def sz_def drop_take)
  have len: "length (fd_rest s fd) = sz - off" using f(2) by (simp add: rest sz_def)
  have fs: "fat_fds (os_kernel s1) = fat_fds (os_kernel s)"
    by (rule quiet_sym_fds [OF user_store_quiet [OF assms(6)]])
  show thesis
  proof (cases "off = sz")
    case True
    then have "fd_rest s fd = []" using len by simp
    moreover from this have "s1 = s" using assms(6)
      by (cases s) (simp add: user_store_def on_kernel_def on_vm_def)
    moreover have "ff_size f \<le> fd_offset fd" using True by (simp add: off_def sz_def word_le_nat_alt)
    moreover have "p\<lparr>p_fds := (p_fds p)[i := fd]\<rparr> = p"
      using running_fd [OF assms(1,2)] by simp
    ultimately show thesis using assms(1,2,4) f
      by (intro that [of s fd]) (simp_all add: handle_syscall_read_def read_fd_def)
  next
    case False
    let ?fd = "fd\<lparr>fd_offset := fd_offset fd + ?m\<rparr>"
    obtain s2 where s2: "set_running (\<lambda>p. p\<lparr>p_fds := (p_fds p)[i := ?fd]\<rparr>) s1 = Some s2"
        "current (os_kernel s2) = Some (p\<lparr>p_fds := (p_fds p)[i := ?fd]\<rparr>)"
        "os_kernel s2 = (os_kernel s1)\<lparr>procs := procs (os_kernel s2)\<rparr>"
      by (rule set_running_at [of s1 p "\<lambda>p. p\<lparr>p_fds := (p_fds p)[i := ?fd]\<rparr>"])
        (use assms(7) in \<open>simp_all add: running_def\<close>)
    have copy: "memcpy (replicate (unat ?m) 0) (drop off (ff_bytes f)) (unat ?m) = Some (take n (fd_rest s fd))"
      using diff_le_mono [OF f(2), of off] by (auto simp: memcpy_copies m rest sz_def min_def)
    have "\<not> ff_size f \<le> fd_offset fd" using False o by (simp add: off_def sz_def word_le_nat_alt)
    then have h: "handle_syscall_read regs s = Some (regs\<lparr>r_eax := ?m\<rparr>, s2)"
      using assms(1,2,6) f(1,5,6) copy s2(1)
      by (simp add: handle_syscall_read_def read_fd_def Let_def off_def n_def set_fd_def)
    have "of_nat (unat ?m) = ?m" by simp
    then have eax: "?m = of_nat (min n (length (fd_rest s fd)))" unfolding m len by (rule sym)
    have off': "unat (fd_offset fd + ?m) = off + min n (sz - off)"
      using m f(3) o by (subst unat_plus32) (simp_all add: off_def sz_def)
    have fs2: "fat_fds (os_kernel s2) (fd_data ?fd) = Some f" using s2(3) fs f(1) by (metis (no_types, lifting)
      file_descriptor.select_convs(2) file_descriptor.surjective file_descriptor.update_convs(3) kernel.select_convs(6)
      kernel.surjective kernel.update_convs(7))
    have "readable s2 ?fd"
      using fs2 f off' o by (auto simp: readable_def word_le_nat_alt sz_def)
    moreover have "fd_rest s2 ?fd = drop n (fd_rest s fd)"
    proof -
      have "fd_rest s2 ?fd = drop (off + min n (sz - off)) (take sz (ff_bytes f))"
        using fs2 off' by (simp add: fd_rest_def sz_def)
      then show ?thesis using o f(2) unfolding rest by (cases "n \<le> sz - off") (simp_all add: drop_take add.commute sz_def)
    qed
    moreover have "k_vm (os_kernel s2) = k_vm (os_kernel s1)" by (subst s2(3)) simp
    ultimately show thesis using h eax s2(2)
      by (intro that [of s2 ?fd]) (simp_all add: n_def running_def)
  qed
qed

text \<open>C6:
  Reading a file is reading a stream: with a buffer that is mapped, the call fills it with the
  next bytes of the file, as many as asked for and there are, returns their number, and leaves
  the descriptor at the rest. No byte is read twice or left out.
\<close>

theorem read_consumes_file:
  assumes "running s = Some p" "get_fd (r_ebx regs) p = Some (i, fd)" "length (p_fds p) = MAX_FDS" "readable s fd"
    and "unat (r_edx regs) < 2 ^ 31"
    and "user_store (r_ecx regs) (take (unat (r_edx regs)) (fd_rest s fd)) s = Some s1" "running s1 = Some p"
  shows "\<exists>s2 fd'. handle_syscall_read regs s
        = Some (regs\<lparr>r_eax := of_nat (min (unat (r_edx regs)) (length (fd_rest s fd)))\<rparr>, s2)
      \<and> running s2 = Some (p\<lparr>p_fds := (p_fds p)[i := fd']\<rparr>) \<and> readable s2 fd'
      \<and> fd_rest s2 fd' = drop (unat (r_edx regs)) (fd_rest s fd) \<and> k_vm (os_kernel s2) = k_vm (os_kernel s1)"
  by (rule read_file_step [OF assms]) blast

section \<open>Descriptors and processes\<close>

text \<open>C39:
  Closing the standard input or output of a fresh descriptor table takes the null pointer in
  the descriptor for a file object and reads through it; the call returns only for
  descriptors that are files, and then the descriptor is free again.
\<close>

theorem close_standard_descriptor:
  assumes "running s = Some p" "p_fds p = initial_fds" "fat_fds (os_kernel s) 0 = None"
    and "r_ebx regs = 0 \<or> r_ebx regs = 1"
  shows "handle_syscall_close regs s = None"
proof -
  have "get_fd (r_ebx regs) p = Some (unat (r_ebx regs), initial_fds ! unat (r_ebx regs))"
    using assms(2,4) by (auto simp: get_fd_def MAX_FDS_def)
  moreover have "fd_open (initial_fds ! n) \<and> fd_data (initial_fds ! n) = 0" if "n = 0 \<or> n = 1" for n
    using that by (auto simp: initial_fds_def Let_def MAX_FDS_def closed_fd_def)
  ultimately show ?thesis using assms by (auto simp: handle_syscall_close_def)
qed

text \<open>C10:
  A fork adds one process at the end of the list: it has the next process id, the caller as its
  parent and the registers of the caller with 0 in \<^verbatim>\<open>eax\<close>, while the caller gets the
  child's id. The processes before keep their ids and descriptors. The child starts with a
  fresh descriptor table and without a heap, whatever files and heap the parent had.
\<close>

theorem fork_creates_child:
  assumes "handle_syscall_fork st regs s = Some (r, s')" "sched_ok (os_kernel s)"
  shows "\<exists>p child. running s = Some p \<and> r = regs\<lparr>r_eax := p_pid child\<rparr>
    \<and> p_pid child = pid_static (os_kernel s) \<and> pid_static (os_kernel s') = pid_static (os_kernel s) + 1
    \<and> p_parent_pid child = p_pid p \<and> p_registers child = regs\<lparr>r_eax := 0\<rparr> \<and> p_status child = READY
    \<and> p_fds child = initial_fds \<and> p_heap_break child = 0
    \<and> procs (os_kernel s') = procs (os_kernel s) @ [child] \<and> current_process (os_kernel s') = current_process (os_kernel s)"
proof -
  from assms(1) obtain p :: pcb and pd m child k where f: "running s = Some p"
    "create_process_control_block st pd (regs\<lparr>r_eax := 0\<rparr>) (p_pid p) ((os_kernel s)\<lparr>k_vm := m\<rparr>) = Some (child, k)"
    "s' = s\<lparr>os_kernel := scheduler_enqueue child k\<rparr>" "r = regs\<lparr>r_eax := p_pid child\<rparr>"
    by (elim fork_parts)
  note c = create_pcb_parts [OF f(2)]
  have k: "procs k = procs (os_kernel s)" "pid_static k = pid_static (os_kernel s) + 1"
      "current_process k = current_process (os_kernel s)"
    using f(2) by (auto simp: create_process_control_block_def k_kmalloc_def Let_def split: bind_splits if_splits)
  have "head_ptr (os_kernel s) \<noteq> 0"
    using assms(2) by (cases "procs (os_kernel s)") (auto simp: sched_ok_def head_ptr_def)
  then have "head_ptr k \<noteq> 0" by (simp add: head_ptr_def k(1))
  then show ?thesis using f c k
    by (intro exI [of _ p] exI [of _ child]) (simp add: scheduler_enqueue_def)
qed


section \<open>Examples\<close>

text \<open>
  The example of the scheduler with a page of memory at address 0, and the open file Hello
  behind descriptor 2 of the running process.
\<close>

definition demo_os :: os where
  "demo_os = \<lparr>os_kernel = demo_kernel\<lparr>cr3 := 0x1000,
       k_vm := (k_vm demo_kernel)\<lparr>ram := (\<lambda>a i. if a = 0x1000 \<and> i = 0 then 0x2007 else if a = 0x2000 \<and> i = 0 then 0x3007 else 0)\<rparr>,
       fat_fds := [0x104200 \<mapsto> \<lparr>ff_data = 0x104300, ff_bytes = [72, 101, 108, 108, 111], ff_size = 5, ff_attributes = 0,
         ff_start_cluster = 2\<rparr>],
       procs := (demo_pcb 0x101000 1 RUNNING 0)\<lparr>p_fds := initial_fds[2 := \<lparr>fd_type = FD_FILE, fd_data = 0x104200,
           fd_offset = 1, fd_open = True\<rparr>]\<rparr> # tl (procs demo_kernel)\<rparr>,
     os_disk = \<lparr>sector_count = 0, lba_low = 0, lba_mid = 0, lba_high = 0, drive_port = 0, platter = (\<lambda>a. replicate 512 0)\<rparr>,
     os_bpb = replicate 512 0,
     os_geometry = \<lparr>fat_start_lba = 0, root_dir_start_lba = 0, root_dir_sectors = 0, data_start_lba = 0\<rparr>,
     timer_ticks = 0, os_eflags = 0\<rparr>"

lemma demo_os_maps: "\<exists>s1. user_store 0 [101, 108] demo_os = Some s1 \<and> procs (os_kernel s1) = procs (os_kernel demo_os)
  \<and> current_process (os_kernel s1) = current_process (os_kernel demo_os)"
proof -
  have t: "translate m 0x1000 v = Some (0x3000 OR (v AND 0xFFF))"
    if "m 0x1000 0 = 0x2007" "m 0x2000 0 = 0x3007" "v = 0 \<or> v = 1" for m v
    using that by (auto simp: translate_def walk_def pdi_def pti_def table_of_def)
  show ?thesis
    by (simp add: user_store_def on_kernel_def on_vm_def demo_os_def demo_kernel_def store_byte_def t set_entry_def table_of_def Let_def)
qed

lemma demo_os_running: "running demo_os = Some ((demo_pcb 0x101000 1 RUNNING 0)\<lparr>p_fds := initial_fds[2 := \<lparr>fd_type = FD_FILE,
    fd_data = 0x104200, fd_offset = 1, fd_open = True\<rparr>]\<rparr>)"
  by (simp add: running_def current_def proc_at_def demo_os_def demo_kernel_def demo_pcb_def)

theorem read_consumes_file_witness:
  "\<exists>s2 fd. handle_syscall_read (zero_registers\<lparr>r_ebx := 2, r_edx := 2\<rparr>) demo_os
      = Some (zero_registers\<lparr>r_ebx := 2, r_edx := 2, r_eax := 2\<rparr>, s2) \<and> fd_rest s2 fd = [108, 111]"
proof -
  let ?r = "zero_registers\<lparr>r_ebx := 2, r_edx := 2\<rparr>"
  let ?fd = "\<lparr>fd_type = FD_FILE, fd_data = 0x104200, fd_offset = 1, fd_open = True\<rparr>"
  let ?p = "(demo_pcb 0x101000 1 RUNNING 0)\<lparr>p_fds := initial_fds[2 := ?fd]\<rparr>"
  have rest: "fd_rest demo_os ?fd = [101, 108, 108, 111]" by (simp add: fd_rest_def demo_os_def)
  obtain s1 where s1: "user_store 0 [101, 108] demo_os = Some s1" "procs (os_kernel s1) = procs (os_kernel demo_os)"
      "current_process (os_kernel s1) = current_process (os_kernel demo_os)" using demo_os_maps by blast
  have run: "running s1 = Some ?p" using demo_os_running s1(2,3) by (simp add: running_def current_def proc_at_def)
  have "get_fd (r_ebx ?r) ?p = Some (2, ?fd)" "length (p_fds ?p) = MAX_FDS" "readable demo_os ?fd"
    by (simp_all add: get_fd_def MAX_FDS_def initial_fds_typed [unfolded MAX_FDS_def] zero_registers_def,
        simp add: readable_def demo_os_def)
  from read_consumes_file [OF demo_os_running this] show ?thesis
    using s1(1) run by (auto simp: rest zero_registers_def)
qed

theorem close_standard_descriptor_witness:
  "handle_syscall_close (zero_registers\<lparr>r_ebx := 1\<rparr>) (demo_os\<lparr>os_kernel := demo_kernel\<rparr>) = None"
  by (rule close_standard_descriptor [of _ "demo_pcb 0x101000 1 RUNNING 0"])
    (simp_all add: running_def current_def proc_at_def demo_kernel_def demo_pcb_def)

text \<open>The example with free frames and a directory of the kernel's pages only, for a fork.\<close>

definition demo_parent :: os where
  "demo_parent = demo_os\<lparr>os_kernel := demo_kernel\<lparr>k_wm := wm_start (init_heap boot_heap), process_queue_size := 1,
     k_vm := \<lparr>ram = (\<lambda>a i. if a = 0x2000 \<and> i = 0 then 0x3003 else 0), frames = [1], paging = True, intr = True\<rparr>,
     procs := [(demo_pcb 0x101000 1 RUNNING 0)\<lparr>p_directory := 0x2000\<rparr>]\<rparr>\<rparr>"

lemma copy_tables_absent: "\<forall>i \<in> set is. ram m src i AND 1 = 0 \<Longrightarrow> copy_tables d src is m = Some m"
  by (induction "is") auto

lemma demo_fork_directory: "\<exists>m'. fork_directory 0x2000 (k_vm (os_kernel demo_parent)) = Some (0x1000, m')"
proof -
  let ?m = "k_vm (os_kernel demo_parent)"
  define m1 where "m1 = identity_map_in 0x2000 0x1000 (?m\<lparr>frames := [3]\<rparr>)"
  have a: "alloc_frame ?m = Some (0x1000, ?m\<lparr>frames := [3]\<rparr>)"
    by (simp add: alloc_frame_def demo_parent_def allocate_frame_def allocate_loop.simps test_frame_def set_frame_def
        NUM_FRAMES_eq PAGE_SIZE_def)
  have r: "ram m1 0x2000 i = (if i = 0 then 0x3003 else 0)" for i
    by (simp add: m1_def identity_map_in_def Let_def set_entry_def table_of_def demo_parent_def pdi_def)
  have u: "[0..<1024] = 0 # [1..<1024]" by (subst upt_conv_Cons) simp_all
  have "copy_tables 0x1000 0x2000 [1..<1024] (set_entry 0x1000 0 0x3003 (zero_entries 0x1000 m1))
      = Some (set_entry 0x1000 0 0x3003 (zero_entries 0x1000 m1))"
    by (rule copy_tables_absent) (simp add: set_entry_def r)
  then have "copy_page_directory 0x1000 0x2000 (zero_entries 0x1000 m1) \<noteq> None"
    unfolding copy_page_directory_def u by (simp add: r USER_FUNC_VADDR_def)
  then show ?thesis by (auto simp: fork_directory_def a m1_def Let_def)
qed

theorem fork_creates_child_witness:
  "\<exists>s'. handle_syscall_fork (demo_pcb 0 0 READY 0) zero_registers demo_parent = Some (zero_registers\<lparr>r_eax := 5\<rparr>, s')
     \<and> map p_pid (procs (os_kernel s')) = [1, 5]"
proof -
  let ?p = "(demo_pcb 0x101000 1 RUNNING 0)\<lparr>p_directory := 0x2000\<rparr>"
  have run: "running demo_parent = Some ?p" "procs (os_kernel demo_parent) = [?p]" "pid_static (os_kernel demo_parent) = 5"
    by (simp_all add: demo_parent_def running_def current_def proc_at_def demo_kernel_def demo_pcb_def)
  have ok: "sched_ok (os_kernel demo_parent)"
    by (simp add: sched_ok_def demo_parent_def demo_kernel_def demo_pcb_def)
  obtain m' where "fork_directory 0x2000 (k_vm (os_kernel demo_parent)) = Some (0x1000, m')"
    using demo_fork_directory by blast
  moreover have "\<exists>c k. create_process_control_block st pd regs n ((os_kernel demo_parent)\<lparr>k_vm := m'\<rparr>) = Some (c, k)" for st pd regs n m'
    by (simp add: create_process_control_block_def k_kmalloc_def demo_parent_def wm_start_def boot_heap_def heap_eval
        sizeof_pcb_def PAGE_SIZE_def)
  ultimately obtain c k where "fork_directory 0x2000 (k_vm (os_kernel demo_parent)) = Some (0x1000, m')"
      "create_process_control_block (demo_pcb 0 0 READY 0) 0x1000 (zero_registers\<lparr>r_eax := 0\<rparr>) (p_pid ?p)
        ((os_kernel demo_parent)\<lparr>k_vm := m'\<rparr>) = Some (c, k)" by blast
  then obtain r s' where f: "handle_syscall_fork (demo_pcb 0 0 READY 0) zero_registers demo_parent = Some (r, s')"
    using run(1) by (simp add: handle_syscall_fork_def with_kernel_def Let_def)
  from fork_creates_child [OF f ok] show ?thesis
    using f by (auto simp: run) (simp add: demo_pcb_def)
qed

text \<open>The example with process 4 running.\<close>

definition demo_exit :: os where
  "demo_exit = demo_os\<lparr>os_kernel := demo_kernel\<lparr>current_process := 0x103000\<rparr>\<rparr>"


end
