(* ===== verification/Keyboard.thy ===== *)
theory Keyboard
  imports Syscall
begin

text \<open>
  The keyboard, \<^verbatim>\<open>drivers/keyboard.c\<close>: the interrupt handler turns scan codes into
  characters, keeps track of the shift and control keys, and sends what is typed to the
  input buffer when the terminal has the focus and to the event queue of the focused window
  otherwise. The byte that the controller delivers is an argument.
\<close>

section \<open>Model\<close>

definition SCANCODE_ENTER :: u8 where "SCANCODE_ENTER = 0x1C"
definition SCANCODE_BACKSPACE :: u8 where "SCANCODE_BACKSPACE = 0x0E"
definition SCANCODE_RELEASE_MASK :: u8 where "SCANCODE_RELEASE_MASK = 0x80"
definition SCANCODE_LSHIFT :: u8 where "SCANCODE_LSHIFT = 0x2A"
definition SCANCODE_RSHIFT :: u8 where "SCANCODE_RSHIFT = 0x36"
definition SCANCODE_LSHIFT_REL :: u8 where "SCANCODE_LSHIFT_REL = 0xAA"
definition SCANCODE_RSHIFT_REL :: u8 where "SCANCODE_RSHIFT_REL = 0xB6"
definition SCANCODE_LCTRL :: u8 where "SCANCODE_LCTRL = 0x1D"
definition SCANCODE_LCTRL_REL :: u8 where "SCANCODE_LCTRL_REL = 0x9D"
definition SCANCODE_C :: u8 where "SCANCODE_C = 0x2E"

definition scancode_to_ascii :: "u8 list" where
  "scancode_to_ascii =
    [0, 0, 49, 50, 51, 52, 53, 54, 55, 56, 57, 48, 45, 61, 0,
     0, 113, 119, 101, 114, 116, 121, 117, 105, 111, 112, 91, 93, 0, 0,
     97, 115, 100, 102, 103, 104, 106, 107, 108, 59, 39, 96, 0, 92, 122,
     120, 99, 118, 98, 110, 109, 44, 46, 47, 0, 0, 0, 32]"

definition scancode_to_ascii_shift :: "u8 list" where
  "scancode_to_ascii_shift =
    [0, 0, 33, 64, 35, 36, 37, 94, 38, 42, 40, 41, 95, 43, 0,
     0, 81, 87, 69, 82, 84, 89, 85, 73, 79, 80, 123, 125, 0, 0,
     65, 83, 68, 70, 71, 72, 74, 75, 76, 58, 34, 126, 0, 124, 90,
     88, 67, 86, 66, 78, 77, 60, 62, 63, 0, 0, 0, 32]"

record keyboard =
  keyboard_pressed :: bool
  shift_held :: bool
  ctrl_held :: bool

definition handle_modifiers :: "u8 \<Rightarrow> keyboard \<Rightarrow> bool \<times> keyboard" where
  "handle_modifiers scancode kb =
     (if scancode = SCANCODE_LSHIFT \<or> scancode = SCANCODE_RSHIFT then (True, kb\<lparr>shift_held := True\<rparr>)
      else if scancode = SCANCODE_LSHIFT_REL \<or> scancode = SCANCODE_RSHIFT_REL then (True, kb\<lparr>shift_held := False\<rparr>)
      else if scancode = SCANCODE_LCTRL then (True, kb\<lparr>ctrl_held := True\<rparr>)
      else if scancode = SCANCODE_LCTRL_REL then (True, kb\<lparr>ctrl_held := False\<rparr>)
      else (False, kb))"

text \<open>
  \<^verbatim>\<open>terminal->window->is_focused\<close>; the window of the terminal must still be there. The
  character goes to the input buffer or, with the scan code, to the focused window.
\<close>

definition terminal_focused :: "kernel \<Rightarrow> bool option" where
  "terminal_focused k =
     map_option is_focused (find (\<lambda>w. w_addr w = t_window (k_term k)) (windows (k_wm k)))"

definition send_char :: "event \<Rightarrow> u8 \<Rightarrow> u8 \<Rightarrow> kernel \<Rightarrow> kernel option" where
  "send_char stale scancode c k =
     do {
       is_terminal \<leftarrow> terminal_focused k;
       if is_terminal then type_char c k
       else do {
         w \<leftarrow> update_focused_window EVENT_KEYPRESS scancode c 0 0 0 stale (k_wm k);
         Some (k\<lparr>k_wm := w\<rparr>)
       }
     }"

definition handle_chords :: "event \<Rightarrow> u8 \<Rightarrow> keyboard \<Rightarrow> kernel \<Rightarrow> (bool \<times> kernel) option" where
  "handle_chords stale scancode kb k =
     (if ctrl_held kb \<and> scancode = SCANCODE_C then
        do { k \<leftarrow> sigint_foreground k; Some (True, k) }
      else if shift_held kb \<and> scancode = SCANCODE_ENTER then
        do { k \<leftarrow> send_char stale scancode 32 k; Some (True, k) }
      else Some (False, k))"

definition handle_input :: "event \<Rightarrow> u8 \<Rightarrow> keyboard \<Rightarrow> kernel \<Rightarrow> kernel option" where
  "handle_input stale scancode kb k =
     do {
       _ \<leftarrow> terminal_focused k;
       if scancode = SCANCODE_ENTER then send_char stale scancode 10 k
       else if scancode = SCANCODE_BACKSPACE then send_char stale scancode 8 k
       else if unat scancode < length scancode_to_ascii then do {
         c \<leftarrow> get (if shift_held kb then scancode_to_ascii_shift else scancode_to_ascii) (unat scancode);
         if c \<noteq> 0 then send_char stale scancode c k else Some k
       }
       else Some k
     }"

definition keyboard_handler_main ::
  "event \<Rightarrow> u8 \<Rightarrow> registers \<Rightarrow> keyboard \<times> kernel \<Rightarrow> (registers \<times> keyboard \<times> kernel) option" where
  "keyboard_handler_main stale scancode regs kbk =
     (let (kb, k) = kbk; (modifier, kb) = handle_modifiers scancode kb; release = scancode AND SCANCODE_RELEASE_MASK \<noteq> 0
      in do {
        (chord, k) \<leftarrow> if modifier then Some (False, k) else handle_chords stale scancode kb k;
        if modifier \<or> chord \<or> release
        then Some (regs, if release then kb\<lparr>keyboard_pressed := False\<rparr> else kb, k)
        else if STANDARD_IN_BUFFER_SIZE \<le> s_count (k_stdin k) then Some (regs, kb, k)
        else do {
          let kb = kb\<lparr>keyboard_pressed := True\<rparr>;
          k \<leftarrow> handle_input stale scancode kb k;
          let inp = k_stdin k;
          (regs, k) \<leftarrow> if wait_process inp \<noteq> 0 \<and> (requested_len inp \<le> s_count inp \<or> scancode = SCANCODE_ENTER)
            then stdin_wake_process regs k else Some (regs, k);
          Some (regs, kb, k)
        }
      })"

section \<open>Modifiers\<close>

abbreviation shift_code :: "u8 \<Rightarrow> bool" where
  "shift_code c \<equiv> c \<in> {SCANCODE_LSHIFT, SCANCODE_RSHIFT, SCANCODE_LSHIFT_REL, SCANCODE_RSHIFT_REL}"

abbreviation ctrl_code :: "u8 \<Rightarrow> bool" where
  "ctrl_code c \<equiv> c \<in> {SCANCODE_LCTRL, SCANCODE_LCTRL_REL}"

lemmas scancodes = SCANCODE_ENTER_def SCANCODE_BACKSPACE_def SCANCODE_RELEASE_MASK_def SCANCODE_LSHIFT_def
  SCANCODE_RSHIFT_def SCANCODE_LSHIFT_REL_def SCANCODE_RSHIFT_REL_def SCANCODE_LCTRL_def SCANCODE_LCTRL_REL_def
  SCANCODE_C_def

lemma handle_modifiers_eq:
  "fst (handle_modifiers c kb) = (shift_code c \<or> ctrl_code c)"
  "shift_held (snd (handle_modifiers c kb)) =
     (if shift_code c then c AND SCANCODE_RELEASE_MASK = 0 else shift_held kb)"
  "ctrl_held (snd (handle_modifiers c kb)) =
     (if ctrl_code c then c AND SCANCODE_RELEASE_MASK = 0 else ctrl_held kb)"
  by (auto simp: handle_modifiers_def scancodes)

lemma find_rev_Cons: "find P (rev (x # xs)) = (case find P (rev xs) of None \<Rightarrow> if P x then Some x else None | r \<Rightarrow> r)"
proof -
  have "find P (ys @ [x]) = (case find P ys of None \<Rightarrow> if P x then Some x else None | r \<Rightarrow> r)" for ys
    by (induction ys) auto
  then show ?thesis by simp
qed

lemma last_event:
  assumes "\<And>kb c. g (f kb c) = (if P c then Q c else g kb)"
  shows "g (foldl f kb cs) = (case find P (rev cs) of None \<Rightarrow> g kb | Some c \<Rightarrow> Q c)"
proof (induction cs arbitrary: kb)
  case (Cons c cs)
  show ?case by (simp only: foldl_Cons Cons.IH find_rev_Cons assms) (simp split: option.splits)
qed simp

text \<open>C36:
  The shift state is what the last shift key event says: after any stream of scan codes it is
  held exactly when the last code of one of the shift keys was a press, and the same for the
  control key. So with both shift keys held, releasing one of them ends the shift.
\<close>

theorem modifiers_follow_last_key:
  fixes kb :: keyboard and cs :: "u8 list"
  defines "after \<equiv> foldl (\<lambda>kb c. snd (handle_modifiers c kb)) kb cs"
  shows "shift_held after = (case find shift_code (rev cs) of None \<Rightarrow> shift_held kb | Some c \<Rightarrow> c AND SCANCODE_RELEASE_MASK = 0)
    \<and> ctrl_held after = (case find ctrl_code (rev cs) of None \<Rightarrow> ctrl_held kb | Some c \<Rightarrow> c AND SCANCODE_RELEASE_MASK = 0)"
  unfolding after_def by (intro conjI last_event handle_modifiers_eq(2,3))

theorem modifiers_follow_last_key_witness:
  "\<not> shift_held (foldl (\<lambda>kb c. snd (handle_modifiers c kb)) \<lparr>keyboard_pressed = False, shift_held = False, ctrl_held = False\<rparr>
      [SCANCODE_LSHIFT, SCANCODE_RSHIFT, SCANCODE_LSHIFT_REL])"
  using modifiers_follow_last_key [of "\<lparr>keyboard_pressed = False, shift_held = False, ctrl_held = False\<rparr>"
      "[SCANCODE_LSHIFT, SCANCODE_RSHIFT, SCANCODE_LSHIFT_REL]"] by (simp add: scancodes)

section \<open>Typing\<close>

lemma type_char_appends:
  assumes "stdin_ok (k_stdin k)" "s_count (k_stdin k) < 256" "c \<notin> {8, 9, 127}"
    and "term_ok (k_term k)" "term_open (k_term k) (k_wm k)" "drawable (k_beyond k)"
  shows "\<exists>inp t w. type_char c k = Some (k\<lparr>k_stdin := inp, k_term := t, k_wm := w\<rparr>)
    \<and> stdin_ok inp \<and> pending inp = pending (k_stdin k) @ [c] \<and> wait_process inp = wait_process (k_stdin k)
    \<and> requested_len inp = requested_len (k_stdin k) \<and> term_ok t \<and> term_open t w"
proof -
  obtain inp where inp: "stdin_write c (k_stdin k) = Some (inp, [(c, WHITE)])" "stdin_ok inp"
      "pending inp = pending (k_stdin k) @ [c]" "wait_process inp = wait_process (k_stdin k)"
      "requested_len inp = requested_len (k_stdin k)"
    using stdin_write_char [OF assms(1) _ assms(2), of c] assms(3) by (auto simp: CH_BS_def)
  obtain t w where "terminal_print_char_color (k_beyond k) c WHITE (k_term k, k_wm k) = Some (t, w)" "term_ok t" "term_open t w"
    using print_char_returns [OF assms(4-6), of c WHITE] assms(3) by auto
  then show ?thesis using inp by (auto simp: type_char_def print_colored_def)
qed

lemma table_chars: "c \<in> set scancode_to_ascii \<union> set scancode_to_ascii_shift \<Longrightarrow> c \<notin> {8, 9, 10, 127}"
  by (auto simp: scancode_to_ascii_def scancode_to_ascii_shift_def)

definition key_char :: "keyboard \<Rightarrow> u8 \<Rightarrow> u8 option" where
  "key_char kb scancode =
     (if scancode = SCANCODE_ENTER then Some 10 else if scancode = SCANCODE_BACKSPACE then Some 8
      else case get (if shift_held kb then scancode_to_ascii_shift else scancode_to_ascii) (unat scancode) of
        None \<Rightarrow> None | Some c \<Rightarrow> if c = 0 then None else Some c)"

lemma handle_input_eq:
  "handle_input stale scancode kb k = do {
     f \<leftarrow> terminal_focused k;
     case key_char kb scancode of None \<Rightarrow> Some k | Some c \<Rightarrow> send_char stale scancode c k }"
proof -
  have "length scancode_to_ascii = 58" "length scancode_to_ascii_shift = 58"
    by (simp_all add: scancode_to_ascii_def scancode_to_ascii_shift_def)
  then show ?thesis by (auto simp: handle_input_def key_char_def get_def split: bind_splits)
qed

lemma key_char_plain:
  assumes "key_char kb scancode = Some c"
  shows "scancode AND SCANCODE_RELEASE_MASK = 0" "\<not> shift_code scancode" "\<not> ctrl_code scancode"
    "c \<notin> {9, 127}" "scancode \<noteq> SCANCODE_BACKSPACE \<Longrightarrow> c \<noteq> 8"
proof -
  have len: "length scancode_to_ascii = 58" "length scancode_to_ascii_shift = 58"
    by (simp_all add: scancode_to_ascii_def scancode_to_ascii_shift_def)
  have sc: "unat scancode < 58"
    using assms len by (auto simp: key_char_def get_def scancodes split: if_splits)
  then have m: "scancode < 0x80" by (simp add: word_less_nat_alt)
  show "scancode AND SCANCODE_RELEASE_MASK = 0"
  proof -
    have "uint scancode < 128" using m by (simp add: word_less_def)
    then have "uint scancode div 2 ^ 7 = 0" by simp
    then have "\<not> bit (uint scancode) 7" by (simp only: bit_iff_odd) simp
    then have "\<not> bit scancode 7" by (simp add: bit_uint_iff)
    moreover have e: "(0x80 :: u8) = 2 ^ 7" by simp
    ultimately show ?thesis unfolding SCANCODE_RELEASE_MASK_def e
      by (intro bit_eqI) (simp only: bit_and_iff bit_exp_iff bit_0_eq, auto)
  qed
  have zero: "scancode_to_ascii ! 0x2A = 0" "scancode_to_ascii ! 0x36 = 0" "scancode_to_ascii ! 0x1D = 0"
      "scancode_to_ascii_shift ! 0x2A = 0" "scancode_to_ascii_shift ! 0x36 = 0" "scancode_to_ascii_shift ! 0x1D = 0"
    by (simp_all add: scancode_to_ascii_def scancode_to_ascii_shift_def)
  show "\<not> shift_code scancode" "\<not> ctrl_code scancode"
    using assms sc zero len by (auto simp: key_char_def get_def scancodes split: if_splits)
  have "c \<in> set scancode_to_ascii \<union> set scancode_to_ascii_shift \<or> c = 10 \<or> c = 8 \<and> scancode = SCANCODE_BACKSPACE"
    using assms len by (auto simp: key_char_def get_def split: if_splits dest: nth_mem)
  then show "c \<notin> {9, 127}" "scancode \<noteq> SCANCODE_BACKSPACE \<Longrightarrow> c \<noteq> 8" using table_chars by auto
qed

lemma plain_key:
  assumes "key_char kb scancode = Some c" "\<not> (ctrl_held kb \<and> scancode = SCANCODE_C)"
    "\<not> (shift_held kb \<and> scancode = SCANCODE_ENTER)" "s_count (k_stdin k) < 256"
    and "terminal_focused k \<noteq> None"
  shows "keyboard_handler_main stale scancode regs (kb, k) = do {
    k \<leftarrow> send_char stale scancode c k;
    (regs, k) \<leftarrow> if wait_process (k_stdin k) \<noteq> 0 \<and> (requested_len (k_stdin k) \<le> s_count (k_stdin k) \<or> scancode = SCANCODE_ENTER)
      then stdin_wake_process regs k else Some (regs, k);
    Some (regs, kb\<lparr>keyboard_pressed := True\<rparr>, k) }"
proof -
  note p = key_char_plain [OF assms(1)]
  have m: "handle_modifiers scancode kb = (False, kb)" using p(2,3) by (simp add: handle_modifiers_def)
  have c: "handle_chords stale scancode kb k = Some (False, k)" using assms(2,3) by (auto simp: handle_chords_def)
  have "key_char (kb\<lparr>keyboard_pressed := True\<rparr>) scancode = key_char kb scancode" by (simp add: key_char_def)
  then have "handle_input stale scancode (kb\<lparr>keyboard_pressed := True\<rparr>) k = send_char stale scancode c k"
    using assms(1,5) by (auto simp: handle_input_eq)
  then show ?thesis
    using assms(4) p(1) by (simp add: keyboard_handler_main_def m c STANDARD_IN_BUFFER_SIZE_def Let_def)
qed


lemma focused_update:
  assumes "find is_focused ws = Some w" "f w = Some v" "is_focused v"
  shows "\<exists>vs. update_first is_focused f ws = Some vs \<and> find is_focused vs = Some v"
  using assms by (induction ws) (auto split: if_splits)

text \<open>C29:
  While another window has the focus, the same key goes to the event queue of that window, with
  its scan code and character, unless the queue is full; the input buffer and the terminal
  do not change.
\<close>

theorem key_reaches_focused_window:
  assumes "terminal_focused k = Some False" "wm_get_focused_window (k_wm k) = Some win" "ring_ok (w_events win)"
    and "s_count (k_stdin k) < 256" "wait_process (k_stdin k) = 0" "key_char kb scancode = Some c"
    and "\<not> (ctrl_held kb \<and> scancode = SCANCODE_C)" "\<not> (shift_held kb \<and> scancode = SCANCODE_ENTER)"
  shows "\<exists>w q. keyboard_handler_main stale scancode regs (kb, k)
      = Some (regs, kb\<lparr>keyboard_pressed := True\<rparr>, k\<lparr>k_wm := w\<rparr>)
    \<and> wm_get_focused_window w = Some (win\<lparr>w_events := q\<rparr>) \<and> ring_ok q
    \<and> ring_list q = ring_list (w_events win)
        @ (if length (ring_list (w_events win)) < 64
           then [stale\<lparr>ev_type := EVENT_KEYPRESS, keyboard_scancode := scancode, ev_c := c\<rparr>] else [])"
proof -
  let ?e = "stale\<lparr>ev_type := EVENT_KEYPRESS, keyboard_scancode := scancode, ev_c := c\<rparr>"
  obtain q where q: "event_queue_push ?e (w_events win) = Some q" "ring_ok q"
      "ring_list q = (if length (ring_list (w_events win)) < 64 then ring_list (w_events win) @ [?e] else ring_list (w_events win))"
    using push_ring [OF assms(3)] by blast
  let ?f = "\<lambda>w. do { q \<leftarrow> event_queue_push ?e (w_events w); Some (w\<lparr>w_events := q\<rparr>) }"
  have "is_focused win" using assms(2) by (auto simp: wm_get_focused_window_def find_Some_iff)
  then obtain vs where vs: "update_first is_focused ?f (windows (k_wm k)) = Some vs"
      "find is_focused vs = Some (win\<lparr>w_events := q\<rparr>)"
    using focused_update [of "windows (k_wm k)" win ?f "win\<lparr>w_events := q\<rparr>"] assms(2) q(1)
    by (auto simp: wm_get_focused_window_def)
  then have "send_char stale scancode c k = Some (k\<lparr>k_wm := (k_wm k)\<lparr>windows := vs\<rparr>\<rparr>)"
    using assms(1) by (simp add: send_char_def update_focused_window_def fill_event_def)
  then show ?thesis
    using plain_key [OF assms(6-8,4)] assms(1,5) vs(2) q(2,3)
    by (intro exI [of _ "(k_wm k)\<lparr>windows := vs\<rparr>"] exI [of _ q]) (simp add: wm_get_focused_window_def)
qed

text \<open>C40:
  The full buffer is guarded for every key but shift and enter: with 256 characters waiting,
  that chord still writes its blank over the oldest of them and counts 257.
\<close>

theorem shift_enter_overruns_input:
  assumes "terminal_focused k = Some True" "term_ok (k_term k)" "term_open (k_term k) (k_wm k)" "drawable (k_beyond k)"
    and "stdin_ok (k_stdin k)" "s_count (k_stdin k) = 256" "shift_held kb"
  shows "\<exists>kb' k'. keyboard_handler_main stale SCANCODE_ENTER regs (kb, k) = Some (regs, kb', k')
    \<and> s_count (k_stdin k') = 257 \<and> sbuf (k_stdin k') ! nat (read_index (k_stdin k')) = 32"
proof -
  have b: "0 \<le> read_index (k_stdin k)" "read_index (k_stdin k) < 256" "length (sbuf (k_stdin k)) = 256"
      "write_index (k_stdin k) = read_index (k_stdin k)"
    using assms(5,6) by (auto simp: stdin_ok_def)
  let ?inp = "(k_stdin k)\<lparr>sbuf := (sbuf (k_stdin k))[nat (read_index (k_stdin k)) := 32],
      write_index := (read_index (k_stdin k) + 1) smod 256, s_count := 257\<rparr>"
  have w: "stdin_write 32 (k_stdin k) = Some (?inp, [(32, WHITE)])"
    using b assms(6) by (simp add: stdin_write_def CH_BS_def STANDARD_IN_BUFFER_SIZE_def)
  obtain t v where "terminal_print_char_color (k_beyond k) 32 WHITE (k_term k, k_wm k) = Some (t, v)"
    using print_char_returns [OF assms(2-4), of 32 WHITE] by auto
  then have "send_char stale SCANCODE_ENTER 32 k = Some (k\<lparr>k_stdin := ?inp, k_term := t, k_wm := v\<rparr>)"
    using w assms(1) by (simp add: send_char_def type_char_def print_colored_def)
  then show ?thesis
    using assms(7) b by (simp add: keyboard_handler_main_def handle_modifiers_def handle_chords_def scancodes Let_def)
qed

section \<open>Waking the reader\<close>

definition with_proc :: "u32 \<Rightarrow> (pcb \<Rightarrow> pcb) \<Rightarrow> kernel \<Rightarrow> kernel" where
  "with_proc a f k = k\<lparr>procs := map (\<lambda>p. if p_addr p = a then f p else p) (procs k)\<rparr>"

lemma set_proc_with: "proc_at a k \<noteq> None \<Longrightarrow> set_proc a f k = Some (with_proc a f k)"
  by (simp add: set_proc_def with_proc_def)

lemma proc_at_with:
  "(\<And>p. p_addr (f p) = p_addr p) \<Longrightarrow> proc_at b (with_proc a f k) = (if b = a then map_option f (proc_at b k) else proc_at b k)"
proof -
  assume f: "\<And>p. p_addr (f p) = p_addr p"
  let ?g = "\<lambda>p. if p_addr p = a then f p else p"
  have m: "proc_at b (with_proc a f k) = map_option ?g (proc_at b k)"
    unfolding proc_at_def with_proc_def by (simp add: f find_map_keep)
  have "p_addr p = b" if "proc_at b k = Some p" for p using that by (auto simp: proc_at_def find_Some_iff)
  then show ?thesis unfolding m by (cases "proc_at b k") auto
qed

lemma with_proc_fields [simp]:
  "k_stdin (with_proc a f k) = k_stdin k" "k_vm (with_proc a f k) = k_vm k" "cr3 (with_proc a f k) = cr3 k"
  "current_process (with_proc a f k) = current_process k" "k_wm (with_proc a f k) = k_wm k" "k_term (with_proc a f k) = k_term k"
  by (simp_all add: with_proc_def)

lemma proc_at_fields [simp]:
  "proc_at b (k\<lparr>k_stdin := i\<rparr>) = proc_at b k" "proc_at b (k\<lparr>k_vm := m\<rparr>) = proc_at b k"
  "proc_at b (k\<lparr>esp0 := e\<rparr>) = proc_at b k" "proc_at b (k\<lparr>cr3 := d\<rparr>) = proc_at b k"
  "proc_at b (k\<lparr>k_term := t\<rparr>) = proc_at b k" "proc_at b (k\<lparr>k_wm := w\<rparr>) = proc_at b k"
  by (simp_all add: proc_at_def)

lemma pending_fields [simp]: "pending (s\<lparr>wait_process := a, requested_len := n\<rparr>) = pending s"
  by (simp add: pending_def)

lemma wake_reader:
  fixes k :: kernel and regs
  defines "w \<equiv> wait_process (k_stdin k)"
    and "n \<equiv> nat (min (s_count (k_stdin k)) (requested_len (k_stdin k)))"
  assumes "current k = Some c" "p_status c \<noteq> ZOMBIE" "proc_at w k = Some p" "w \<noteq> current_process k" "stdin_ok (k_stdin k)"
    and out: "out = filter (\<lambda>c. c \<noteq> CH_BS \<and> c \<noteq> CH_NL) (take n (pending (k_stdin k)))"
    and "store_bytes (p_directory p) (r_ecx (p_registers p)) out (k_vm k) = Some m"
  shows "\<exists>k'. stdin_wake_process regs k = Some (regs, k') \<and> k_vm k' = m
    \<and> proc_at w k' = Some (p\<lparr>p_status := READY, p_registers := (p_registers p)\<lparr>r_eax := of_nat (length out)\<rparr>\<rparr>)
    \<and> wait_process (k_stdin k') = 0 \<and> pending (k_stdin k') = drop n (pending (k_stdin k))
    \<and> current_process k' = current_process k \<and> cr3 k' = p_directory c"
proof -
  have n: "n \<le> nat (s_count (k_stdin k))" by (simp add: n_def)
  obtain inp where inp: "stdin_read_loop n (k_stdin k) = Some (inp, out)" "pending inp = drop n (pending (k_stdin k))"
    using stdin_read_loop_spec [OF assms(7) n] out by auto
  have rd: "stdin_read (c_min (s_count (k_stdin k)) (requested_len (k_stdin k))) (k_stdin k) = Some (inp, out)"
    using inp(1) by (simp add: stdin_read_def n_def)
  let ?k1 = "with_proc w (\<lambda>p. p\<lparr>p_status := RUNNING\<rparr>) k"
  let ?k2 = "with_proc (current_process k) (\<lambda>p. p\<lparr>p_registers := regs\<rparr>) ?k1"
  have cur: "proc_at (current_process k) k = Some c" using assms(3) by (simp add: current_def)
  have p2: "proc_at w ?k2 = Some (p\<lparr>p_status := RUNNING\<rparr>)" using assms(5,6) by (simp add: proc_at_with)
  let ?k3 = "?k2\<lparr>esp0 := p_kernel_stack p, cr3 := p_directory p, k_vm := m\<rparr>"
  let ?k4 = "(with_proc w (\<lambda>p. p\<lparr>p_registers := (p_registers p)\<lparr>r_eax := of_nat (length out)\<rparr>\<rparr>) ?k3)
    \<lparr>k_stdin := inp\<lparr>wait_process := 0, requested_len := -1\<rparr>\<rparr>"
  have d: "deliver_input w ?k2 = Some ?k4"
    using p2 rd assms(9) by (simp add: deliver_input_def Let_def on_vm_def set_proc_with)
  let ?k5 = "with_proc w (\<lambda>p. p\<lparr>p_status := READY\<rparr>) ?k4"
  have p5: "proc_at w ?k5 = Some (p\<lparr>p_status := READY, p_registers := (p_registers p)\<lparr>r_eax := of_nat (length out)\<rparr>\<rparr>)"
    "proc_at (current_process k) ?k5 = Some (c\<lparr>p_registers := regs\<rparr>)"
    using assms(5,6) cur by (simp_all add: proc_at_with)
  have "stdin_wake_process regs k = Some (regs, ?k5\<lparr>esp0 := p_kernel_stack c, cr3 := p_directory c\<rparr>)"
    using assms(3-6) cur d p2 p5(2)
    by (simp add: stdin_wake_process_def w_def [symmetric] Let_def set_proc_with proc_at_with current_def load_process_def)
  then show ?thesis using p5(1) inp(2) by simp
qed

text \<open>C33:
  Enter completes a read: when a process is blocked in a read of at least what was typed, the key
  gives it the pending line without the line end, puts the length into its \<^verbatim>\<open>eax\<close>, makes it
  ready and empties the wait; the process that was interrupted goes on with its registers.
\<close>

theorem enter_wakes_reader:
  assumes "terminal_focused k = Some True" "term_ok (k_term k)" "term_open (k_term k) (k_wm k)" "drawable (k_beyond k)"
    and "stdin_ok (k_stdin k)" "s_count (k_stdin k) < requested_len (k_stdin k)" "s_count (k_stdin k) < 256"
    and "\<not> shift_held kb" "current k = Some c" "p_status c \<noteq> ZOMBIE"
    and w: "w = wait_process (k_stdin k)" "w \<noteq> 0" "proc_at w k = Some p" "w \<noteq> current_process k"
    and line: "pending (k_stdin k) = line" "CH_BS \<notin> set line" "CH_NL \<notin> set line"
    and buffer: "store_bytes (p_directory p) (r_ecx (p_registers p)) line (k_vm k) = Some m"
  shows "\<exists>k'. keyboard_handler_main stale SCANCODE_ENTER regs (kb, k) = Some (regs, kb\<lparr>keyboard_pressed := True\<rparr>, k')
    \<and> proc_at w k' = Some (p\<lparr>p_status := READY, p_registers := (p_registers p)\<lparr>r_eax := of_nat (length line)\<rparr>\<rparr>)
    \<and> k_vm k' = m \<and> wait_process (k_stdin k') = 0 \<and> pending (k_stdin k') = []
    \<and> current_process k' = current_process k"
proof -
  have key: "key_char kb SCANCODE_ENTER = Some 10" by (simp add: key_char_def)
  obtain inp t v where ty: "type_char 10 k = Some (k\<lparr>k_stdin := inp, k_term := t, k_wm := v\<rparr>)" "stdin_ok inp"
      "pending inp = line @ [10]" "wait_process inp = w" "requested_len inp = requested_len (k_stdin k)"
    using type_char_appends [OF assms(5,7) _ assms(2-4), of 10] w(1) line(1) by auto
  let ?k = "k\<lparr>k_stdin := inp, k_term := t, k_wm := v\<rparr>"
  have "length (pending (k_stdin k)) = length line" using line(1) by simp
  then have "nat (s_count (k_stdin k)) = length line" by simp
  moreover have "length (pending inp) = Suc (length line)" using ty(3) by simp
  ultimately have cnt: "s_count inp = s_count (k_stdin k) + 1" "nat (s_count inp) = Suc (length line)"
    using assms(5) by (auto simp: stdin_ok_def)
  have n: "nat (min (s_count inp) (requested_len inp)) = Suc (length line)"
    using cnt assms(6) ty(5) by simp
  have out: "filter (\<lambda>c. c \<noteq> CH_BS \<and> c \<noteq> CH_NL) (take (Suc (length line)) (line @ [10])) = line"
    using line(2,3) by (auto simp: CH_NL_def CH_BS_def filter_id_conv)
  have "\<exists>k'. stdin_wake_process regs ?k = Some (regs, k') \<and> k_vm k' = m
    \<and> proc_at w k' = Some (p\<lparr>p_status := READY, p_registers := (p_registers p)\<lparr>r_eax := of_nat (length line)\<rparr>\<rparr>)
    \<and> wait_process (k_stdin k') = 0 \<and> pending (k_stdin k') = drop (Suc (length line)) (pending inp)
    \<and> current_process k' = current_process k \<and> cr3 k' = p_directory c"
    using wake_reader [of ?k c p line m regs] assms(9,10) w ty n out buffer by (simp add: current_def)
  then show ?thesis
    using plain_key [OF key _ _ assms(7), of stale regs] assms(1,8) ty w(2)
    by (auto simp: send_char_def scancodes)
qed

section \<open>Examples\<close>

text \<open>
  The terminal with the focus, l and s typed already, and process 3 blocked in a read of ten
  characters to address 0 of its own memory.
\<close>

definition demo_input :: stdin_buffer where
  "demo_input = \<lparr>sbuf = 108 # 115 # replicate 254 0, read_index = 0, write_index = 2, s_count = 2, wait_process = 0x102000,
     requested_len = 10\<rparr>"

definition demo_keys :: "bool \<Rightarrow> kernel" where
  "demo_keys focus = demo_kernel\<lparr>k_wm := demo_desk\<lparr>windows := [demo_window 1 focus, demo_window 2 (\<not> focus)]\<rparr>, k_stdin := demo_input,
     k_vm := (k_vm demo_kernel)\<lparr>ram := (\<lambda>a i. if a = 0x1000 \<and> i = 0 then 0x2007 else if a = 0x2000 \<and> i = 0 then 0x3007 else 0)\<rparr>,
     procs := [demo_pcb 0x101000 1 RUNNING 0, (demo_pcb 0x102000 3 WAITING 4)\<lparr>p_directory := 0x1000\<rparr>]\<rparr>"

lemma demo_keys_terminal:
  "terminal_focused (demo_keys focus) = Some focus" "term_ok (k_term (demo_keys focus))"
  "term_open (k_term (demo_keys focus)) (k_wm (demo_keys focus))" "drawable (k_beyond (demo_keys focus))"
  by (auto simp: terminal_focused_def demo_keys_def demo_kernel_def demo_terminal_def demo_desk_def demo_window_def
      term_ok_def term_open_def drawable_def win_ok_def wm_start_def TERMINAL_SIZE_def TERMINAL_COLS_def TERMINAL_ROWS_def)

lemma demo_input_ok: "stdin_ok demo_input" "pending demo_input = [108, 115]"
  by (simp_all add: demo_input_def stdin_ok_def pending_def numeral_eq_Suc [of num.One] numeral_2_eq_2)

abbreviation demo_kb :: keyboard where "demo_kb \<equiv> \<lparr>keyboard_pressed = False, shift_held = False, ctrl_held = False\<rparr>"


theorem key_reaches_focused_window_witness:
  "\<exists>kb' k' w. keyboard_handler_main zero_event 0x1E zero_registers
      (demo_kb, (demo_keys False)\<lparr>k_stdin := zero_stdin\<rparr>) = Some (zero_registers, kb', k')
    \<and> wm_get_focused_window (k_wm k') = Some w \<and> window_id w = 2
    \<and> ring_list (w_events w) = [zero_event\<lparr>keyboard_scancode := 0x1E, ev_c := 97\<rparr>]"
proof -
  let ?k = "(demo_keys False)\<lparr>k_stdin := zero_stdin\<rparr>"
  have "terminal_focused ?k = Some False" using demo_keys_terminal(1) [of False] by (simp add: terminal_focused_def)
  moreover have "wm_get_focused_window (k_wm ?k) = Some (demo_window 2 True)" "w_events (demo_window 2 True) = zero_queue"
    by (simp_all add: wm_get_focused_window_def demo_keys_def demo_window_def)
  moreover have "key_char demo_kb 0x1E = Some 97"
    by (simp add: key_char_def scancodes get_def scancode_to_ascii_def)
  moreover have "s_count (k_stdin ?k) < 256" "wait_process (k_stdin ?k) = 0" by (simp_all add: zero_stdin_def)
  moreover have "window_id (demo_window 2 True) = 2" "zero_event\<lparr>ev_type := EVENT_KEYPRESS\<rparr> = zero_event"
    by (simp_all add: demo_window_def zero_event_def)
  ultimately show ?thesis
    using key_reaches_focused_window [of ?k "demo_window 2 True" demo_kb "0x1E" 97 zero_event zero_registers] zero_queue_ok
    by (auto simp: scancodes)
qed

theorem shift_enter_overruns_input_witness:
  "\<exists>kb' k'. keyboard_handler_main zero_event SCANCODE_ENTER zero_registers
      (demo_kb\<lparr>shift_held := True\<rparr>, (demo_keys True)\<lparr>k_stdin := zero_stdin\<lparr>s_count := 256\<rparr>\<rparr>) = Some (zero_registers, kb', k')
    \<and> s_count (k_stdin k') = 257"
proof -
  let ?k = "(demo_keys True)\<lparr>k_stdin := zero_stdin\<lparr>s_count := 256\<rparr>\<rparr>"
  have "terminal_focused ?k = Some True" using demo_keys_terminal(1) [of True] by (simp add: terminal_focused_def)
  moreover have "stdin_ok (k_stdin ?k)" by (simp add: zero_stdin_def stdin_ok_def)
  ultimately show ?thesis
    using shift_enter_overruns_input [of ?k "demo_kb\<lparr>shift_held := True\<rparr>" zero_event zero_registers]
      demo_keys_terminal(2-4) [of True] by auto
qed

theorem enter_wakes_reader_witness:
  "\<exists>kb' k' p. keyboard_handler_main zero_event SCANCODE_ENTER zero_registers (demo_kb, demo_keys True)
      = Some (zero_registers, kb', k')
    \<and> proc_at 0x102000 k' = Some p \<and> p_status p = READY \<and> r_eax (p_registers p) = 2 \<and> pending (k_stdin k') = []"
proof -
  let ?k = "demo_keys True" and ?p = "(demo_pcb 0x102000 3 WAITING 4)\<lparr>p_directory := 0x1000\<rparr>"
  have t: "translate m 0x1000 v = Some (0x3000 OR (v AND 0xFFF))"
    if "m 0x1000 0 = 0x2007" "m 0x2000 0 = 0x3007" "v = 0 \<or> v = 1" for m v
    using that by (auto simp: translate_def walk_def pdi_def pti_def table_of_def)
  have "p_directory ?p = 0x1000" "r_ecx (p_registers ?p) = 0" by (simp_all add: demo_pcb_def zero_registers_def)
  moreover have "\<exists>m. store_bytes 0x1000 0 [108, 115] (k_vm ?k) = Some m"
    by (simp add: demo_keys_def demo_kernel_def store_byte_def t set_entry_def table_of_def Let_def)
  moreover have "proc_at 0x102000 ?k = Some ?p" "current ?k = Some (demo_pcb 0x101000 1 RUNNING 0)"
      "p_status (demo_pcb 0x101000 1 RUNNING 0) \<noteq> ZOMBIE" "current_process ?k = 0x101000" "k_stdin ?k = demo_input"
    by (simp_all add: proc_at_def current_def demo_keys_def demo_kernel_def demo_pcb_def)
  moreover have "s_count demo_input = 2" "requested_len demo_input = 10" "wait_process demo_input = 0x102000"
    by (simp_all add: demo_input_def)
  ultimately show ?thesis
    using enter_wakes_reader [of ?k demo_kb "demo_pcb 0x101000 1 RUNNING 0" "0x102000" ?p "[108, 115]" _ zero_event zero_registers]
      demo_keys_terminal [of True] demo_input_ok by (auto simp: CH_BS_def CH_NL_def)
qed

end
