(* ===== verification/StatusBar.thy ===== *)
theory StatusBar
  imports SyscallLaws
begin

text \<open>
  The status bar at the top of the screen, \<^verbatim>\<open>kernel-space/lib/status-bar.c\<close>: used and free
  heap, frames, processes, windows and the uptime, printed with the string library into small
  buffers and drawn. \<^verbatim>\<open>get_heap_status\<close> is in \<open>Kmalloc\<close>. The buffer on the stack comes
  with whatever it held before.
\<close>

section \<open>Model\<close>

definition STATUS_BAR_MID :: int where "STATUS_BAR_MID = 12"
definition STATUS_BAR_PADDING :: int where "STATUS_BAR_PADDING = 12"
definition DUMP_START :: int where "DUMP_START = 100"
definition DUMP_SPACE :: int where "DUMP_SPACE = 150"
definition STATUS_DATA_OFFSET :: int where "STATUS_DATA_OFFSET = 55"
definition STATUS_BAR_START :: int where "STATUS_BAR_START = 30"
definition TIMER_FREQ :: u32 where "TIMER_FREQ = 100"
definition BRIGHT_BLUE :: u8 where "BRIGHT_BLUE = 0x09"
definition LIGHT_GRAY :: u8 where "LIGHT_GRAY = 0x07"
definition BRIGHT_GREEN :: u8 where "BRIGHT_GREEN = 0x0A"

function frame_status_loop :: "nat \<Rightarrow> bitmap \<Rightarrow> nat option" where
  "frame_status_loop i bm =
     (case test_frame i bm of
        None \<Rightarrow> None
      | Some True \<Rightarrow> frame_status_loop (Suc i) bm
      | Some False \<Rightarrow> Some i)"
  by pat_completeness auto
termination
  by (relation "measure (\<lambda>(i, bm). 32 * length bm - i)") (auto simp: test_frame_def split: if_splits)

declare frame_status_loop.simps [simp del]

definition get_frame_status :: "bitmap \<Rightarrow> nat option" where
  "get_frame_status bm = frame_status_loop 0 bm"

definition get_processes_status :: "kernel \<Rightarrow> int" where
  "get_processes_status k = sint (of_nat (length (procs k)) :: u32)"

definition get_uptime_seconds :: "os \<Rightarrow> u32" where
  "get_uptime_seconds s = timer_ticks s div TIMER_FREQ"

definition put_int :: "u8 list \<Rightarrow> int \<Rightarrow> u8 \<Rightarrow> u8 list option" where
  "put_int buf i v = (if i < 0 then None else put buf (nat i) v)"

text \<open>\<^verbatim>\<open>itos\<close>, and the last three digits replaced by a K.\<close>

definition kilo_text :: "u8 list \<Rightarrow> int \<Rightarrow> u8 list option" where
  "kilo_text buf data =
     do {
       buf \<leftarrow> itos buf data;
       size \<leftarrow> strlen buf;
       buf \<leftarrow> put_int buf (int size - 3) 75;
       put_int buf (int size - 2) 0
     }"

text \<open>The contents of \<^verbatim>\<open>status[4]\<close> to \<^verbatim>\<open>status[7]\<close>, and the buffer after them.\<close>

definition fill_status :: "u8 list \<Rightarrow> os \<Rightarrow> u8 list list \<Rightarrow> (u8 list list \<times> u8 list) option" where
  "fill_status buf s status =
     do {
       let k = os_kernel s;
       used \<leftarrow> get_heap_status (wm_heap (k_wm k));
       let data = sint used;
       buf \<leftarrow> kilo_text buf data;
       s4 \<leftarrow> get status 4;
       s4 \<leftarrow> strcpy s4 buf;
       buf \<leftarrow> kilo_text buf (sint HEAP_SIZE - data);
       s4 \<leftarrow> strcat s4 [47, 0];
       s4 \<leftarrow> strcat s4 buf;
       data \<leftarrow> get_frame_status (frames (k_vm k));
       buf \<leftarrow> itos buf (int data);
       s5 \<leftarrow> get status 5;
       s5 \<leftarrow> strcpy s5 buf;
       buf \<leftarrow> itos buf (int NUM_FRAMES - int data);
       s5 \<leftarrow> strcat s5 [47, 0];
       s5 \<leftarrow> strcat s5 buf;
       buf \<leftarrow> itos buf (get_processes_status k);
       s6 \<leftarrow> get status 6;
       s6 \<leftarrow> strcpy s6 buf;
       buf \<leftarrow> itos buf (sint (window_count (k_wm k)));
       s7 \<leftarrow> get status 7;
       s7 \<leftarrow> strcpy s7 buf;
       Some (status[4 := s4, 5 := s5, 6 := s6, 7 := s7], buf)
     }"

definition status_labels :: "u8 list list" where
  "status_labels = [[72, 69, 65, 80, 0], [70, 82, 77, 83, 0], [80, 73, 68, 83, 0], [87, 73, 78, 83, 0]]"

definition draw_field :: "u8 list list \<Rightarrow> nat \<Rightarrow> vga \<Rightarrow> vga option" where
  "draw_field status i v =
     (let x = DUMP_START + DUMP_SPACE * int i - (if i = 3 then 80 else 0) in do {
        label \<leftarrow> get status i;
        value \<leftarrow> get status (i + 4);
        v \<leftarrow> vga_draw_string x STATUS_BAR_MID [124, 0] LIGHT_GRAY v;
        v \<leftarrow> vga_draw_string (x + STATUS_BAR_PADDING) STATUS_BAR_MID label LIGHT_GRAY v;
        vga_draw_string (x + STATUS_DATA_OFFSET) STATUS_BAR_MID value BRIGHT_GREEN v
      })"

definition draw_status_bar :: "u8 list \<Rightarrow> os \<Rightarrow> u8 list list \<Rightarrow> vga \<Rightarrow> (u8 list list \<times> vga) option" where
  "draw_status_bar buf s status v =
     do {
       v \<leftarrow> vga_draw_rect 0 0 (sint (scr_w v)) STATUS_BAR_HEIGHT 0x11 v;
       v \<leftarrow> vga_draw_string STATUS_BAR_START STATUS_BAR_MID [65, 68, 65, 77, 79, 83, 0] BRIGHT_BLUE v;
       let status = status_labels @ drop 4 status;
       (status, buf) \<leftarrow> fill_status buf s status;
       v \<leftarrow> foldM (draw_field status) [0..<4] v;
       buf \<leftarrow> itos buf (sint (get_uptime_seconds s));
       buf \<leftarrow> strcat buf [115, 0];
       len \<leftarrow> strlen buf;
       v \<leftarrow> vga_draw_string (sint (scr_pitch v - 30 - of_nat len * font_col)) STATUS_BAR_MID buf BRIGHT_GREEN v;
       Some (status, v)
     }"

text \<open>\<^verbatim>\<open>init_status_bar\<close>: eight blocks of the heap, here with their old contents.\<close>

definition init_status_bar :: "u8 list list \<Rightarrow> kheap \<Rightarrow> (u8 list list \<times> kheap) option" where
  "init_status_bar old h =
     foldM (\<lambda>i (status, h). do {
         (p, h) \<leftarrow> kmalloc 20 h;
         if p = 0 then None
         else Some (status @ [take 20 (old ! i @ replicate 20 0)], h) }) [0..<8] ([], h)"

section \<open>The texts\<close>

lemma itos_fits:
  assumes "0 \<le> n" "length (decimal (nat n)) < length buf"
  shows "itos buf n = Some (decimal (nat n) @ 0 # drop (Suc (length (decimal (nat n)))) buf)"
proof -
  let ?d = "decimal (nat n)"
  have l: "length (digits 10 (nat n)) = length ?d" by (simp add: decimal_def)
  obtain c r where r: "drop (length ?d) buf = c # r"
    using assms(2) by (cases "drop (length ?d) buf") auto
  have loop: "itos_loop (nat n) 0 buf = Some (length ?d, rev ?d @ c # r)"
    using itos_loop_spec [of "nat n" buf "[]" 0] assms(2) r unfolding l by simp
  have "itos buf n = strrev (rev ?d @ 0 # r)"
    using loop assms(1) put_append [of "rev ?d" c r 0] by (simp add: itos_def)
  moreover have "terminated (rev ?d @ 0 # r)" by (simp add: terminated_def)
  moreover have "text_of (rev ?d @ 0 # r) = rev ?d" by (rule text_of_append) (simp add: decimal_nonzero)
  ultimately have "itos buf n = Some (?d @ 0 # r)" by (simp add: strrev_text)
  moreover have "r = drop (Suc (length ?d)) buf" using r by (metis drop_Suc_Cons drop_0 drop_drop plus_1_eq_Suc)
  ultimately show ?thesis by simp
qed

lemma decimal_div:
  assumes "10 \<le> n"
  shows "decimal n = decimal (n div 10) @ [dec_digit (n mod 10)]"
  using assms by (subst (1) decimal_def, subst digits.simps) (simp add: decimal_def)

lemma decimal_kilo: "1000 \<le> n \<Longrightarrow> \<exists>a b c. decimal n = decimal (n div 1000) @ [a, b, c]"
  using decimal_div [of n] decimal_div [of "n div 10"] decimal_div [of "n div 10 div 10"] by (auto simp: div_mult2_eq [symmetric])

text \<open>From 1000 bytes on the text is the number of thousands, with a K behind it.\<close>

lemma kilo_text_prints:
  assumes "1000 \<le> n" "length (decimal (nat n)) < length buf"
  shows "\<exists>r. kilo_text buf n = Some (decimal (nat n div 1000) @ 75 # 0 # r) \<and> length r + length (decimal (nat n div 1000)) + 2 = length buf"
proof -
  obtain a b c where d: "decimal (nat n) = decimal (nat n div 1000) @ [a, b, c]"
    using decimal_kilo [of "nat n"] assms(1) by (auto simp: nat_le_eq_zle le_nat_iff)
  let ?t = "decimal (nat n div 1000)" and ?r = "drop (Suc (length (decimal (nat n)))) buf"
  have i: "itos buf n = Some (?t @ a # b # c # 0 # ?r)" using itos_fits [of n buf] assms d by simp
  have nz: "0 \<notin> set (?t @ [a, b, c])" using decimal_nonzero [of "nat n"] d by simp
  have "text_of ((?t @ [a, b, c]) @ 0 # ?r) = ?t @ [a, b, c]" by (rule text_of_append [OF nz])
  then have s: "strlen (?t @ a # b # c # 0 # ?r) = Some (length ?t + 3)"
    using strlen_text [of "(?t @ [a, b, c]) @ 0 # ?r"] by (simp add: terminated_def)
  have "kilo_text buf n = Some (?t @ 75 # 0 # c # 0 # ?r)"
    using put_append [of ?t a "b # c # 0 # ?r" 75] put_append [of "?t @ [75]" b "c # 0 # ?r" 0]
    by (simp add: kilo_text_def i s put_int_def nat_add_distrib del: put_append)
  moreover have "length ?r + 5 + length ?t = length buf + 1" using assms(2) unfolding d by simp
  ultimately show ?thesis by (intro exI [of _ "c # 0 # ?r"]) simp
qed

lemma frame_status_first:
  assumes "bitmap_ok bm" "i \<le> j" "j < NUM_FRAMES" "\<forall>k. i \<le> k \<and> k < j \<longrightarrow> k \<in> used bm" "j \<notin> used bm"
  shows "frame_status_loop i bm = Some j"
  using assms(2-)
proof (induction "j - i" arbitrary: i)
  case 0
  then have "i = j" by simp
  then show ?case using assms(1) 0 by (subst frame_status_loop.simps) simp
next
  case (Suc d)
  then have "i < j" "i \<in> used bm" by auto
  moreover from this have "frame_status_loop (Suc i) bm = Some j" using Suc by (intro Suc.hyps(1)) auto
  ultimately show ?case using assms(1) Suc.prems(2) by (subst frame_status_loop.simps) simp
qed

lemma strcpy_fits: "0 \<notin> set t \<Longrightarrow> length t < length d \<Longrightarrow> strcpy d (t @ 0 # r) = Some (t @ 0 # drop (Suc (length t)) d)"
  using strcpy_text [of "t @ 0 # r" d] text_of_append [of t r] by (simp add: terminated_def)

lemma strcat_fits:
  "0 \<notin> set t \<Longrightarrow> 0 \<notin> set u \<Longrightarrow> length u \<le> length q
    \<Longrightarrow> strcat (t @ 0 # q) (u @ 0 # r) = Some ((t @ u) @ 0 # drop (length u) q)"
  using strcat_text [of "t @ 0 # q" "u @ 0 # r"] text_of_append [of t q] text_of_append [of u r]
  by (simp add: terminated_def)

lemma decimal_length: "n < 10 ^ k \<Longrightarrow> 0 < k \<Longrightarrow> length (decimal n) \<le> k"
  using length_digits [of 10 n k] by (simp add: decimal_def)

lemma kilo_length: "n < 10 ^ 7 \<Longrightarrow> length (decimal (n div 1000)) \<le> 4"
  by (rule decimal_length) simp_all

text \<open>A field that shows a number next to what is left of the total.\<close>

lemma two_numbers:
  assumes "0 \<notin> set t" "0 \<notin> set u" "length t + length u + 1 < length d"
  obtains a b r' where "strcpy d (t @ 0 # r) = Some a" "strcat a [47, 0] = Some b"
    "strcat b (u @ 0 # q) = Some ((t @ 47 # u) @ 0 # r')"
proof -
  have slash: "0 \<notin> set [47 :: u8]" by simp
  have "strcpy d (t @ 0 # r) = Some (t @ 0 # drop (Suc (length t)) d)" using assms by (intro strcpy_fits) simp_all
  moreover have "strcat (t @ 0 # drop (Suc (length t)) d) ([47] @ 0 # []) = Some ((t @ [47]) @ 0 # drop (length [47 :: u8]) (drop (Suc (length t)) d))"
    using assms slash by (intro strcat_fits) simp_all
  moreover have "strcat ((t @ [47]) @ 0 # drop (length [47 :: u8]) (drop (Suc (length t)) d)) (u @ 0 # q)
      = Some (((t @ [47]) @ u) @ 0 # drop (length u) (drop (length [47 :: u8]) (drop (Suc (length t)) d)))"
    using assms slash by (intro strcat_fits) auto
  ultimately show thesis by (intro that) simp_all
qed

lemma itos_fit10:
  assumes "length b = 10" "n < 10 ^ 8"
  obtains r where "itos b (int n) = Some (decimal n @ 0 # r)" "length (decimal n @ 0 # r) = 10"
proof -
  have "length (decimal n) \<le> 8" using assms(2) by (intro decimal_length) simp_all
  then show thesis
    using itos_fits [of "int n" b] assms(1) by (intro that [of "drop (Suc (length (decimal n))) b"]) simp_all
qed

lemma text_of_zero: "0 \<notin> set t \<Longrightarrow> text_of (t @ 0 # r) = t \<and> terminated (t @ 0 # r)"
  by (simp add: text_of_append terminated_def)

lemma sint_of_small: "n < 10 ^ 8 \<Longrightarrow> sint (of_nat n :: u32) = int n"
  by (subst sint_small) simp_all

lemma fill_status_spec:
  assumes heap: "get_heap_status (wm_heap (k_wm (os_kernel s))) = Some u" "1000 \<le> unat u" "unat u \<le> 0x300000 - 1000"
    and frames: "bitmap_ok (frames (k_vm (os_kernel s)))" "j < NUM_FRAMES" "j \<notin> used (frames (k_vm (os_kernel s)))"
      "{..<j} \<subseteq> used (frames (k_vm (os_kernel s)))"
    and procs: "length (procs (os_kernel s)) < 10 ^ 8" and wins: "length (windows (k_wm (os_kernel s))) < 10 ^ 8"
    and bufs: "length buf = 10" "length status = 8" "\<forall>x \<in> set (drop 4 status). length x = 20"
  shows "\<exists>st b. fill_status buf s status = Some (take 4 status @ st, b) \<and> length b = 10 \<and> (\<forall>x \<in> set st. terminated x)
    \<and> map text_of st = [decimal (unat u div 1000) @ [75, 47] @ decimal ((0x300000 - unat u) div 1000) @ [75],
        decimal j @ [47] @ decimal (NUM_FRAMES - j), decimal (length (procs (os_kernel s))),
        decimal (length (windows (k_wm (os_kernel s))))]"
proof -
  let ?np = "length (procs (os_kernel s))" and ?nw = "length (windows (k_wm (os_kernel s)))"
  obtain s0 s1 s2 s3 s4 s5 s6 s7 where st: "status = [s0, s1, s2, s3, s4, s5, s6, s7]"
    using bufs(2) by (auto simp: length_Suc_conv eval_nat_numeral)
  have l: "length s4 = 20" "length s5 = 20" "length s6 = 20" "length s7 = 20" using bufs(3) by (simp_all add: st)
  define un where "un = unat u"
  have un: "1000 \<le> un" "un \<le> 0x300000 - 1000" using heap(2,3) by (simp_all add: un_def)
  have used: "sint u = int un" "nat (int un) = un" using un(2) by (simp_all add: sint_small un_def)
  have free: "sint HEAP_SIZE - int un = int (0x300000 - un)" using un by (simp add: HEAP_SIZE_def)
  obtain r1 where k1: "kilo_text buf (sint u) = Some ((decimal (un div 1000) @ [75]) @ 0 # r1)"
      "length r1 + length (decimal (un div 1000)) + 2 = 10"
    using kilo_text_prints [of "int un" buf] un bufs(1) decimal_length [of un 7] unfolding used by auto
  let ?b1 = "(decimal (un div 1000) @ [75]) @ 0 # r1"
  have b1: "length ?b1 = 10" using k1(2) by simp
  have "length (decimal (0x300000 - un)) \<le> 7" by (rule decimal_length) simp_all
  then obtain r2 where k2: "kilo_text ?b1 (sint HEAP_SIZE - sint u) = Some ((decimal ((0x300000 - un) div 1000) @ [75]) @ 0 # r2)"
      "length r2 + length (decimal ((0x300000 - un) div 1000)) + 2 = 10"
    using kilo_text_prints [of "int (0x300000 - un)" ?b1] un b1 unfolding used(1) free nat_int by auto
  let ?b2 = "(decimal ((0x300000 - un) div 1000) @ [75]) @ 0 # r2"
  have b2: "length ?b2 = 10" using k2(2) by simp
  have fr: "get_frame_status (frames (k_vm (os_kernel s))) = Some j"
    unfolding get_frame_status_def using frames by (intro frame_status_first) auto
  obtain r3 where i3: "itos ?b2 (int j) = Some (decimal j @ 0 # r3)" "length (decimal j @ 0 # r3) = 10"
    by (rule itos_fit10 [OF b2, of j]) (use frames(2) in \<open>auto simp: NUM_FRAMES_eq\<close>)
  obtain r4 where i4: "itos (decimal j @ 0 # r3) (int (NUM_FRAMES - j)) = Some (decimal (NUM_FRAMES - j) @ 0 # r4)"
      "length (decimal (NUM_FRAMES - j) @ 0 # r4) = 10"
    by (rule itos_fit10 [OF i3(2), of "NUM_FRAMES - j"]) (auto simp: NUM_FRAMES_eq)
  have rest: "int NUM_FRAMES - int j = int (NUM_FRAMES - j)" using frames(2) by simp
  obtain r5 where i5: "itos (decimal (NUM_FRAMES - j) @ 0 # r4) (int ?np) = Some (decimal ?np @ 0 # r5)"
      "length (decimal ?np @ 0 # r5) = 10"
    by (rule itos_fit10 [OF i4(2) procs])
  obtain r6 where i6: "itos (decimal ?np @ 0 # r5) (int ?nw) = Some (decimal ?nw @ 0 # r6)" "length (decimal ?nw @ 0 # r6) = 10"
    by (rule itos_fit10 [OF i5(2) wins])
  have pw: "get_processes_status (os_kernel s) = int ?np" "sint (window_count (k_wm (os_kernel s))) = int ?nw"
    using procs wins by (simp_all add: get_processes_status_def window_count_def sint_of_small)
  have K: "75 \<noteq> (0 :: u8)" "47 \<noteq> (0 :: u8)" by simp_all
  have nz: "0 \<notin> set (decimal n @ [75])" for n using decimal_nonzero K by simp
  have len1: "length (decimal (un div 1000)) \<le> 4" "length (decimal ((0x300000 - un) div 1000)) \<le> 4"
    using un by (intro kilo_length, simp)+
  have len2: "length (decimal j) \<le> 5" "length (decimal (NUM_FRAMES - j)) \<le> 5"
    using frames(2) by (intro decimal_length; simp add: NUM_FRAMES_eq)+
  define t4 t5 where "t4 = (decimal (un div 1000) @ [75]) @ 47 # (decimal ((0x300000 - un) div 1000) @ [75])"
    and "t5 = decimal j @ 47 # decimal (NUM_FRAMES - j)"
  obtain a4 b4 d4 where x4: "strcpy s4 ?b1 = Some a4" "strcat a4 [47, 0] = Some b4" "strcat b4 ?b2 = Some (t4 @ 0 # d4)"
    unfolding t4_def by (rule two_numbers [OF nz nz]) (use len1 l in auto)
  obtain a5 b5 d5 where x5: "strcpy s5 (decimal j @ 0 # r3) = Some a5" "strcat a5 [47, 0] = Some b5"
      "strcat b5 (decimal (NUM_FRAMES - j) @ 0 # r4) = Some (t5 @ 0 # d5)"
    unfolding t5_def by (rule two_numbers [OF decimal_nonzero decimal_nonzero]) (use len2 l in auto)
  have len3: "length (decimal ?np) < 20" "length (decimal ?nw) < 20" using i5(2) i6(2) by simp_all
  obtain d6 where x6: "strcpy s6 (decimal ?np @ 0 # r5) = Some (decimal ?np @ 0 # d6)"
    using strcpy_fits [OF decimal_nonzero, of ?np s6 r5] len3 l by simp
  obtain d7 where x7: "strcpy s7 (decimal ?nw @ 0 # r6) = Some (decimal ?nw @ 0 # d7)"
    using strcpy_fits [OF decimal_nonzero, of ?nw s7 r6] len3 l by simp
  have g: "get status 4 = Some s4" "get status 5 = Some s5" "get status 6 = Some s6" "get status 7 = Some s7"
    by (simp_all add: st get_def)
  have fill: "fill_status buf s status
      = Some (take 4 status @ [t4 @ 0 # d4, t5 @ 0 # d5, decimal ?np @ 0 # d6, decimal ?nw @ 0 # d7], decimal ?nw @ 0 # r6)"
    unfolding fill_status_def Let_def heap(1) g bind.bind_lunit k1(1) x4 k2(1) fr i3(1) x5 rest i4(1) pw i5(1) x6 i6(1) x7
    by (simp add: st)
  have texts: "text_of (x @ 0 # r) = x" "terminated (x @ 0 # r)" if "x \<in> {t4, t5, decimal ?np, decimal ?nw}" for x r
  proof -
    have "0 \<notin> set x" using that decimal_nonzero K by (auto simp: t4_def t5_def)
    from text_of_zero [OF this] show "text_of (x @ 0 # r) = x" "terminated (x @ 0 # r)" by blast+
  qed
  show ?thesis unfolding fill
    by (intro exI [of _ "[t4 @ 0 # d4, t5 @ 0 # d5, decimal ?np @ 0 # d6, decimal ?nw @ 0 # d7]"] exI [of _ "decimal ?nw @ 0 # r6"])
      (use i6(2) in \<open>simp add: texts\<close>, simp add: t4_def t5_def un_def)
qed


section \<open>The bytes in use\<close>

definition heap_used :: "blk list \<Rightarrow> nat" where
  "heap_used bs = (\<Sum>(a, s, f) \<leftarrow> bs. if f then 0 else unat s)"

lemma heap_used_simps [simp]:
  "heap_used [] = 0" "heap_used ((a, s, f) # bs) = (if f then 0 else unat s) + heap_used bs"
  by (simp_all add: heap_used_def)

lemma spaced_used: "spaced lo bs \<Longrightarrow> lo + 12 * length bs + heap_used bs \<le> unat HEAP_END"
proof (induction bs arbitrary: lo)
  case (Cons b bs)
  obtain a s f where b: "b = (a, s, f)" by (cases b)
  with Cons have "lo \<le> unat a" "unat a + 12 + unat s + 12 * length bs + heap_used bs \<le> unat HEAP_END" by simp_all
  then show ?case by (simp add: b)
qed simp

lemma heap_status_chain:
  "chain m p bs \<Longrightarrow> unat acc + heap_used bs < 2 ^ 32
    \<Longrightarrow> heap_status_loop p acc m = Some (acc + of_nat (heap_used bs))"
proof (induction bs arbitrary: p acc)
  case Nil
  then show ?case by (simp add: heap_status_loop.simps)
next
  case (Cons b bs)
  obtain a s f where b: "b = (a, s, f)" by (cases b)
  with Cons.prems obtain h where h: "p = a" "a \<noteq> 0" "m a = Some h" "h_size h = s" "h_free h = f" "chain m (h_next h) bs"
    by (auto split: option.splits)
  let ?d = "if f then 0 else s"
  have le: "unat acc + unat ?d < 2 ^ 32" using Cons.prems(2) by (cases f) (simp_all add: b)
  then have "unat (acc + ?d) = unat acc + unat ?d" by (subst unat_add_lem [THEN iffD1]) simp_all
  then have "heap_status_loop (h_next h) (acc + ?d) m = Some (acc + ?d + of_nat (heap_used bs))"
    using Cons.prems(2) by (intro Cons.IH [OF h(6)]) (cases f; simp add: b)
  moreover have "heap_status_loop p acc m = heap_status_loop (h_next h) (acc + ?d) m"
    using h by (subst heap_status_loop.simps) simp
  ultimately show ?case by (simp add: b)
qed

lemma heap_status_sum:
  assumes "heap_inv k bs"
  shows "\<exists>u. get_heap_status k = Some u \<and> unat u = heap_used bs"
proof -
  have "heap_used bs \<le> unat HEAP_END" using assms spaced_used [of "unat HEAP_START" bs] by (simp add: heap_inv_def)
  then have lt: "heap_used bs < 2 ^ 32" by (simp add: HEAP_END_unat)
  then have "get_heap_status k = Some (of_nat (heap_used bs))"
    using assms heap_status_chain [of "headers k" "heap_head_ptr k" bs 0] by (simp add: get_heap_status_def heap_inv_def)
  moreover have "unat (of_nat (heap_used bs) :: u32) = heap_used bs" using lt by (simp add: take_bit_nat_eq_self unsigned_of_nat)
  ultimately show ?thesis by blast
qed

section \<open>Properties\<close>


definition demo_heap_blocks :: "blk list" where
  "demo_heap_blocks = [(0x100000, 2500, False), (0x1009D0, 100, True)]"

definition demo_bar :: os where
  "demo_bar = demo_os\<lparr>os_kernel := (os_kernel demo_os)\<lparr>
     k_wm := demo_desk\<lparr>wm_heap := \<lparr>heap_head_ptr = 0x100000,
       headers = [0x100000 \<mapsto> \<lparr>h_size = 2500, h_free = False, h_next = 0x1009D0\<rparr>,
                  0x1009D0 \<mapsto> \<lparr>h_size = 100, h_free = True, h_next = 0\<rparr>]\<rparr>\<rparr>,
     k_vm := (k_vm (os_kernel demo_os))\<lparr>frames := replicate 1024 0\<rparr>\<rparr>\<rparr>"

lemma decimal_rec: "decimal n = (if n < 10 then [dec_digit n] else decimal (n div 10) @ [dec_digit (n mod 10)])"
  using decimal_div [of n] by (simp add: decimal_def digits.simps [of _ n])


end
