(* ===== verification/Desktop.thy ===== *)
theory Desktop
  imports StatusBar Keyboard
begin

text \<open>
  The desktop, \<^verbatim>\<open>kernel-space/lib/desktop.c\<close>, and what the timer interrupt does with
  everything below it: the icons, the programs they start, \<^verbatim>\<open>wm_composite\<close> and
  \<^verbatim>\<open>update_window\<close> of \<^verbatim>\<open>kernel/window.c\<close>, and
  \<^verbatim>\<open>timer_handler_main\<close> of \<^verbatim>\<open>drivers/timer.c\<close>. The state is that of the whole
  machine.
\<close>

section \<open>Model\<close>

definition ICON_BITMAP_SIZE :: nat where "ICON_BITMAP_SIZE = 16"
definition ICON_SCALE :: nat where "ICON_SCALE = 3"
definition ICON_RENDER_SIZE :: nat where "ICON_RENDER_SIZE = ICON_BITMAP_SIZE * ICON_SCALE"
definition ICON_SPACING_Y :: int where "ICON_SPACING_Y = 64"
definition ICON_START_X :: int where "ICON_START_X = 730"
definition ICON_START_Y :: int where "ICON_START_Y = 50"
definition ICON_LABEL_GAP :: int where "ICON_LABEL_GAP = 3"
definition MAX_DESKTOP_ICONS :: nat where "MAX_DESKTOP_ICONS = 8"
definition BLACK :: u8 where "BLACK = 0x00"

record desktop_icon =
  i_x :: int
  i_y :: int
  i_label :: "u8 list"
  i_program :: "u8 list"
  i_color :: u8
  i_bitmap :: "u16 list"

record desktop =
  desktop_pending_launch :: "u8 list"
  desktop_icons :: "desktop_icon list"
  desktop_icon_count :: nat

definition desktop_start :: desktop where
  "desktop_start = \<lparr>desktop_pending_launch = replicate 12 0,
     desktop_icons = replicate MAX_DESKTOP_ICONS
       \<lparr>i_x = 0, i_y = 0, i_label = replicate 12 0, i_program = replicate 12 0, i_color = 0, i_bitmap = replicate 16 0\<rparr>,
     desktop_icon_count = 0\<rparr>"

definition bmp_tetris :: "u16 list" where
  "bmp_tetris =
    [0x0000, 0x0000, 0x0FF0, 0x0FF0, 0x0FF0, 0x03C0, 0x03C0, 0x03C0,
     0x03C0, 0x03C0, 0x03C0, 0x0000, 0x0000, 0x0000, 0x0000, 0x0000]"

definition bmp_calc :: "u16 list" where
  "bmp_calc =
    [0x0000, 0x7FFE, 0x6006, 0x6186, 0x6186, 0x6186, 0x67E6, 0x67E6,
     0x6186, 0x6186, 0x6186, 0x6006, 0x7FFE, 0x0000, 0x0000, 0x0000]"

definition add_icon :: "u8 list \<Rightarrow> u8 list \<Rightarrow> u8 \<Rightarrow> u16 list \<Rightarrow> desktop \<Rightarrow> desktop option" where
  "add_icon label program color bitmap d =
     (if desktop_icon_count d \<ge> MAX_DESKTOP_ICONS then Some d
      else do {
        icon \<leftarrow> get (desktop_icons d) (desktop_icon_count d);
        let icon = icon\<lparr>i_x := ICON_START_X, i_y := ICON_START_Y + int (desktop_icon_count d) * ICON_SPACING_Y\<rparr>;
        l \<leftarrow> strcpy (i_label icon) label;
        p \<leftarrow> strcpy (i_program icon) program;
        let icon = icon\<lparr>i_label := l, i_program := p, i_color := color, i_bitmap := bitmap\<rparr>;
        Some (d\<lparr>desktop_icons := (desktop_icons d)[desktop_icon_count d := icon],
                desktop_icon_count := desktop_icon_count d + 1\<rparr>)
      })"

definition init_desktop_icons :: "desktop \<Rightarrow> desktop option" where
  "init_desktop_icons d =
     do {
       let d = d\<lparr>desktop_icon_count := 0\<rparr>;
       d \<leftarrow> add_icon [84, 101, 116, 114, 105, 115, 0] [84, 69, 84, 82, 73, 83, 0] BLACK bmp_tetris d;
       add_icon [67, 97, 108, 99, 0] [67, 65, 76, 67, 0] BLACK bmp_calc d
     }"

definition draw_icon :: "desktop_icon \<Rightarrow> vga \<Rightarrow> vga option" where
  "draw_icon icon =
     foldM (\<lambda>row v. do {
         bits \<leftarrow> get (i_bitmap icon) row;
         foldM (\<lambda>col.
             let color = (if bits AND drop_bit col 0x8000 \<noteq> 0 then i_color icon else WHITE);
                 px = i_x icon + int (col * ICON_SCALE);
                 py = i_y icon + int (row * ICON_SCALE)
             in foldM (\<lambda>sy. foldM (\<lambda>sx. vga_put_pixel (px + int sx) (py + int sy) color) [0..<ICON_SCALE])
                  [0..<ICON_SCALE]) [0..<ICON_BITMAP_SIZE] v }) [0..<ICON_BITMAP_SIZE]"

definition draw_desktop_icons :: "desktop \<Rightarrow> vga \<Rightarrow> vga option" where
  "draw_desktop_icons d =
     foldM (\<lambda>i v. do { icon \<leftarrow> get (desktop_icons d) i; draw_icon icon v }) [0..<desktop_icon_count d]"

definition icon_hit :: "mouse \<Rightarrow> desktop_icon \<Rightarrow> bool" where
  "icon_hit m icon =
     (let hit_w = int ICON_RENDER_SIZE + 16; hit_h = int ICON_RENDER_SIZE + ICON_LABEL_GAP + 10
      in mouse_x m \<ge> i_x icon \<and> mouse_x m < i_x icon + hit_w \<and> mouse_y m \<ge> i_y icon \<and> mouse_y m < i_y icon + hit_h)"

definition handle_icon_click :: "mouse \<Rightarrow> desktop \<Rightarrow> (bool \<times> desktop) option" where
  "handle_icon_click m d =
     do {
       first \<leftarrow> get (desktop_pending_launch d) 0;
       if first \<noteq> 0 then Some (False, d)
       else
         (case find (icon_hit m) (take (desktop_icon_count d) (desktop_icons d)) of
            None \<Rightarrow> Some (False, d)
          | Some icon \<Rightarrow> do {
              p \<leftarrow> strcpy (desktop_pending_launch d) (i_program icon);
              Some (True, d\<lparr>desktop_pending_launch := p\<rparr>) })
     }"

text \<open>
  The program that an icon starts is a page of machine code put together by hand: the system call
  \<^verbatim>\<open>exec\<close> with the name behind it, and \<^verbatim>\<open>exit\<close> when that returns.
\<close>

definition SYSCALL_EXIT :: u8 where "SYSCALL_EXIT = 1"
definition SYSCALL_EXEC :: u8 where "SYSCALL_EXEC = 11"

definition name_offset :: u32 where "name_offset = 128"
definition arg_offset :: u32 where "arg_offset = 192"

definition little_endian :: "u32 \<Rightarrow> u8 list" where
  "little_endian a = map (\<lambda>n. ucast (drop_bit n a AND 0xFF)) [0, 8, 16, 24]"

definition stub_code :: "u8 list" where
  "stub_code =
     (let name_addr = USER_FUNC_VADDR + name_offset; arg_addr = USER_FUNC_VADDR + arg_offset in
      [0xB8, SYSCALL_EXEC, 0x00, 0x00, 0x00] @ (0xB9 # little_endian name_addr) @ (0xBA # little_endian arg_addr)
      @ [0xCD, 0x80] @ [0xB8, SYSCALL_EXIT, 0x00, 0x00, 0x00] @ [0xCD, 0x80])"

definition launch_stub :: "u8 list \<Rightarrow> u8 list option" where
  "launch_stub filename =
     do {
       let stub = replicate PAGE_SIZE (0 :: u8);
       name \<leftarrow> strcpy (drop (unat name_offset) stub) filename;
       let stub = take (unat name_offset) stub @ name;
       stub \<leftarrow> put stub (unat arg_offset) 0;
       Some (stub_code @ drop (length stub_code) stub)
     }"

definition desktop_spawn_program ::
  "u32 \<Rightarrow> nat \<Rightarrow> pcb \<Rightarrow> u32 \<Rightarrow> u8 list \<Rightarrow> kernel \<Rightarrow> kernel option" where
  "desktop_spawn_program fb_start fb_pages stale eflags filename k =
     do {
       (stub, k) \<leftarrow> k_kmalloc (of_nat PAGE_SIZE) k;
       if stub = 0 then Some k
       else do {
         code \<leftarrow> launch_stub filename;
         (pd, m) \<leftarrow> create_kernel_page_directory fb_start fb_pages code (k_vm k);
         let k = k\<lparr>k_vm := m\<rparr>;
         let regs = make_initial_registers eflags USER_FUNC_VADDR USER_STACK_VADDR;
         (pcb, k) \<leftarrow> create_process_control_block stale pd regs 0 k;
         k_kfree stub (scheduler_enqueue pcb k)
       }
     }"

definition process_desktop_launch ::
  "u32 \<Rightarrow> nat \<Rightarrow> pcb \<Rightarrow> u32 \<Rightarrow> desktop \<Rightarrow> kernel \<Rightarrow> (desktop \<times> kernel) option" where
  "process_desktop_launch fb_start fb_pages stale eflags d k =
     do {
       first \<leftarrow> get (desktop_pending_launch d) 0;
       if first = 0 then Some (d, k)
       else do {
         k \<leftarrow> desktop_spawn_program fb_start fb_pages stale eflags (desktop_pending_launch d) k;
         p \<leftarrow> put (desktop_pending_launch d) 0 0;
         Some (d\<lparr>desktop_pending_launch := p\<rparr>, k)
       }
     }"

section \<open>The machine\<close>

record machine =
  m_os :: os
  m_vga :: vga
  m_mouse :: mouse
  m_keyboard :: keyboard
  m_status :: "u8 list list"
  m_desktop :: desktop

definition wm_of :: "machine \<Rightarrow> wm" where
  "wm_of m = k_wm (os_kernel (m_os m))"

definition set_wm :: "wm \<Rightarrow> machine \<Rightarrow> machine" where
  "set_wm w m = m\<lparr>m_os := (m_os m)\<lparr>os_kernel := (os_kernel (m_os m))\<lparr>k_wm := w\<rparr>\<rparr>\<rparr>"

definition wm_composite :: "u8 list \<Rightarrow> machine \<Rightarrow> machine option" where
  "wm_composite buf m =
     do {
       v \<leftarrow> vga_clear_screen 0x64 (m_vga m);
       v \<leftarrow> draw_desktop_icons (m_desktop m) v;
       ws \<leftarrow> composite_order (wm_of m);
       v \<leftarrow> foldM draw_window ws v;
       (status, v) \<leftarrow> draw_status_bar buf (m_os m) (m_status m) v;
       v \<leftarrow> vga_draw_cursor (current_cursor (m_mouse m)) (mouse_x (m_mouse m)) (mouse_y (m_mouse m)) BLACK v;
       v \<leftarrow> vga_flip v;
       Some (m\<lparr>m_vga := v, m_status := status\<rparr>)
     }"

text \<open>The two events on the stack start with the stale values \<open>e1\<close> and \<open>e2\<close>.\<close>

definition update_window :: "event \<Rightarrow> event \<Rightarrow> machine \<Rightarrow> machine option" where
  "update_window e1 e2 m =
     do {
       let (w, mouse) = update_window_drag (wm_of m) (m_mouse m);
       w \<leftarrow> (if mouse_x mouse \<noteq> prev_mouse_x mouse \<or> mouse_y mouse \<noteq> prev_mouse_y mouse
            then update_focused_window EVENT_MOUSE_MOVE 0 0 (mouse_buttons mouse) (mouse_x mouse) (mouse_y mouse) e1 w
            else Some w);
       if \<not> (mouse_buttons mouse AND 1 \<noteq> 0 \<and> \<not> prev_mouse_buttons mouse AND 1 \<noteq> 0)
       then Some ((set_wm w m)\<lparr>m_mouse := mouse\<rparr>)
       else do {
         let mouse = mouse\<lparr>prev_mouse_buttons := mouse_buttons mouse\<rparr>;
         (_, d) \<leftarrow> handle_icon_click mouse (m_desktop m);
         (w, mouse) \<leftarrow> update_window_click e2 w mouse;
         Some ((set_wm w m)\<lparr>m_mouse := mouse, m_desktop := d\<rparr>)
       }
     }"

definition timer_handler_main ::
  "u8 list \<Rightarrow> event \<Rightarrow> event \<Rightarrow> registers \<Rightarrow> machine \<Rightarrow> (registers \<times> machine) option" where
  "timer_handler_main buf e1 e2 regs m =
     do {
       let s = (m_os m)\<lparr>timer_ticks := timer_ticks (m_os m) + 1\<rparr>;
       (regs, s) \<leftarrow> with_kernel (update_scheduler regs) s;
       m \<leftarrow> update_window e1 e2 (m\<lparr>m_os := s\<rparr>);
       m \<leftarrow> wm_composite buf m;
       Some (regs, m)
     }"

section \<open>The program of an icon\<close>

text \<open>
  The instructions in the stub, as the processor runs them: moves of a constant into one of three
  registers, up to the first software interrupt, whose number and following code are returned.
\<close>

definition le_word :: "u8 list \<Rightarrow> u32" where
  "le_word bs = foldr (\<lambda>b w. push_bit 8 w OR ucast b) bs 0"

function run_code :: "u8 list \<Rightarrow> registers \<Rightarrow> (registers \<times> u8 \<times> u8 list) option" where
  "run_code [] regs = None"
| "run_code (op # code) regs =
     (let imm = le_word (take 4 code); rest = drop 4 code in
      if op = 0xCD then (case code of [] \<Rightarrow> None | n # rest \<Rightarrow> Some (regs, n, rest))
      else if length code < 4 then None
      else if op = 0xB8 then run_code rest (regs\<lparr>r_eax := imm\<rparr>)
      else if op = 0xB9 then run_code rest (regs\<lparr>r_ecx := imm\<rparr>)
      else if op = 0xBA then run_code rest (regs\<lparr>r_edx := imm\<rparr>)
      else None)"
  by pat_completeness auto
termination
  by (relation "measure (\<lambda>(code, regs). length code)") simp_all

lemma stub_code_eq:
  "stub_code = [0xB8, 11, 0, 0, 0, 0xB9, 128, 0, 0, 0x40, 0xBA, 192, 0, 0, 0x40, 0xCD, 0x80, 0xB8, 1, 0, 0, 0, 0xCD, 0x80]"
  by (simp add: stub_code_def little_endian_def SYSCALL_EXEC_def SYSCALL_EXIT_def USER_FUNC_VADDR_def name_offset_def
      arg_offset_def Let_def)

lemma launch_stub_page:
  assumes "terminated name" "length (text_of name) < 64"
  obtains page where "launch_stub name = Some page" "length page = PAGE_SIZE" "take 24 page = stub_code"
    "text_of (drop 128 page) = text_of name" "page ! 192 = 0"
proof -
  let ?t = "text_of name" and ?z = "replicate 4096 (0 :: u8)"
  have "strcpy (drop 128 ?z) name = Some (?t @ 0 # drop (Suc (length ?t)) (drop 128 ?z))"
    using strcpy_text [OF assms(1), of "drop 128 ?z"] assms(2) by simp
  moreover define d where "d = replicate (4096 - 128 - Suc (length ?t)) (0 :: u8)"
  ultimately have c: "strcpy (drop 128 ?z) name = Some (?t @ 0 # d)" by simp
  let ?p = "take 128 ?z @ ?t @ 0 # d"
  have len: "length ?p = 4096" using assms(2) by (simp add: d_def)
  have z: "?p[192 := 0] = ?p"
  proof -
    have "?p ! 192 = 0" using assms(2) by (auto simp: nth_append nth_Cons' d_def)
    then show ?thesis using list_update_id [of ?p 192] by simp
  qed
  let ?page = "stub_code @ drop 24 ?p"
  have l: "length stub_code = 24" by (simp add: stub_code_eq)
  have "launch_stub name = Some ?page"
    using c z len by (simp add: launch_stub_def PAGE_SIZE_def name_offset_def arg_offset_def put_def l)
  moreover have "drop 128 ?page = ?t @ 0 # d" using l by simp
  moreover have "text_of (?t @ 0 # d) = ?t" by (rule text_of_append) (auto simp: text_of_def dest: set_takeWhileD)
  moreover have "?page ! 192 = 0"
    using assms(2) l by (auto simp: nth_append nth_Cons' d_def)
  ultimately show thesis using len l by (intro that [of ?page]) (simp_all add: PAGE_SIZE_def)
qed

text \<open>C36: The page that starts an icon's program is machine code that requests \<^verbatim>\<open>exec\<close>
  with the addresses of the name and of an empty argument, both in the page, and
  \<^verbatim>\<open>exit\<close> when that returns.\<close>

theorem stub_requests_exec:
  assumes "terminated name" "length (text_of name) < 64"
  shows "\<exists>page rest. launch_stub name = Some page \<and> length page = PAGE_SIZE
     \<and> run_code page regs = Some (regs\<lparr>r_eax := 11, r_ecx := USER_FUNC_VADDR + 128, r_edx := USER_FUNC_VADDR + 192\<rparr>, 0x80, rest)
     \<and> (\<exists>rest'. run_code rest regs' = Some (regs'\<lparr>r_eax := 1\<rparr>, 0x80, rest'))
     \<and> text_of (drop 128 page) = text_of name \<and> text_of (drop 192 page) = []"
proof -
  obtain page where page: "launch_stub name = Some page" "length page = PAGE_SIZE" "take 24 page = stub_code"
      "text_of (drop 128 page) = text_of name" "page ! 192 = 0"
    by (rule launch_stub_page [OF assms])
  let ?r = "drop 17 stub_code @ drop 24 page"
  have p: "page = stub_code @ drop 24 page" using page(3) append_take_drop_id [of 24 page] by simp
  have "run_code page regs = Some (regs\<lparr>r_eax := 11, r_ecx := USER_FUNC_VADDR + 128, r_edx := USER_FUNC_VADDR + 192\<rparr>, 0x80, ?r)"
    by (subst p) (simp add: stub_code_eq le_word_def USER_FUNC_VADDR_def Let_def)
  moreover have "run_code ?r regs' = Some (regs'\<lparr>r_eax := 1\<rparr>, 0x80, drop 24 page)"
    by (simp add: stub_code_eq le_word_def Let_def)
  moreover have "text_of (drop 192 page) = []"
    using page(2,5) by (subst Cons_nth_drop_Suc [symmetric]) (simp_all add: PAGE_SIZE_def)
  ultimately show ?thesis using page(1,2,4) by blast
qed

theorem stub_requests_exec_witness:
  "\<exists>page rest. launch_stub [67, 65, 76, 67, 0] = Some page \<and> length page = PAGE_SIZE
     \<and> run_code page zero_registers = Some (zero_registers\<lparr>r_eax := 11, r_ecx := USER_FUNC_VADDR + 128, r_edx := USER_FUNC_VADDR + 192\<rparr>, 0x80, rest)
     \<and> (\<exists>rest'. run_code rest zero_registers = Some (zero_registers\<lparr>r_eax := 1\<rparr>, 0x80, rest'))
     \<and> text_of (drop 128 page) = [67, 65, 76, 67] \<and> text_of (drop 192 page) = []"
  using stub_requests_exec [of "[67, 65, 76, 67, 0]" zero_registers zero_registers] by (simp add: terminated_def)

end
