(* ===== verification/Compositor.thy ===== *)
theory Compositor
  imports Desktop
begin

text \<open>
  What a frame shows: \<^verbatim>\<open>wm_composite\<close> clears the screen, draws icons, windows, status bar
  and pointer over each other and copies the result to the screen. Every drawing operation here
  runs on a screen whose rows are all marked as changed.
\<close>

section \<open>Drawing on a screen that is all dirty\<close>

definition full :: "vga \<Rightarrow> bool" where
  "full v \<longleftrightarrow> vga_ok v \<and> 0 < unat (scr_h v) \<and> dirty_min v = 0 \<and> dirty_max v = scr_h v - 1"

text \<open>A drawing that touches no visible pixel outside \<open>D\<close>.\<close>

definition changes :: "(int \<times> int) set \<Rightarrow> vga \<Rightarrow> vga \<Rightarrow> bool" where
  "changes D v v' \<longleftrightarrow> full v' \<and> vga_inside v' = vga_inside v \<and> scr_w v' = scr_w v \<and> scr_pitch v' = scr_pitch v
     \<and> (\<forall>a b. vga_inside v a b \<longrightarrow> (a, b) \<notin> D \<longrightarrow> pixel v' a b = pixel v a b)"

definition draws :: "(int \<times> int) set \<Rightarrow> (vga \<Rightarrow> vga option) \<Rightarrow> bool" where
  "draws D f \<longleftrightarrow> (\<forall>v. full v \<longrightarrow> (\<exists>v'. f v = Some v' \<and> changes D v v'))"

lemma changes_refl: "full v \<Longrightarrow> changes D v v"
  by (simp add: changes_def)

lemma changes_trans: "changes D v v' \<Longrightarrow> changes D v' v'' \<Longrightarrow> changes D v v''"
  by (simp add: changes_def)

lemma changes_mono: "changes D v v' \<Longrightarrow> D \<subseteq> E \<Longrightarrow> changes E v v'"
  by (auto simp: changes_def)

lemma changes_full: "changes D v v' \<Longrightarrow> full v'"
  by (simp add: changes_def)

lemma changes_other: "changes D v v' \<Longrightarrow> vga_inside v a b \<Longrightarrow> (a, b) \<notin> D \<Longrightarrow> pixel v' a b = pixel v a b"
  by (simp add: changes_def)

lemma changes_inside: "changes D v v' \<Longrightarrow> vga_inside v' = vga_inside v"
  by (simp add: changes_def)

lemma drawsE:
  assumes "draws D f" "full v"
  obtains v' where "f v = Some v'" "changes D v v'"
  using assms by (auto simp: draws_def)

lemma draws_mono: "draws D f \<Longrightarrow> D \<subseteq> E \<Longrightarrow> draws E f"
  by (meson changes_mono draws_def)

lemma draws_skip [simp]: "draws D Some"
  by (simp add: draws_def changes_refl)

lemma draws_bind: "draws D f \<Longrightarrow> draws D g \<Longrightarrow> draws D (\<lambda>v. f v \<bind> g)"
  unfolding draws_def by (metis bind.bind_lunit changes_full changes_trans)

lemma draws_foldM: "(\<And>x. x \<in> set xs \<Longrightarrow> draws D (f x)) \<Longrightarrow> draws D (foldM f xs)"
proof (induction xs)
  case (Cons x xs)
  then have "draws D (\<lambda>v. f x v \<bind> foldM f xs)" by (intro draws_bind) auto
  then show ?case by (simp add: draws_def)
qed (simp add: draws_def changes_refl)

lemma full_height: "full v \<Longrightarrow> unat (scr_h v) < 2 ^ 15 \<and> 0 < unat (scr_h v)"
  by (simp add: full_def vga_ok_def)

lemma mark_dirty_full:
  assumes "full v" "0 \<le> b"
  shows "mark_dirty a b v = v"
proof -
  define H where "H = unat (scr_h v)"
  have H: "0 < H" "H < 2 ^ 15" using full_height [OF assms(1)] by (simp_all add: H_def)
  have h: "sint (scr_h v) = int H" using H by (simp add: sint_small H_def)
  have m: "unat (scr_h v - 1) = H - 1" unfolding H_def using H by (subst unat_minus32) (auto simp: word_le_nat_alt H_def)
  then have h1: "sint (scr_h v - 1) = int (H - 1)" using H by (subst sint_small) simp_all
  define q where "q = (if b \<ge> int H then int (H - 1) else b)"
  have q: "0 \<le> q" "q < 2 ^ 32" "nat q \<le> H - 1" using assms(2) H by (auto simp: q_def)
  have "unat (u32_of q) = nat q" by (rule unat_u32_of [OF q(1,2)])
  then have "\<not> u32_of q > scr_h v - 1" using q(3) by (simp add: word_less_nat_alt m)
  then show ?thesis using assms(1) unfolding mark_dirty_def h h1 q_def by (simp add: full_def Let_def)
qed

lemma put_draws:
  assumes "c_int x" "c_int y" "0 \<le> y"
  shows "draws {(x, y)} (vga_put_pixel x y c)"
  unfolding draws_def
proof (intro allI impI)
  fix v assume f: "full v"
  obtain v' where v': "vga_put_pixel x y c v = Some v'" "vga_ok v'" "vga_inside v' = vga_inside v"
      "\<forall>a b. vga_inside v a b \<longrightarrow> pixel v' a b = (if (a, b) = (x, y) then c else pixel v a b)"
    using vc.put_spec [of v x y c] f assms by (auto simp: full_def)
  have "\<exists>b. v' = v\<lparr>backbuf := b\<rparr>"
    using v'(1) f assms(3) unfolding vga_put_pixel_def Let_def mark_dirty_full [OF f assms(3)]
    by (auto split: if_splits bind_splits intro: exI [of _ "backbuf v"])
  then have "full v'" "scr_w v' = scr_w v" "scr_pitch v' = scr_pitch v" using v'(2) f by (auto simp: full_def)
  then show "\<exists>v'. vga_put_pixel x y c v = Some v' \<and> changes {(x, y)} v v'"
    using v' by (auto simp: changes_def)
qed

lemma put_draws_in: "c_int x \<Longrightarrow> c_int y \<Longrightarrow> 0 \<le> y \<Longrightarrow> (x, y) \<in> D \<Longrightarrow> draws D (vga_put_pixel x y c)"
  by (rule draws_mono [OF put_draws]) simp_all

definition rect :: "int \<Rightarrow> int \<Rightarrow> int \<Rightarrow> int \<Rightarrow> (int \<times> int) set" where
  "rect x y w h = {(a, b). x \<le> a \<and> a < x + w \<and> y \<le> b \<and> b < y + h}"

definition on_desk :: "int \<Rightarrow> bool" where "on_desk k \<longleftrightarrow> \<bar>k\<bar> \<le> 2 ^ 24"

lemma rect_draws:
  assumes "on_desk x" "on_desk (x + w)" "on_desk y" "on_desk (y + h)" "0 \<le> y" "0 < h"
  shows "draws (rect x y w h) (vga_draw_rect x y w h c)"
proof -
  have "draws (rect x y w h) (fill_rect vga_put_pixel x y w h c)"
    unfolding fill_rect_def using assms
    by (intro draws_foldM put_draws_in) (auto simp: rect_def on_desk_def c_int_def)
  then show ?thesis using assms by (simp add: draws_def vga_draw_rect_def mark_dirty_full)
qed

lemma clear_full:
  assumes "vga_ok v" "0 < unat (scr_h v)" "dirty_max v < scr_h v"
  obtains v' where "vga_clear_screen c v = Some v'" "full v'" "vga_inside v' = vga_inside v"
    "scr_w v' = scr_w v" "scr_pitch v' = scr_pitch v" "\<forall>a b. vga_inside v a b \<longrightarrow> pixel v' a b = c"
proof -
  have h: "unat (scr_h v) < 2 ^ 15" "length (backbuf v) = unat (scr_size v)" using assms(1) by (simp_all add: vga_ok_def)
  have m: "unat (scr_h v - 1) = unat (scr_h v) - 1"
    using assms(2) by (subst unat_minus32) (auto simp: word_le_nat_alt)
  then have b: "sint (scr_h v - 1) = int (unat (scr_h v) - 1)" using h(1) by (subst sint_small) simp_all
  define k where "k = int (unat (scr_h v) - 1)"
  have k: "0 \<le> k" "c_int k" using h(1) by (simp_all add: k_def c_int_def)
  let ?v = "mark_dirty 0 k v"
  have "unat (dirty_min ?v) = 0" "unat (dirty_max ?v) = unat (scr_h v) - 1"
    using mark_dirty_range [OF order_refl k assms(2) h(1)] assms(3) by (simp_all add: k_def word_less_nat_alt)
  then have d: "dirty_min ?v = 0" "dirty_max ?v = scr_h v - 1"
    using m by (metis unat_eq_zero, metis word_unat_eq_iff)
  let ?v' = "?v\<lparr>backbuf := replicate (length (backbuf v)) c\<rparr>"
  have "vga_clear_screen c v = Some ?v'" using h(2) by (simp add: vga_clear_screen_def Let_def b memset_spec k_def)
  moreover have "full ?v'" using assms(1,2) d by (simp add: full_def vga_ok_back)
  moreover have ins: "vga_inside ?v' = vga_inside v" by (intro ext) (simp add: vga_inside_def)
  moreover have "pixel ?v' a b = c" if "vga_inside v a b" for a b
    using pixel_offset(2) [OF assms(1) that] by (simp add: pixel_def)
  ultimately show thesis by (intro that [of ?v']) simp_all
qed

section \<open>Text, icons and the pointer\<close>

definition printable :: "u8 list \<Rightarrow> bool" where
  "printable t \<longleftrightarrow> (\<forall>c \<in> set t. 32 \<le> unat c \<and> unat c < 127)"

lemma glyph_draws:
  assumes "length g = 8" "on_desk x" "on_desk y" "0 \<le> y"
  shows "draws (rect x y 8 8) (draw_glyph vga_put_pixel g x y c)"
proof -
  let ?D = "rect x y 8 8"
  have "draws ?D (\<lambda>v. if P then vga_put_pixel (x + int col) (y + int row) c v else Some v)"
    if "row < 8" "col < 8" for row col P
  proof (cases P)
    case True
    have "draws ?D (vga_put_pixel (x + int col) (y + int row) c)"
      using assms that by (intro put_draws_in) (auto simp: rect_def on_desk_def c_int_def)
    then show ?thesis using True by simp
  qed simp
  then have "draws ?D (\<lambda>v. foldM (\<lambda>row s. if row < length g then
         foldM (\<lambda>col s. if g ! row AND drop_bit col 0x80 \<noteq> 0 then vga_put_pixel (x + int col) (y + int row) c s
           else Some s) [0..<8] s
       else None) [0..<8] v)"
    using assms(1) by (intro draws_foldM) (simp, intro draws_foldM, simp)
  then show ?thesis unfolding draw_glyph_def [abs_def] .
qed

lemma char_draws:
  assumes "32 \<le> unat ch" "unat ch < 127" "on_desk x" "on_desk y" "0 \<le> y"
  shows "draws (rect x y 8 8) (vga_draw_char x y ch c)"
proof -
  obtain g where g: "glyph_of ch = Some g" "length g = 8" using glyph_of_printable [OF assms(1,2)] by metis
  have "c_int (y + 8)" using assms(4) by (auto simp: on_desk_def c_int_def abs_if split: if_splits)
  from sint_of_c_int [OF this] have "sint (u32_of y + font_row) = y + 8" by (simp add: font_row_def)
  then show ?thesis
    using glyph_draws [OF g(2) assms(3-5), of c] assms(5) by (simp add: draws_def vga_draw_char_def g(1) mark_dirty_full)
qed

definition strip :: "int \<Rightarrow> int \<Rightarrow> u8 list \<Rightarrow> (int \<times> int) set" where
  "strip x y t = rect x y (9 * int (length t)) 8"

lemma string_draws:
  assumes "terminated str" "printable (text_of str)" "length (text_of str) < 1000" "\<bar>x\<bar> \<le> 2 ^ 23" "on_desk y" "0 \<le> y"
  shows "draws (strip x y (text_of str)) (vga_draw_string x y str c)"
proof -
  let ?t = "text_of str"
  have chr: "draws (strip x y ?t) (\<lambda>v. get str i \<bind> (\<lambda>ch. vga_draw_char (sint (u32_of x + of_nat i * font_spacing)) y ch c v))"
    if "i < length ?t" for i
  proof -
    have s: "get str i = Some (?t ! i)" using that by (simp add: get_def text_of_def takeWhile_nth) (meson length_takeWhile_le order.strict_trans2)
    have "u32_of x + of_nat i * font_spacing = u32_of (x + 9 * int i)" by (simp add: font_spacing_def)
    moreover have "c_int (x + 9 * int i)" using assms(3,4) that by (auto simp: c_int_def abs_if split: if_splits)
    ultimately have "sint (u32_of x + of_nat i * font_spacing) = x + 9 * int i" by (simp only: sint_of_c_int)
    moreover have "draws (rect (x + 9 * int i) y 8 8) (vga_draw_char (x + 9 * int i) y (?t ! i) c)"
      using assms that by (intro char_draws) (auto simp: printable_def on_desk_def)
    moreover have "rect (x + 9 * int i) y 8 8 \<subseteq> strip x y ?t" using that by (auto simp: strip_def rect_def)
    ultimately show ?thesis by (simp add: s draws_mono)
  qed
  have "draws (strip x y ?t) (\<lambda>v. foldM (\<lambda>i v. get str i \<bind> (\<lambda>ch. vga_draw_char (sint (u32_of x + of_nat i * font_spacing)) y ch c v))
      [0..<length ?t] v)"
    by (intro draws_foldM) (simp add: chr)
  then show ?thesis unfolding vga_draw_string_def [abs_def] strlen_text [OF assms(1)] bind.bind_lunit .
qed

lemma cursor_draws:
  assumes "on_desk x" "on_desk y" "0 \<le> y"
  shows "draws (rect x y 16 18) (vga_draw_cursor cur x y c)"
proof -
  let ?D = "rect x y 16 18"
  have put: "draws ?D (\<lambda>v. if P then vga_put_pixel (x + int col) (y + int row) k v else Some v)"
    if "row < 18" "col < 16" for row col P k
  proof (cases P)
    case True
    have "draws ?D (vga_put_pixel (x + int col) (y + int row) k)"
      using assms that by (intro put_draws_in) (auto simp: rect_def on_desk_def c_int_def)
    then show ?thesis using True by simp
  qed simp
  have "draws ?D (\<lambda>v. foldM (\<lambda>row. foldM (\<lambda>col v. do {
             v \<leftarrow> (if P row col then vga_put_pixel (x + int col) (y + int row) 0xF v else Some v);
             (if Q row col then vga_put_pixel (x + int col) (y + int row) c v else Some v)
           }) [0..<16]) [0..<18] v)" for P Q
    by (intro draws_foldM draws_bind put) simp_all
  then show ?thesis unfolding vga_draw_cursor_def Let_def by (cases cur) simp_all
qed

definition icon_ok :: "desktop_icon \<Rightarrow> bool" where
  "icon_ok i \<longleftrightarrow> \<bar>i_x i\<bar> \<le> 2 ^ 23 \<and> 0 \<le> i_y i \<and> i_y i \<le> 2 ^ 23 \<and> length (i_bitmap i) = 16"

definition icon_area :: "desktop_icon \<Rightarrow> (int \<times> int) set" where
  "icon_area i = rect (i_x i) (i_y i) (int ICON_RENDER_SIZE) (int ICON_RENDER_SIZE)"

lemma icon_draws:
  assumes "icon_ok i"
  shows "draws (icon_area i) (draw_icon i)"
proof -
  have put: "draws (icon_area i) (vga_put_pixel (i_x i + int col * 3 + int sx) (i_y i + int row * 3 + int sy) c)"
    if "row < 16" "col < 16" "sx < 3" "sy < 3" for row col sx sy c
    using assms that
    by (intro put_draws_in) (auto simp: icon_ok_def icon_area_def rect_def c_int_def ICON_RENDER_SIZE_def ICON_BITMAP_SIZE_def ICON_SCALE_def)
  have g: "get (i_bitmap i) row = Some (i_bitmap i ! row)" if "row < 16" for row using assms that by (simp add: get_def icon_ok_def)
  have "draws (icon_area i) (\<lambda>v. draw_icon i v)"
    unfolding draw_icon_def ICON_BITMAP_SIZE_def ICON_SCALE_def Let_def
    by (intro draws_foldM) (simp add: g, intro draws_foldM put, simp_all)
  then show ?thesis .
qed

definition desktop_ok :: "desktop \<Rightarrow> bool" where
  "desktop_ok d \<longleftrightarrow> desktop_icon_count d \<le> length (desktop_icons d) \<and> (\<forall>i < desktop_icon_count d. icon_ok (desktop_icons d ! i))"

definition icons_area :: "desktop \<Rightarrow> (int \<times> int) set" where
  "icons_area d = (\<Union>i < desktop_icon_count d. icon_area (desktop_icons d ! i))"

lemma icons_draw: "desktop_ok d \<Longrightarrow> draws (icons_area d) (draw_desktop_icons d)"
proof -
  assume ok: "desktop_ok d"
  have "draws (icons_area d) (\<lambda>v. get (desktop_icons d) i \<bind> (\<lambda>icon. draw_icon icon v))" if "i < desktop_icon_count d" for i
  proof -
    have "get (desktop_icons d) i = Some (desktop_icons d ! i)" using ok that by (simp add: desktop_ok_def get_def)
    moreover have "icon_area (desktop_icons d ! i) \<subseteq> icons_area d" using that by (auto simp: icons_area_def)
    moreover have "icon_ok (desktop_icons d ! i)" using ok that by (simp add: desktop_ok_def)
    ultimately show ?thesis by (simp add: draws_mono [OF icon_draws])
  qed
  then have "draws (icons_area d) (\<lambda>v. draw_desktop_icons d v)" unfolding draw_desktop_icons_def by (intro draws_foldM) simp
  then show ?thesis .
qed

section \<open>Windows\<close>

definition showable :: "window \<Rightarrow> bool" where
  "showable w \<longleftrightarrow> \<bar>w_x w\<bar> \<le> 2 ^ 20 \<and> 0 \<le> w_y w \<and> w_y w \<le> 2 ^ 20 \<and> unat (w_width w) < 2 ^ 15
     \<and> unat (w_height w) + 25 < 2 ^ 15 \<and> length (pixels w) = unat (w_width w) * (unat (w_height w) + 25)
     \<and> terminated (title w) \<and> printable (text_of (title w)) \<and> length (text_of (title w)) < 1000"

text \<open>The pixels a window covers: its rectangle, and the title and close button where they stick out.\<close>

definition window_area :: "window \<Rightarrow> (int \<times> int) set" where
  "window_area w = rect (w_x w) (w_y w) (int (unat (w_width w))) (int (unat (w_height w)) + 25)
     \<union> strip (w_x w + 5) (w_y w + 10) (text_of (title w))
     \<union> rect (w_x w + int (unat (w_width w)) - 20) (w_y w + 5) 15 15"

definition client_area :: "window \<Rightarrow> (int \<times> int) set" where
  "client_area w = rect (w_x w) (w_y w + 25) (int (unat (w_width w))) (int (unat (w_height w)))"

definition header_area :: "window \<Rightarrow> (int \<times> int) set" where
  "header_area w = window_area w \<inter> {(a, b). b < w_y w + 25}"

lemma blit_row_backbuf: "blit_row x y w buf row v = Some v' \<Longrightarrow> \<exists>b. v' = v\<lparr>backbuf := b\<rparr>"
  by (auto simp: blit_row_def Let_def split: if_splits bind_splits intro: exI [of _ "backbuf v"])

lemma blit_rows_backbuf: "foldM (blit_row x y w buf) rows v = Some v' \<Longrightarrow> \<exists>b. v' = v\<lparr>backbuf := b\<rparr>"
proof (induction rows arbitrary: v)
  case Nil
  then show ?case by (auto intro: exI [of _ "backbuf v"])
next
  case (Cons r rows)
  then obtain t where t: "blit_row x y w buf r v = Some t" "foldM (blit_row x y w buf) rows t = Some v'"
    by (auto split: bind_splits)
  from blit_row_backbuf [OF t(1)] Cons.IH [OF t(2)] show ?case by auto
qed

lemma full_backbuf: "full v \<Longrightarrow> vga_ok (v\<lparr>backbuf := b\<rparr>) \<Longrightarrow> full (v\<lparr>backbuf := b\<rparr>)"
  by (simp add: full_def)

lemma blit_shows:
  assumes "full v" "showable w"
  shows "\<exists>v'. vga_blit (w_x w) (w_y w) (w_width w) (w_height w + HEADER_OFFSET) (pixels w) v = Some v' \<and> changes (window_area w) v v'
    \<and> (\<forall>a b. vga_inside v a b \<longrightarrow> (a, b) \<in> client_area w \<longrightarrow> pixel v' a b = win_pixel w (a - w_x w) (b - w_y w - 25))"
proof -
  define W H where "W = unat (w_width w)" and "H = unat (w_height w)"
  have small: "\<bar>w_x w\<bar> \<le> 1048576" "0 \<le> w_y w" "w_y w \<le> 1048576" "W < 32768" "H + 25 < 32768"
    and len: "W * (H + 25) = length (pixels w)"
    using assms(2) by (simp_all add: showable_def W_def H_def)
  have h: "unat (w_height w + HEADER_OFFSET) = H + 25"
    unfolding H_def using small(5) by (subst unat_plus32) (simp_all add: HEADER_OFFSET_def H_def)
  have c: "c_int (w_x w)" "c_int (w_y w)" "c_int (w_y w + int (H + 25))" "c_int (w_y w + int H + 24)"
    using small by (auto simp: c_int_def abs_if split: if_splits)
  have vok: "vga_ok v" using assms(1) by (simp add: full_def)
  have hh: "w_height w = u32_of (int H)" unfolding H_def by simp
  have "u32_of (w_y w) + (w_height w + HEADER_OFFSET) - 1 = u32_of (w_y w + int H + 24)"
    unfolding hh HEADER_OFFSET_def by simp
  then have hy: "sint (u32_of (w_y w) + (w_height w + HEADER_OFFSET) - 1) = w_y w + int H + 24"
    using c(4) by (simp only: sint_of_c_int)
  have md: "mark_dirty (w_y w) (sint (u32_of (w_y w) + (w_height w + HEADER_OFFSET) - 1)) v = v"
    unfolding hy using small(2) by (intro mark_dirty_full [OF assms(1)]) simp
  obtain v' where v': "vga_blit (w_x w) (w_y w) (w_width w) (w_height w + HEADER_OFFSET) (pixels w) v = Some v'" "vga_ok v'"
      and px: "\<And>a b. vga_inside v a b \<Longrightarrow> pixel v' a b =
          (if w_x w \<le> a \<and> a < w_x w + int W \<and> w_y w \<le> b \<and> b < w_y w + int (H + 25)
           then blit_value (w_x w) (w_y w) (w_width w) (pixels w) a b else pixel v a b)"
    using vga_blit_copies [OF vok c(1,2), of "w_height w + HEADER_OFFSET" "w_width w" "pixels w"] c(3) small len
    unfolding h W_def by auto
  obtain b where b: "v' = v\<lparr>backbuf := b\<rparr>" using v'(1) blit_rows_backbuf unfolding vga_blit_def Let_def md by blast
  have ins: "vga_inside v' = vga_inside v" unfolding b by (intro ext) (simp add: vga_inside_def)
  have "full v'" using full_backbuf [OF assms(1)] v'(2) by (simp add: b)
  moreover have "pixel v' x y = pixel v x y" if "vga_inside v x y" "(x, y) \<notin> window_area w" for x y
    using px [OF that(1)] that(2) by (auto simp: window_area_def rect_def W_def H_def)
  ultimately have "changes (window_area w) v v'" using ins by (simp add: changes_def b)
  moreover have "pixel v' x y = win_pixel w (x - w_x w) (y - w_y w - 25)"
    if "vga_inside v x y" "(x, y) \<in> client_area w" for x y
  proof -
    have r: "w_x w \<le> x" "x < w_x w + int W" "w_y w + 25 \<le> y" "y < w_y w + 25 + int H"
      using that(2) by (simp_all add: client_area_def rect_def W_def H_def)
    then have "nat (y - w_y w) = nat (y - w_y w - 25) + 25" by linarith
    then show ?thesis using r px [OF that(1)] by (simp add: blit_value_def win_pixel_def)
  qed
  ultimately show ?thesis using v'(1) by blast
qed

lemma draw_window_shows:
  assumes "full v" "showable w"
  shows "\<exists>v'. draw_window w v = Some v' \<and> changes (window_area w) v v'
    \<and> (\<forall>a b. vga_inside v a b \<longrightarrow> (a, b) \<in> client_area w \<longrightarrow> pixel v' a b = win_pixel w (a - w_x w) (b - w_y w - 25))"
proof -
  define W H where "W = unat (w_width w)" and "H = unat (w_height w)"
  have small: "\<bar>w_x w\<bar> \<le> 1048576" "0 \<le> w_y w" "w_y w \<le> 1048576" "W < 32768" "H + 25 < 32768"
    using assms(2) by (simp_all add: showable_def W_def H_def)
  obtain v1 where v1: "vga_blit (w_x w) (w_y w) (w_width w) (w_height w + HEADER_OFFSET) (pixels w) v = Some v1"
      "changes (window_area w) v v1"
      "\<And>a b. vga_inside v a b \<Longrightarrow> (a, b) \<in> client_area w \<Longrightarrow> pixel v1 a b = win_pixel w (a - w_x w) (b - w_y w - 25)"
    using blit_shows [OF assms] by blast
  have wr: "wrap32 k = k" if "c_int k" for k using that by (simp add: wrap32_def sint_of_c_int)
  have c: "c_int (w_x w + 5)" "c_int (w_y w + 10)" "c_int (w_x w + int W - 20)" "c_int (w_x w + int W - 17)" "c_int (w_y w + 5)" "c_int (w_y w + 9)"
    using small by (auto simp: c_int_def abs_if split: if_splits)
  have wa: "window_area w = rect (w_x w) (w_y w) (int W) (int H + 25) \<union> strip (w_x w + 5) (w_y w + 10) (text_of (title w))
     \<union> rect (w_x w + int W - 20) (w_y w + 5) 15 15" by (simp only: window_area_def W_def H_def)
  note area = header_area_def wa rect_def
  have uw: "uint (w_width w) = int W" "sint (w_width w) = int W" using small(4) by (simp_all add: W_def sint_small)
  define border :: u8 where "border = (if is_focused w then 0x11 else 0x99)"
  have "draws (header_area w) (\<lambda>v. do {
        v \<leftarrow> vga_draw_rect (w_x w) (w_y w) (int W) 25 border v;
        v \<leftarrow> vga_draw_string (w_x w + 5) (w_y w + 10) (title w) 0x0F v;
        v \<leftarrow> vga_draw_rect (w_x w + int W - 20) (w_y w + 5) 15 15 0x0C v;
        vga_draw_string (w_x w + int W - 17) (w_y w + 9) [88, 0] 0xF v })"
  proof (intro draws_bind)
    show "draws (header_area w) (vga_draw_rect (w_x w) (w_y w) (int W) 25 border)"
      using small by (intro draws_mono [OF rect_draws]) (auto simp: on_desk_def area abs_if split: if_splits)
    show "draws (header_area w) (vga_draw_string (w_x w + 5) (w_y w + 10) (title w) 0x0F)"
      using small assms(2) by (intro draws_mono [OF string_draws])
        (auto simp: on_desk_def area strip_def showable_def abs_if split: if_splits)
    show "draws (header_area w) (vga_draw_rect (w_x w + int W - 20) (w_y w + 5) 15 15 0x0C)"
      using small by (intro draws_mono [OF rect_draws]) (auto simp: on_desk_def area abs_if split: if_splits)
    show "draws (header_area w) (vga_draw_string (w_x w + int W - 17) (w_y w + 9) [88, 0] 0xF)"
      using small by (intro draws_mono [OF string_draws])
        (auto simp: on_desk_def area strip_def printable_def terminated_def abs_if split: if_splits)
  qed
  then obtain v2 where v2: "do {
        v \<leftarrow> vga_draw_rect (w_x w) (w_y w) (int W) 25 border v1;
        v \<leftarrow> vga_draw_string (w_x w + 5) (w_y w + 10) (title w) 0x0F v;
        v \<leftarrow> vga_draw_rect (w_x w + int W - 20) (w_y w + 5) 15 15 0x0C v;
        vga_draw_string (w_x w + int W - 17) (w_y w + 9) [88, 0] 0xF v } = Some v2" "changes (header_area w) v1 v2"
    using drawsE changes_full [OF v1(2)] by blast
  have e: "wrap32 (w_x w + int W - PADDING - 15) = w_x w + int W - 20" "wrap32 (w_x w + int W - PADDING - 12) = w_x w + int W - 17"
    "wrap32 (w_x w + PADDING) = w_x w + 5" "wrap32 (w_y w + PADDING + 5) = w_y w + 10" "wrap32 (w_y w + PADDING) = w_y w + 5"
    "wrap32 (w_y w + PADDING + 4) = w_y w + 9" "sint HEADER_OFFSET = 25"
    using wr [OF c(1)] wr [OF c(2)] wr [OF c(3)] wr [OF c(4)] wr [OF c(5)] wr [OF c(6)]
    by (simp_all add: PADDING_def HEADER_OFFSET_def add.commute)
  have "draw_window w v = Some v2"
    unfolding draw_window_def Let_def v1(1) bind.bind_lunit border_def [symmetric] uw e by (rule v2(1))
  moreover have "changes (window_area w) v v2"
    by (rule changes_trans [OF v1(2) changes_mono [OF v2(2)]]) (simp add: header_area_def)
  moreover have "pixel v2 a b = win_pixel w (a - w_x w) (b - w_y w - 25)"
    if "vga_inside v a b" "(a, b) \<in> client_area w" for a b
  proof -
    have "(a, b) \<notin> header_area w" using that(2) by (auto simp: header_area_def client_area_def rect_def)
    then show ?thesis using changes_other [OF v2(2)] changes_inside [OF v1(2)] v1(3) that by simp
  qed
  ultimately show ?thesis by blast
qed

section \<open>The status bar\<close>

definition bar_area :: "(int \<times> int) set" where
  "bar_area = {(a, b). 0 \<le> b \<and> b < 30}"

definition bar_ok :: "u8 list \<Rightarrow> os \<Rightarrow> u8 list list \<Rightarrow> bool" where
  "bar_ok buf s status \<longleftrightarrow>
     (\<exists>bs. heap_inv (wm_heap (k_wm (os_kernel s))) bs \<and> 1000 \<le> heap_used bs \<and> heap_used bs \<le> 0x300000 - 1000)
     \<and> bitmap_ok (frames (k_vm (os_kernel s))) \<and> \<not> {..<NUM_FRAMES} \<subseteq> used (frames (k_vm (os_kernel s)))
     \<and> length (procs (os_kernel s)) < 10 ^ 8 \<and> length (windows (k_wm (os_kernel s))) < 10 ^ 8
     \<and> length buf = 10 \<and> length status = 8 \<and> (\<forall>x \<in> set (drop 4 status). length x = 20)"

lemma printable_Cons [simp]:
  "printable [] \<longleftrightarrow> True" "printable (c # t) \<longleftrightarrow> 32 \<le> unat c \<and> unat c < 127 \<and> printable t"
  by (auto simp: printable_def)

lemma printable_append [simp]: "printable (xs @ ys) \<longleftrightarrow> printable xs \<and> printable ys"
  by (auto simp: printable_def)

lemma printable_decimal [simp]: "printable (decimal n)"
  using decimal_chars by (fastforce simp: printable_def)

definition field_ok :: "u8 list \<Rightarrow> bool" where
  "field_ok t \<longleftrightarrow> terminated t \<and> printable (text_of t) \<and> length (text_of t) < 100"

lemma fill_status_fields:
  assumes "bar_ok buf s status"
  obtains st b where "fill_status buf s (status_labels @ drop 4 status) = Some (status_labels @ st, b)"
    "length b = 10" "length st = 4" "\<forall>x \<in> set st. field_ok x"
proof -
  let ?U = "used (frames (k_vm (os_kernel s)))"
  obtain bs where bs: "heap_inv (wm_heap (k_wm (os_kernel s))) bs" "1000 \<le> heap_used bs" "heap_used bs \<le> 0x300000 - 1000"
    using assms by (auto simp: bar_ok_def)
  obtain u where u: "get_heap_status (wm_heap (k_wm (os_kernel s))) = Some u" "unat u = heap_used bs"
    using heap_status_sum [OF bs(1)] by blast
  define j where "j = (LEAST i. i \<notin> ?U)"
  have ex: "\<exists>i. i \<notin> ?U \<and> i < NUM_FRAMES" using assms by (auto simp: bar_ok_def)
  then obtain i where i: "i \<notin> ?U" "i < NUM_FRAMES" by blast
  have j: "j \<notin> ?U" "j < NUM_FRAMES"
    unfolding j_def using LeastI [of "\<lambda>i. i \<notin> ?U", OF i(1)] Least_le [of "\<lambda>i. i \<notin> ?U", OF i(1)] i(2) by simp_all
  have "k \<in> ?U" if "k < j" for k using not_less_Least [OF that [unfolded j_def]] by simp
  then have below: "{..<j} \<subseteq> ?U" by blast
  have bar: "bitmap_ok (frames (k_vm (os_kernel s)))" "length (procs (os_kernel s)) < 10 ^ 8"
      "length (windows (k_wm (os_kernel s))) < 10 ^ 8" "length buf = 10" "length (status_labels @ drop 4 status) = 8"
      "\<forall>x \<in> set (drop 4 (status_labels @ drop 4 status)). length x = 20"
    using assms by (simp_all add: bar_ok_def status_labels_def)
  obtain st b where st: "fill_status buf s (status_labels @ drop 4 status) = Some (take 4 (status_labels @ drop 4 status) @ st, b)"
      "length b = 10" "\<forall>x \<in> set st. terminated x"
      "map text_of st = [decimal (heap_used bs div 1000) @ [75, 47] @ decimal ((0x300000 - heap_used bs) div 1000) @ [75],
        decimal j @ [47] @ decimal (NUM_FRAMES - j), decimal (length (procs (os_kernel s))),
        decimal (length (windows (k_wm (os_kernel s))))]"
    using fill_status_spec [OF u(1) bs(2,3) [folded u(2)] bar(1) j(2,1) below bar(2-6)] unfolding u(2)
    by (elim exE conjE) (rule that)
  have d: "length (decimal n) \<le> 9" if "n < 10 ^ 9" for n using that by (rule decimal_length) simp
  have "printable (text_of x) \<and> length (text_of x) < 100" if "x \<in> set st" for x
  proof -
    have "text_of x \<in> set (map text_of st)" using that by simp
    moreover have "length (decimal (heap_used bs div 1000)) \<le> 9" "length (decimal ((0x300000 - heap_used bs) div 1000)) \<le> 9"
        "length (decimal j) \<le> 9" "length (decimal (NUM_FRAMES - j)) \<le> 9" "length (decimal (length (procs (os_kernel s)))) \<le> 9"
        "length (decimal (length (windows (k_wm (os_kernel s))))) \<le> 9"
      using bs(3) j(2) bar(2,3) by (intro d; simp add: NUM_FRAMES_eq)+
    ultimately show ?thesis unfolding st(4) by auto
  qed
  then have "\<forall>x \<in> set st. field_ok x" using st(3) by (simp add: field_ok_def)
  moreover have "length st = 4" using arg_cong [OF st(4), of length] by simp
  ultimately show thesis using st(1,2) by (intro that) (simp_all add: status_labels_def)
qed

lemma bar_string_draws:
  assumes "field_ok str" "\<bar>x\<bar> \<le> 2 ^ 23"
  shows "draws bar_area (vga_draw_string x STATUS_BAR_MID str c)"
  using assms by (intro draws_mono [OF string_draws])
    (auto simp: field_ok_def STATUS_BAR_MID_def on_desk_def strip_def rect_def bar_area_def)

lemma labels_ok: "\<forall>x \<in> set status_labels. field_ok x" "field_ok [124, 0]" "field_ok [65, 68, 65, 77, 79, 83, 0]"
  by (simp_all add: status_labels_def field_ok_def terminated_def printable_def)

lemma field_draws:
  assumes "length st = 4" "\<forall>x \<in> set st. field_ok x" "i < 4"
  shows "draws bar_area (draw_field (status_labels @ st) i)"
proof -
  have l: "length status_labels = 4" by (simp add: status_labels_def)
  have g: "get (status_labels @ st) i = Some (status_labels ! i)" "get (status_labels @ st) (i + 4) = Some (st ! i)"
    using assms l by (simp_all add: get_def nth_append)
  have f: "field_ok (status_labels ! i)" "field_ok (st ! i)" using labels_ok(1) assms l by simp_all
  define x where "x = DUMP_START + DUMP_SPACE * int i - (if i = 3 then 80 else 0)"
  have x: "\<bar>x\<bar> \<le> 1000" using assms(3) by (auto simp: x_def DUMP_START_def DUMP_SPACE_def)
  have "draws bar_area (\<lambda>v. do {
        v \<leftarrow> vga_draw_string x STATUS_BAR_MID [124, 0] LIGHT_GRAY v;
        v \<leftarrow> vga_draw_string (x + STATUS_BAR_PADDING) STATUS_BAR_MID (status_labels ! i) LIGHT_GRAY v;
        vga_draw_string (x + STATUS_DATA_OFFSET) STATUS_BAR_MID (st ! i) BRIGHT_GREEN v })"
    using x f labels_ok(2) by (intro draws_bind bar_string_draws) (auto simp: STATUS_BAR_PADDING_def STATUS_DATA_OFFSET_def)
  then show ?thesis unfolding draw_field_def [abs_def] Let_def g bind.bind_lunit x_def [symmetric] .
qed

lemma uptime_text:
  assumes "length b = 10"
  obtains b1 b2 where "itos b (sint (get_uptime_seconds s)) = Some b1" "strcat b1 [115, 0] = Some b2" "field_ok b2"
    "strlen b2 = Some (length (text_of b2))"
proof -
  define n where "n = unat (get_uptime_seconds s)"
  have n8: "n < 10 ^ 8" using unat_lt32 [of "timer_ticks s"] by (simp add: n_def get_uptime_seconds_def TIMER_FREQ_def unat_div)
  then have sn: "sint (get_uptime_seconds s) = int n" by (simp add: n_def sint_small)
  have l: "length (decimal n) \<le> 8" using n8 by (rule decimal_length) simp
  obtain r where r: "itos b (int n) = Some (decimal n @ 0 # r)" "length (decimal n @ 0 # r) = 10" by (rule itos_fit10 [OF assms n8])
  have "strcat (decimal n @ 0 # r) ([115] @ 0 # []) = Some ((decimal n @ [115]) @ 0 # drop (length [115 :: u8]) r)"
    using l r(2) decimal_nonzero by (intro strcat_fits) simp_all
  then have c: "strcat (decimal n @ 0 # r) [115, 0] = Some ((decimal n @ [115]) @ 0 # drop 1 r)" by simp
  have nz: "0 \<notin> set (decimal n @ [115])" using decimal_nonzero by simp
  note t = text_of_zero [OF nz, of "drop 1 r"]
  have "field_ok ((decimal n @ [115]) @ 0 # drop 1 r)" using t l by (simp add: field_ok_def)
  then show thesis using that [OF _ c] r(1) sn strlen_text [of "(decimal n @ [115]) @ 0 # drop 1 r"] t by simp
qed

lemma bar_draws:
  assumes "bar_ok buf s status" "full v"
  shows "\<exists>status' v'. draw_status_bar buf s status v = Some (status', v') \<and> changes bar_area v v'"
proof -
  have p16: "unat (scr_pitch v) < 2 ^ 16" "unat (scr_w v) < 2 ^ 16"
    using assms(2) by (auto simp: full_def vga_ok_def)
  define W where "W = unat (scr_w v)"
  have w: "sint (scr_w v) = int W" using p16(2) by (simp add: W_def sint_small)
  have "W < 65536" using p16(2) by (simp add: W_def)
  then have "draws bar_area (vga_draw_rect 0 0 (sint (scr_w v)) STATUS_BAR_HEIGHT 0x11)"
    unfolding w by (intro draws_mono [OF rect_draws]) (auto simp: on_desk_def STATUS_BAR_HEIGHT_def rect_def bar_area_def)
  then obtain v1 where v1: "vga_draw_rect 0 0 (sint (scr_w v)) STATUS_BAR_HEIGHT 0x11 v = Some v1" "changes bar_area v v1"
    using assms(2) by (rule drawsE)
  have "draws bar_area (vga_draw_string STATUS_BAR_START STATUS_BAR_MID [65, 68, 65, 77, 79, 83, 0] BRIGHT_BLUE)"
    by (rule bar_string_draws [OF labels_ok(3)]) (simp add: STATUS_BAR_START_def)
  then obtain v2 where v2: "vga_draw_string STATUS_BAR_START STATUS_BAR_MID [65, 68, 65, 77, 79, 83, 0] BRIGHT_BLUE v1 = Some v2"
      "changes bar_area v1 v2"
    using changes_full [OF v1(2)] by (rule drawsE)
  obtain st b where st: "fill_status buf s (status_labels @ drop 4 status) = Some (status_labels @ st, b)"
      "length b = 10" "length st = 4" "\<forall>x \<in> set st. field_ok x"
    by (rule fill_status_fields [OF assms(1)])
  have "draws bar_area (foldM (draw_field (status_labels @ st)) [0..<4])"
    by (rule draws_foldM, rule field_draws [OF st(3,4)]) simp
  then obtain v3 where v3: "foldM (draw_field (status_labels @ st)) [0..<4] v2 = Some v3" "changes bar_area v2 v3"
    using changes_full [OF v2(2)] by (rule drawsE)
  obtain b1 b2 where b: "itos b (sint (get_uptime_seconds s)) = Some b1" "strcat b1 [115, 0] = Some b2" "field_ok b2"
      "strlen b2 = Some (length (text_of b2))"
    by (rule uptime_text [OF st(2)])
  define x where "x = sint (scr_pitch v3 - 30 - of_nat (length (text_of b2)) * font_col)"
  have pitch: "scr_pitch v3 = scr_pitch v" using v1(2) v2(2) v3(2) by (simp add: changes_def)
  have len: "length (text_of b2) < 100" using b(3) by (simp add: field_ok_def)
  have "scr_pitch v3 - 30 - of_nat (length (text_of b2)) * font_col = u32_of (int (unat (scr_pitch v)) - 30 - 8 * int (length (text_of b2)))"
    by (simp add: pitch font_col_def)
  moreover define P where "P = unat (scr_pitch v)"
  moreover have P: "P < 65536" using p16(1) by (simp add: P_def)
  moreover have "c_int (int P - 30 - 8 * int (length (text_of b2)))" using P len by (simp add: c_int_def)
  ultimately have "x = int P - 30 - 8 * int (length (text_of b2))" by (simp only: x_def sint_of_c_int)
  then have "\<bar>x\<bar> \<le> 2 ^ 23" using P len by simp
  then have "draws bar_area (vga_draw_string x STATUS_BAR_MID b2 BRIGHT_GREEN)" by (rule bar_string_draws [OF b(3)])
  then obtain v4 where v4: "vga_draw_string x STATUS_BAR_MID b2 BRIGHT_GREEN v3 = Some v4" "changes bar_area v3 v4"
    using changes_full [OF v3(2)] by (rule drawsE)
  have "draw_status_bar buf s status v = Some (status_labels @ st, v4)"
    unfolding draw_status_bar_def v1(1) v2(1) bind.bind_lunit Let_def st(1) prod.case v3(1) b(1,2,4) x_def [symmetric] v4(1) ..
  moreover have "changes bar_area v v4" using v1(2) v2(2) v3(2) v4(2) by (blast intro: changes_trans)
  ultimately show ?thesis by blast
qed

section \<open>The frame\<close>

definition screen_ok :: "vga \<Rightarrow> bool" where
  "screen_ok v \<longleftrightarrow> vga_ok v \<and> 0 < unat (scr_h v) \<and> dirty_max v < scr_h v"

definition pointer_area :: "mouse \<Rightarrow> (int \<times> int) set" where
  "pointer_area m = rect (mouse_x m) (mouse_y m) 16 18"

text \<open>The windows from the lowest to the highest, the focused one on top.\<close>

definition layers :: "wm \<Rightarrow> window list" where
  "layers s = filter (\<lambda>w. \<not> is_focused w) (sort_key (\<lambda>w. unat (z_index w)) (windows s)) @ filter is_focused (windows s)"

lemma windows_show:
  assumes "\<forall>w \<in> set ws. showable w" "full v"
  shows "\<exists>v'. foldM draw_window ws v = Some v' \<and> changes (\<Union>w \<in> set ws. window_area w) v v'
    \<and> (\<forall>us w vs a b. ws = us @ w # vs \<longrightarrow> vga_inside v a b \<longrightarrow> (a, b) \<in> client_area w
         \<longrightarrow> (\<forall>u \<in> set vs. (a, b) \<notin> window_area u) \<longrightarrow> pixel v' a b = win_pixel w (a - w_x w) (b - w_y w - 25))"
  using assms
proof (induction ws arbitrary: v)
  case Nil
  then show ?case by (simp add: changes_refl)
next
  case (Cons w ws)
  obtain v1 where v1: "draw_window w v = Some v1" "changes (window_area w) v v1"
      "\<And>a b. vga_inside v a b \<Longrightarrow> (a, b) \<in> client_area w \<Longrightarrow> pixel v1 a b = win_pixel w (a - w_x w) (b - w_y w - 25)"
    using draw_window_shows [of v w] Cons.prems by auto
  obtain v2 where v2: "foldM draw_window ws v1 = Some v2" "changes (\<Union>w \<in> set ws. window_area w) v1 v2"
    and shown: "\<And>us u vs a b. ws = us @ u # vs \<Longrightarrow> vga_inside v1 a b \<Longrightarrow> (a, b) \<in> client_area u
         \<Longrightarrow> (\<forall>u \<in> set vs. (a, b) \<notin> window_area u) \<Longrightarrow> pixel v2 a b = win_pixel u (a - w_x u) (b - w_y u - 25)"
    using Cons.IH [OF _ changes_full [OF v1(2)]] Cons.prems(1) by auto
  have "pixel v2 a b = win_pixel u (a - w_x u) (b - w_y u - 25)"
    if "w # ws = us @ u # vs" "vga_inside v a b" "(a, b) \<in> client_area u" "\<forall>u \<in> set vs. (a, b) \<notin> window_area u" for us u vs a b
  proof (cases us)
    case Nil
    then show ?thesis using that v1(3) changes_other [OF v2(2), of a b] changes_inside [OF v1(2)] by auto
  next
    case (Cons _ us')
    then show ?thesis using that shown [of us' u vs a b] changes_inside [OF v1(2)] by simp
  qed
  moreover have "changes (\<Union>u \<in> set (w # ws). window_area u) v v2"
    by (rule changes_trans [OF changes_mono [OF v1(2)] changes_mono [OF v2(2)]]) auto
  ultimately show ?case using v1(1) v2(1) by auto
qed

lemma full_frame: "full v \<Longrightarrow> frame_ok v"
proof -
  assume f: "full v"
  have h: "0 < unat (scr_h v)" "unat (scr_h v) < 2 ^ 15" using full_height [OF f] by auto
  have m: "unat (scr_h v - 1) = unat (scr_h v) - 1" using h(1) by (subst unat_minus32) (auto simp: word_le_nat_alt)
  have len: "length (backbuf v) = unat (scr_pitch v) * unat (scr_h v)" using f by (simp add: full_def vga_ok_def)
  have "i div unat (scr_pitch v) \<le> unat (scr_h v) - 1" if "i < length (backbuf v)" for i
  proof -
    have "i div unat (scr_pitch v) < unat (scr_h v)" using that unfolding len by (simp add: less_mult_imp_div_less mult.commute)
    then show ?thesis by simp
  qed
  then show ?thesis using f m h by (auto simp: frame_ok_def full_def synced_def word_less_nat_alt not_less [symmetric])
qed

lemma flip_dims: "vga_flip v = Some v' \<Longrightarrow> scr_h v' = scr_h v \<and> scr_w v' = scr_w v \<and> scr_pitch v' = scr_pitch v"
  by (auto simp: vga_flip_def Let_def split: if_splits bind_splits)

lemma flip_full:
  assumes "full v"
  obtains v' where "vga_flip v = Some v'" "fbmem v' = backbuf v'" "pixel v' = pixel v" "screen_ok v'" "vga_inside v' = vga_inside v"
proof -
  obtain v' where v': "vga_flip v = Some v'" "fbmem v' = backbuf v" "backbuf v' = backbuf v" "frame_ok v'"
    using flip_copies [OF full_frame [OF assms]] by blast
  note d = flip_dims [OF v'(1)]
  have "screen_ok v'" using v'(4) d full_height [OF assms] by (simp add: screen_ok_def frame_ok_def)
  moreover have "pixel v' = pixel v" "vga_inside v' = vga_inside v"
    using d v'(3) by (intro ext, simp add: pixel_def, intro ext, simp add: vga_inside_def)
  ultimately show thesis using that v' by simp
qed

definition pointer_ok :: "mouse \<Rightarrow> bool" where
  "pointer_ok m \<longleftrightarrow> on_desk (mouse_x m) \<and> on_desk (mouse_y m) \<and> 0 \<le> mouse_y m"

definition desk_ok :: "u8 list \<Rightarrow> machine \<Rightarrow> bool" where
  "desk_ok buf m \<longleftrightarrow> stacked (wm_of m) \<and> length (windows (wm_of m)) \<le> MAX_WINDOWS \<and> (\<forall>w \<in> set (windows (wm_of m)). showable w)
     \<and> screen_ok (m_vga m) \<and> desktop_ok (m_desktop m) \<and> bar_ok buf (m_os m) (m_status m) \<and> pointer_ok (m_mouse m)"

lemma layers_set: "set (layers s) = set (windows s)"
  by (auto simp: layers_def)

lemma composite_shows:
  assumes "desk_ok buf m"
  shows "\<exists>m'. wm_composite buf m = Some m' \<and> fbmem (m_vga m') = backbuf (m_vga m') \<and> screen_ok (m_vga m')
    \<and> (\<forall>us w vs a b. layers (wm_of m) = us @ w # vs \<longrightarrow> vga_inside (m_vga m) a b
         \<longrightarrow> (a, b) \<in> client_area w - (\<Union>u \<in> set vs. window_area u) - bar_area - pointer_area (m_mouse m)
         \<longrightarrow> pixel (m_vga m') a b = win_pixel w (a - w_x w) (b - w_y w - 25))
    \<and> (\<forall>a b. vga_inside (m_vga m) a b
         \<longrightarrow> (a, b) \<notin> icons_area (m_desktop m) \<union> (\<Union>u \<in> set (windows (wm_of m)). window_area u) \<union> bar_area \<union> pointer_area (m_mouse m)
         \<longrightarrow> pixel (m_vga m') a b = 0x64)"
proof -
  have order: "composite_order (wm_of m) = Some (layers (wm_of m))"
    using assms unfolding layers_def desk_ok_def by (intro composite_order_by_z) auto
  obtain v1 where v1: "vga_clear_screen 0x64 (m_vga m) = Some v1" "full v1" "vga_inside v1 = vga_inside (m_vga m)"
      "\<forall>a b. vga_inside (m_vga m) a b \<longrightarrow> pixel v1 a b = 0x64"
    by (rule clear_full [where v = "m_vga m" and c = "0x64"]) (use assms in \<open>auto simp: desk_ok_def screen_ok_def\<close>)
  obtain v2 where v2: "draw_desktop_icons (m_desktop m) v1 = Some v2" "changes (icons_area (m_desktop m)) v1 v2"
    using drawsE [OF icons_draw v1(2)] assms unfolding desk_ok_def by metis
  have "\<forall>w \<in> set (layers (wm_of m)). showable w" using assms by (simp add: layers_set desk_ok_def)
  then obtain v3 where v3: "foldM draw_window (layers (wm_of m)) v2 = Some v3"
      "changes (\<Union>w \<in> set (windows (wm_of m)). window_area w) v2 v3"
    and shown: "\<And>us w vs a b. layers (wm_of m) = us @ w # vs \<Longrightarrow> vga_inside v2 a b \<Longrightarrow> (a, b) \<in> client_area w
         \<Longrightarrow> \<forall>u \<in> set vs. (a, b) \<notin> window_area u \<Longrightarrow> pixel v3 a b = win_pixel w (a - w_x w) (b - w_y w - 25)"
    using windows_show [of "layers (wm_of m)" v2] changes_full [OF v2(2)] unfolding layers_set by auto
  obtain st v4 where v4: "draw_status_bar buf (m_os m) (m_status m) v3 = Some (st, v4)" "changes bar_area v3 v4"
    using bar_draws [of buf "m_os m" "m_status m", OF _ changes_full [OF v3(2)]] assms unfolding desk_ok_def by blast
  obtain v5 where v5: "vga_draw_cursor (current_cursor (m_mouse m)) (mouse_x (m_mouse m)) (mouse_y (m_mouse m)) BLACK v4 = Some v5"
      "changes (pointer_area (m_mouse m)) v4 v5"
    using drawsE [OF cursor_draws changes_full [OF v4(2)]] assms unfolding pointer_area_def desk_ok_def pointer_ok_def by metis
  obtain v6 where v6: "vga_flip v5 = Some v6" "fbmem v6 = backbuf v6" "pixel v6 = pixel v5" "screen_ok v6"
    by (rule flip_full [OF changes_full [OF v5(2)]])
  note ins = v1(3) changes_inside [OF v2(2)] changes_inside [OF v3(2)] changes_inside [OF v4(2)]
  have top: "pixel v6 a b = pixel v3 a b" if "vga_inside (m_vga m) a b" "(a, b) \<notin> bar_area" "(a, b) \<notin> pointer_area (m_mouse m)" for a b
    using that ins v6(3) changes_other [OF v5(2)] changes_other [OF v4(2)] by simp
  have "wm_composite buf m = Some (m\<lparr>m_vga := v6, m_status := st\<rparr>)"
    unfolding wm_composite_def v1(1) v2(1) order v3(1) v4(1) bind.bind_lunit prod.case v5(1) v6(1) ..
  moreover have "pixel v6 a b = win_pixel w (a - w_x w) (b - w_y w - 25)"
    if "layers (wm_of m) = us @ w # vs" "vga_inside (m_vga m) a b"
      "(a, b) \<in> client_area w - (\<Union>u \<in> set vs. window_area u) - bar_area - pointer_area (m_mouse m)" for us w vs a b
    using that shown [OF that(1), of a b] top [of a b] ins by simp
  moreover have "pixel v6 a b = 0x64"
    if "vga_inside (m_vga m) a b" "(a, b) \<notin> icons_area (m_desktop m) \<union> (\<Union>u \<in> set (windows (wm_of m)). window_area u)
         \<union> bar_area \<union> pointer_area (m_mouse m)" for a b
    using that top [of a b] ins v1(4) changes_other [OF v3(2), of a b] changes_other [OF v2(2), of a b] by simp
  ultimately show ?thesis using v6(2,4) by (intro exI [of _ "m\<lparr>m_vga := v6, m_status := st\<rparr>"]) simp
qed

section \<open>Properties\<close>


definition demo_screen :: vga where
  "demo_screen = \<lparr>backbuf = replicate 240 7, fbmem = replicate 240 7, scr_w = 4, scr_h = 60, scr_pitch = 4, scr_size = 240,
     dirty_min = 60, dirty_max = 0\<rparr>"

definition demo_machine :: machine where
  "demo_machine = \<lparr>m_os = demo_bar, m_vga = demo_screen, m_mouse = mouse_start,
     m_keyboard = \<lparr>keyboard_pressed = False, shift_held = False, ctrl_held = False\<rparr>,
     m_status = replicate 8 (replicate 20 0), m_desktop = desktop_start\<rparr>"

lemma text_of_blank [simp]: "text_of (replicate n 0) = []"
  by (cases n) simp_all

lemma demo_machine_ok: "desk_ok (replicate 10 255) demo_machine"
proof -
  have wm: "windows (wm_of demo_machine) = windows demo_desk" "window_z_index (wm_of demo_machine) = window_z_index demo_desk"
    by (simp_all add: wm_of_def demo_machine_def demo_bar_def)
  have "stacked (wm_of demo_machine)"
    unfolding stacked_def wm
    by (auto simp: ranked_def demo_desk_def demo_window_def wm_start_def z_of_def
        atLeastAtMost_insertL [symmetric] simp flip: atLeastLessThanSuc_atLeastAtMost)
  moreover have "\<forall>w \<in> set (windows (wm_of demo_machine)). showable w"
    unfolding wm by (auto simp: demo_desk_def demo_window_def showable_def terminated_def)
  moreover have "bar_ok (replicate 10 255) demo_bar (replicate 8 (replicate 20 0))"
  proof -
    have "heap_inv (wm_heap (k_wm (os_kernel demo_bar))) demo_heap_blocks" "heap_used demo_heap_blocks = 2500"
      by (simp_all add: heap_inv_def demo_bar_def demo_heap_blocks_def HEAP_START_def HEAP_END_unat)
    moreover have "bitmap_ok (frames (k_vm (os_kernel demo_bar)))" "used (frames (k_vm (os_kernel demo_bar))) = {}"
      by (auto simp: demo_bar_def bitmap_ok_def NUM_FRAMES_eq used_def)
    moreover have "length (procs (os_kernel demo_bar)) = 3" "length (windows (k_wm (os_kernel demo_bar))) = 3"
      by (simp_all add: demo_bar_def demo_os_def demo_kernel_def demo_desk_def)
    ultimately show ?thesis by (auto simp: bar_ok_def NUM_FRAMES_eq lessThan_empty_iff intro!: exI [of _ demo_heap_blocks])
  qed
  ultimately show ?thesis
    using wm by (auto simp: desk_ok_def demo_machine_def demo_desk_def MAX_WINDOWS_def screen_ok_def demo_screen_def vga_ok_def
        desktop_ok_def desktop_start_def pointer_ok_def mouse_start_def on_desk_def)
qed


end
