(* ===== verification/System.thy ===== *)
theory System
  imports Compositor
begin

text \<open>
  The machine as a whole: \<^verbatim>\<open>kernel_main\<close> of \<^verbatim>\<open>kernel/kernel.c\<close>, and
  the four interrupts that drive everything after it. What each handler keeps is proved with its
  component; here it becomes an invariant of every state the machine can reach.
\<close>

section \<open>Boot\<close>

text \<open>
  What the boot sequence finds: the mode information and the frame buffer, the two programs linked
  into the kernel, and what memory holds before it is written.
\<close>

record boot_info =
  bi_width :: u16
  bi_height :: u16
  bi_pitch :: u16
  bi_fbmem :: "u8 list"
  bi_fb_start :: u32
  bi_fb_pages :: nat
  bi_idle :: "u8 list"
  bi_main :: "u8 list"
  bi_pcb :: pcb
  bi_cells :: "u16 list"
  bi_status :: "u8 list list"
  bi_esp :: u32

definition init_keyboard :: "kernel \<Rightarrow> kernel" where
  "init_keyboard k = k\<lparr>k_stdin := (k_stdin k)\<lparr>s_count := 0, read_index := 0, write_index := 0\<rparr>\<rparr>"

definition create_program :: "boot_info \<Rightarrow> u8 list \<Rightarrow> os \<Rightarrow> (pcb \<times> os) option" where
  "create_program b program s =
     do {
       (pd, m) \<leftarrow> create_kernel_page_directory (bi_fb_start b) (bi_fb_pages b) program (k_vm (os_kernel s));
       let s = s\<lparr>os_kernel := (os_kernel s)\<lparr>k_vm := m\<rparr>\<rparr>;
       let regs = make_initial_registers (os_eflags s) USER_FUNC_VADDR USER_STACK_VADDR;
       with_kernel (create_process_control_block (bi_pcb b) pd regs 0) s
     }"

definition init_memory :: "boot_info \<Rightarrow> os \<Rightarrow> (u8 list list \<times> os) option" where
  "init_memory b s =
     do {
       s \<leftarrow> on_kernel (\<lambda>k. Some (k\<lparr>k_wm := (k_wm k)\<lparr>wm_heap := init_heap (wm_heap (k_wm k))\<rparr>\<rparr>)) s;
       s \<leftarrow> on_fs init_fat16 s;
       s \<leftarrow> on_kernel (on_vm (\<lambda>m. do { bm \<leftarrow> init_frames (frames m); Some (m\<lparr>frames := bm\<rparr>) })) s;
       s \<leftarrow> on_kernel (\<lambda>k. do { (t, w) \<leftarrow> init_terminal (bi_cells b) (k_wm k); Some (k\<lparr>k_term := t, k_wm := w\<rparr>) }) s;
       (status, h) \<leftarrow> init_status_bar (bi_status b) (wm_heap (k_wm (os_kernel s)));
       let s = s\<lparr>os_kernel := (os_kernel s)\<lparr>k_wm := (k_wm (os_kernel s))\<lparr>wm_heap := h\<rparr>\<rparr>\<rparr>;
       s \<leftarrow> on_kernel (on_vm (\<lambda>m. do { bm \<leftarrow> reserve_frames 1024 (frames m); Some (m\<lparr>frames := bm\<rparr>) })) s;
       Some (status, s)
     }"

definition boot_processes :: "u32 \<Rightarrow> pcb \<Rightarrow> pcb \<Rightarrow> kernel \<Rightarrow> (registers option \<times> kernel) option" where
  "boot_processes esp main idle k = start_scheduler esp (scheduler_enqueue idle (init_scheduler main k))"

definition kernel_main :: "boot_info \<Rightarrow> machine \<Rightarrow> (registers option \<times> machine) option" where
  "kernel_main b m =
     do {
       let s = (m_os m)\<lparr>os_kernel := init_keyboard (os_kernel (m_os m))\<rparr>;
       (status, s) \<leftarrow> init_memory b s;
       let v = init_vga (bi_width b) (bi_height b) (bi_pitch b) (bi_fbmem b);
       (idle, s) \<leftarrow> create_program b (bi_idle b) s;
       (main, s) \<leftarrow> create_program b (bi_main b) s;
       (regs, s) \<leftarrow> with_kernel (boot_processes (bi_esp b) main idle) s;
       Some (regs, m\<lparr>m_os := s, m_vga := v, m_status := status\<rparr>)
     }"

section \<open>The interrupts\<close>

text \<open>
  The processor takes one interrupt at a time (the gates of the table clear the interrupt flag).
  Stale memory and the values read from ports are chosen by the environment.
\<close>

inductive machine_step :: "machine \<Rightarrow> machine \<Rightarrow> bool" where
  irq_timer: "timer_handler_main buf e1 e2 regs m = Some (r, m') \<Longrightarrow> machine_step m m'"
| irq_mouse: "machine_step m
    (m\<lparr>m_mouse := mouse_handler_main (scr_w (m_vga m)) (scr_h (m_vga m)) byte (m_mouse m)\<rparr>)"
| irq_keyboard: "keyboard_handler_main e scancode regs (m_keyboard m, os_kernel (m_os m)) = Some (r, kb, k) \<Longrightarrow>
    machine_step m (m\<lparr>m_keyboard := kb, m_os := (m_os m)\<lparr>os_kernel := k\<rparr>\<rparr>)"
| int_syscall: "syscall_handler_main old regs (m_os m) = Some (r, s) \<Longrightarrow> block_fresh (m_os m) \<Longrightarrow>
    machine_step m (m\<lparr>m_os := s\<rparr>)"

inductive_cases machine_stepE: "machine_step m m'"

text \<open>The state that \<^verbatim>\<open>kernel_main\<close> hands over to the first process.\<close>

definition machine_start :: "machine \<Rightarrow> bool" where
  "machine_start m \<longleftrightarrow>
     (\<exists>esp main idle k0 regs. boot_processes esp main idle k0 = Some (regs, os_kernel (m_os m))
        \<and> process_queue_size k0 = 0 \<and> p_fds main = initial_fds \<and> p_fds idle = initial_fds
        \<and> p_addr main \<noteq> 0 \<and> p_addr idle \<noteq> 0 \<and> p_addr idle \<noteq> p_addr main)
     \<and> mouse_ok (scr_w (m_vga m)) (scr_h (m_vga m)) (m_mouse m)
     \<and> unat (scr_w (m_vga m)) \<le> 65536 \<and> unat (scr_h (m_vga m)) \<le> 65536"

definition machine_ok :: "machine \<Rightarrow> bool" where
  "machine_ok m \<longleftrightarrow> sched_ok (os_kernel (m_os m)) \<and> fds_typed (os_kernel (m_os m))
     \<and> mouse_ok (scr_w (m_vga m)) (scr_h (m_vga m)) (m_mouse m)
     \<and> unat (scr_w (m_vga m)) \<le> 65536 \<and> unat (scr_h (m_vga m)) \<le> 65536"

lemma boot_processes_ok:
  assumes "boot_processes esp main idle k0 = Some (regs, k)" "process_queue_size k0 = 0"
    "p_fds main = initial_fds" "p_fds idle = initial_fds" "p_addr main \<noteq> 0" "p_addr idle \<noteq> 0" "p_addr idle \<noteq> p_addr main"
  shows "sched_ok k" "fds_typed k"
proof -
  have "procs k = [main\<lparr>p_status := RUNNING\<rparr>, idle]" "current_process k = p_addr main" "process_queue_size k = 2"
    using assms by (auto simp: boot_processes_def start_scheduler_def init_scheduler_def scheduler_enqueue_def head_ptr_def Let_def)
  then show "sched_ok k" "fds_typed k" using assms initial_fds_typed by (auto simp: sched_ok_def fds_typed_def)
qed

lemma type_char_roster: "type_char c k = Some k' \<Longrightarrow> same_roster k k'"
  by (rule type_char_quiet)

lemma send_char_roster: "send_char e sc c k = Some k' \<Longrightarrow> same_roster k k'"
  by (auto simp: send_char_def same_roster_def roster_def split: bind_splits if_splits
      dest: type_char_roster [unfolded same_roster_def roster_def])

lemma chords_roster: "handle_chords e sc kb k = Some (b, k') \<Longrightarrow> same_roster k k'"
  by (auto simp: handle_chords_def split: bind_splits if_splits dest: sigint_roster send_char_roster)

lemma input_roster: "handle_input e sc kb k = Some k' \<Longrightarrow> same_roster k k'"
  by (auto simp: handle_input_def split: bind_splits if_splits dest: send_char_roster)

lemma keyboard_roster:
  assumes "keyboard_handler_main e sc regs (kb, k) = Some (r, kb', k')"
  shows "same_roster k k'"
proof -
  have "same_roster k k1" if "(if P then Some (False, k) else handle_chords e sc kb1 k) = Some (b, k1)" for P kb1 b k1
    using that chords_roster by (cases P) auto
  moreover have "same_roster k2 k3" if "(if P then stdin_wake_process regs k2 else Some (regs, k2)) = Some (r, k3)" for P k2 k3
    using that stdin_wake_roster by (cases P) auto
  ultimately show ?thesis
    using assms unfolding keyboard_handler_main_def Let_def
    by (fastforce split: bind_splits if_splits prod.splits dest: input_roster intro: same_roster_trans)
qed

section \<open>The size of the screen never changes\<close>

definition same_size :: "vga \<Rightarrow> vga \<Rightarrow> bool" where
  "same_size v v' \<longleftrightarrow> scr_w v' = scr_w v \<and> scr_h v' = scr_h v"

definition keeps_size :: "(vga \<Rightarrow> vga option) \<Rightarrow> bool" where
  "keeps_size f \<longleftrightarrow> (\<forall>v v'. f v = Some v' \<longrightarrow> same_size v v')"

lemma keeps_sizeD: "keeps_size f \<Longrightarrow> f v = Some v' \<Longrightarrow> same_size v v'"
  by (simp add: keeps_size_def)

lemma keeps_size_bind: "keeps_size f \<Longrightarrow> (\<And>x. keeps_size (g x)) \<Longrightarrow> keeps_size (\<lambda>v. f v \<bind> (\<lambda>v. g v v))"
  unfolding keeps_size_def same_size_def by (auto split: bind_splits)

lemma keeps_size_seq: "keeps_size f \<Longrightarrow> keeps_size g \<Longrightarrow> keeps_size (\<lambda>v. f v \<bind> g)"
  unfolding keeps_size_def same_size_def by (auto split: bind_splits)

lemma keeps_size_pure: "(\<And>x. keeps_size (f x)) \<Longrightarrow> keeps_size (\<lambda>v. (e :: 'a option) \<bind> (\<lambda>x. f x v))"
  unfolding keeps_size_def by (auto split: bind_splits)

lemma keeps_size_skip [simp]: "keeps_size Some"
  by (simp add: keeps_size_def same_size_def)

lemma keeps_size_if: "keeps_size f \<Longrightarrow> keeps_size g \<Longrightarrow> keeps_size (\<lambda>v. if P then f v else g v)"
  by (cases P) simp_all

lemma keeps_size_fault [simp]: "keeps_size (\<lambda>v. None)"
  by (simp add: keeps_size_def)

lemma keeps_size_foldM: "(\<And>x. keeps_size (f x)) \<Longrightarrow> keeps_size (foldM f xs)"
proof (induction xs)
  case (Cons x xs)
  have "foldM f (x # xs) = (\<lambda>v. f x v \<bind> foldM f xs)" by (rule ext) simp
  then show ?case using Cons by (simp add: keeps_size_seq)
qed (simp add: keeps_size_def same_size_def)

lemma keeps_size_mark: "keeps_size f \<Longrightarrow> keeps_size (\<lambda>v. f (mark_dirty a (b v) v))"
  by (simp add: keeps_size_def same_size_def)

lemma keeps_size_put [simp]: "keeps_size (vga_put_pixel x y c)"
  by (auto simp: keeps_size_def same_size_def vga_put_pixel_def Let_def split: bind_splits if_splits)

lemma keeps_size_clear: "keeps_size (vga_clear_screen c)"
  by (auto simp: keeps_size_def same_size_def vga_clear_screen_def Let_def split: bind_splits)

lemma keeps_size_rect: "keeps_size (vga_draw_rect x y w h c)"
  unfolding vga_draw_rect_def [abs_def] fill_rect_def by (intro keeps_size_mark keeps_size_foldM keeps_size_put)

lemma keeps_size_char: "keeps_size (vga_draw_char x y ch c)"
proof -
  have "keeps_size (draw_glyph vga_put_pixel g x y c)" for g
    unfolding draw_glyph_def [abs_def]
    by (intro keeps_size_foldM keeps_size_if keeps_size_put keeps_size_skip keeps_size_fault)
  then show ?thesis
    unfolding vga_draw_char_def [abs_def] Let_def by (intro keeps_size_mark [where b = "\<lambda>_. _"] keeps_size_pure)
qed

lemma keeps_size_string: "keeps_size (vga_draw_string x y str c)"
  unfolding vga_draw_string_def [abs_def] by (intro keeps_size_pure keeps_size_foldM keeps_size_char)

lemma keeps_size_blit: "keeps_size (vga_blit x y w h buf)"
proof -
  have "keeps_size (foldM (blit_row x y w buf) rows)" for rows
    using blit_rows_backbuf by (fastforce simp: keeps_size_def same_size_def)
  then show ?thesis unfolding vga_blit_def [abs_def] Let_def by (rule keeps_size_mark [where b = "\<lambda>_. _"])
qed

lemma keeps_size_window: "keeps_size (draw_window w)"
  unfolding draw_window_def [abs_def] Let_def
  by (intro keeps_size_seq keeps_size_blit keeps_size_rect keeps_size_string)

lemma keeps_size_icons: "keeps_size (draw_desktop_icons d)"
  unfolding draw_desktop_icons_def draw_icon_def Let_def
  by (intro keeps_size_foldM keeps_size_pure keeps_size_put)

lemma keeps_size_cursor: "keeps_size (vga_draw_cursor cur x y c)"
  unfolding vga_draw_cursor_def [abs_def] Let_def
  by (cases cur) (simp_all, (intro keeps_size_foldM keeps_size_seq keeps_size_if keeps_size_put keeps_size_skip)+)

lemma keeps_size_field: "keeps_size (draw_field st i)"
  unfolding draw_field_def [abs_def] Let_def by (intro keeps_size_pure keeps_size_seq keeps_size_string)

lemma bar_size: "draw_status_bar buf s st v = Some (st', v') \<Longrightarrow> same_size v v'"
  unfolding draw_status_bar_def same_size_def
  by (auto simp: Let_def split: bind_splits
      dest!: keeps_sizeD [OF keeps_size_rect] keeps_sizeD [OF keeps_size_string] keeps_sizeD [OF keeps_size_foldM [OF keeps_size_field]]
      simp: same_size_def)

lemma composite_parts:
  assumes "wm_composite buf m = Some m'"
  shows "m_os m' = m_os m" "m_mouse m' = m_mouse m" "same_size (m_vga m) (m_vga m')"
  using assms unfolding wm_composite_def same_size_def
  by (auto split: bind_splits
      dest!: keeps_sizeD [OF keeps_size_clear] keeps_sizeD [OF keeps_size_icons] keeps_sizeD [OF keeps_size_foldM [OF keeps_size_window]]
        bar_size keeps_sizeD [OF keeps_size_cursor] flip_dims
      simp: same_size_def)

section \<open>The invariant\<close>

lemma drag_mouse:
  "snd (update_window_drag w m) = m\<lparr>current_cursor := current_cursor (snd (update_window_drag w m))\<rparr>"
proof -
  have "\<exists>c. foldl (\<lambda>m w. m\<lparr>current_cursor :=
          (if over_close_button (prev_mouse_x m) (prev_mouse_y m) w then CURSOR_POINTER else CURSOR_ARROW)\<rparr>) m ws
      = m\<lparr>current_cursor := c\<rparr>" for ws
    by (induction ws rule: rev_induct) (auto intro: exI [of _ "current_cursor m"])
  then obtain c where "snd (update_window_drag w m) = m\<lparr>current_cursor := c\<rparr>" by (auto simp: update_window_drag_def)
  then show ?thesis by simp
qed

lemma click_mouse:
  assumes "update_window_click e w m = Some (w', m')"
  shows "mouse_ok sw sh m' = mouse_ok sw sh m"
  using assms by (auto simp: update_window_click_def Let_def mouse_ok_def split: option.splits if_splits bind_splits)

lemma update_window_parts:
  assumes "update_window e1 e2 m = Some m'"
  shows "same_roster (os_kernel (m_os m)) (os_kernel (m_os m'))" "m_vga m' = m_vga m"
    "mouse_ok sw sh (m_mouse m') = mouse_ok sw sh (m_mouse m)"
proof -
  obtain w mo where d: "update_window_drag (wm_of m) (m_mouse m) = (w, mo)" by (cases "update_window_drag (wm_of m) (m_mouse m)")
  have mo: "mo = (m_mouse m)\<lparr>current_cursor := current_cursor mo\<rparr>" using drag_mouse [of "wm_of m" "m_mouse m"] by (simp add: d)
  have ok: "mouse_ok sw sh mo = mouse_ok sw sh (m_mouse m)" by (subst mo) (simp add: mouse_ok_def)
  have ok': "mouse_ok sw sh (mo\<lparr>prev_mouse_buttons := b\<rparr>) = mouse_ok sw sh mo" for b by (simp add: mouse_ok_def)
  have "\<exists>w' mo' d. m' = (set_wm w' m)\<lparr>m_mouse := mo', m_desktop := d\<rparr> \<and> mouse_ok sw sh mo' = mouse_ok sw sh mo"
  proof (cases "mouse_buttons mo AND 1 \<noteq> 0 \<and> \<not> prev_mouse_buttons mo AND 1 \<noteq> 0")
    case True
    then have click: "\<not> \<not> (mouse_buttons mo AND 1 \<noteq> 0 \<and> \<not> prev_mouse_buttons mo AND 1 \<noteq> 0)" by blast
    then obtain w1 d w2 mo2 where "update_window_click e2 w1 (mo\<lparr>prev_mouse_buttons := mouse_buttons mo\<rparr>) = Some (w2, mo2)"
        "m' = (set_wm w2 m)\<lparr>m_mouse := mo2, m_desktop := d\<rparr>"
      using assms unfolding update_window_def d Let_def prod.case if_not_P [OF click] by (auto split: bind_splits)
    then show ?thesis using click_mouse ok' by blast
  next
    case False
    then obtain w1 where "m' = (set_wm w1 m)\<lparr>m_mouse := mo\<rparr>"
      using assms unfolding update_window_def d Let_def prod.case if_P [OF False] by (auto split: bind_splits)
    then have "m' = (set_wm w1 m)\<lparr>m_mouse := mo, m_desktop := m_desktop m\<rparr>" by (simp add: set_wm_def)
    then show ?thesis by blast
  qed
  then show "same_roster (os_kernel (m_os m)) (os_kernel (m_os m'))" "m_vga m' = m_vga m"
    "mouse_ok sw sh (m_mouse m') = mouse_ok sw sh (m_mouse m)"
    using ok by (auto simp: set_wm_def same_roster_def roster_def)
qed

lemma timer_keeps_ok:
  assumes "timer_handler_main buf e1 e2 regs m = Some (r, m')" "machine_ok m"
  shows "machine_ok m'"
proof -
  obtain r1 k m1 where k: "update_scheduler regs (os_kernel (m_os m)) = Some (r1, k)"
      and m1: "update_window e1 e2 (m\<lparr>m_os := (m_os m)\<lparr>timer_ticks := timer_ticks (m_os m) + 1, os_kernel := k\<rparr>\<rparr>) = Some m1"
      and m': "wm_composite buf m1 = Some m'"
    using assms(1) by (auto simp: timer_handler_main_def with_kernel_def Let_def split: bind_splits)
  have "sched_ok k" "fds_typed k"
    using k assms(2) update_scheduler_ok fds_kept_typed [OF update_scheduler_fds] unfolding machine_ok_def by blast+
  then have "sched_ok (os_kernel (m_os m1))" "fds_typed (os_kernel (m_os m1))"
    using update_window_parts(1) [OF m1] same_roster_ok fds_kept_typed [OF roster_fds] by auto
  then show ?thesis
    using composite_parts [OF m'] update_window_parts(2,3) [OF m1] assms(2) by (simp add: machine_ok_def same_size_def)
qed

interpretation kernel: invariant_system machine_start machine_step machine_ok
proof unfold_locales
  fix m assume "machine_start m"
  then show "machine_ok m" using boot_processes_ok unfolding machine_start_def machine_ok_def by blast
next
  fix m m' assume ok: "machine_ok m" and "machine_step m m'"
  from this(2) show "machine_ok m'"
  proof cases
    case irq_timer
    then show ?thesis using timer_keeps_ok ok by blast
  next
    case irq_mouse
    then show ?thesis using ok handler_keeps by (simp add: machine_ok_def)
  next
    case (irq_keyboard e scancode regs r kb k)
    then have "same_roster (os_kernel (m_os m)) k" using keyboard_roster by blast
    then show ?thesis
      using irq_keyboard(1) ok same_roster_ok fds_kept_typed [OF roster_fds] by (auto simp: machine_ok_def)
  next
    case (int_syscall old regs r s)
    then show ?thesis using syscall_sound ok by (auto simp: machine_ok_def sound_def)
  qed
qed

section \<open>Properties\<close>



text \<open>A machine with two processes, a frame buffer of 1024 by 768, and one interrupt of the mouse.\<close>

definition booted :: machine where
  "booted = demo_machine\<lparr>m_os := (m_os demo_machine)\<lparr>os_kernel :=
       snd (the (boot_processes 0 (demo_pcb 0x101000 1 READY 0) (demo_pcb 0x102000 0 READY 0)
         (demo_kernel\<lparr>process_queue_size := 0\<rparr>)))\<rparr>,
     m_vga := demo_screen\<lparr>scr_w := 1024, scr_h := 768\<rparr>\<rparr>"

lemma booted_starts: "machine_start booted"
proof -
  let ?main = "demo_pcb 0x101000 1 READY 0" and ?idle = "demo_pcb 0x102000 0 READY 0" and ?k0 = "demo_kernel\<lparr>process_queue_size := 0\<rparr>"
  obtain r k where b: "boot_processes 0 ?main ?idle ?k0 = Some (r, k)"
    by (simp add: boot_processes_def start_scheduler_def init_scheduler_def scheduler_enqueue_def Let_def head_ptr_def demo_pcb_def)
  then have "os_kernel (m_os booted) = k" by (simp add: booted_def)
  moreover have "mouse_ok 1024 768 mouse_start" by (simp add: mouse_ok_def mouse_start_def)
  ultimately show ?thesis
    using b unfolding machine_start_def
    by (intro conjI exI [of _ 0] exI [of _ ?main] exI [of _ ?idle] exI [of _ ?k0] exI [of _ r])
      (simp_all add: booted_def demo_pcb_def demo_machine_def)
qed

definition moved :: machine where
  "moved = booted\<lparr>m_mouse := mouse_handler_main (scr_w (m_vga booted)) (scr_h (m_vga booted)) 8 (m_mouse booted)\<rparr>"

lemma moved_reached: "reach machine_start machine_step moved"
proof (rule reach_step)
  show "reach machine_start machine_step booted" by (rule reach_init) (rule booted_starts)
  show "machine_step booted moved" unfolding moved_def by (rule irq_mouse)
qed

lemma moved_mouse: "mouse_cycle (m_mouse moved) = 1" "unat (scr_w (m_vga moved)) = 1024" "mouse_cycle (m_mouse booted) = 0"
  by (simp_all add: moved_def mouse_handler_main_def booted_def demo_machine_def mouse_start_def Let_def)



lemma kilo_text_zero: "length buf = 10 \<Longrightarrow> kilo_text buf 0 = None"
proof -
  assume l: "length buf = 10"
  have d: "decimal 0 = [48]" by (simp add: decimal_rec dec_digit_def)
  have i: "itos buf 0 = Some ([48] @ 0 # drop 2 buf)" using itos_fits [of 0 buf] l by (simp add: d numeral_2_eq_2)
  have "0 \<notin> set [48 :: u8]" by simp
  from text_of_zero [OF this, of "drop 2 buf"] have "strlen ([48] @ 0 # drop 2 buf) = Some 1" using strlen_text by fastforce
  then show ?thesis unfolding kilo_text_def i bind.bind_lunit by (simp add: put_int_def)
qed

lemma bar_without_heap:
  assumes "heap_head_ptr (wm_heap (k_wm (os_kernel s))) = 0" "length buf = 10"
  shows "draw_status_bar buf s status v = None"
proof -
  have "get_heap_status (wm_heap (k_wm (os_kernel s))) = Some 0"
    using assms(1) by (simp add: get_heap_status_def heap_status_loop.simps)
  then have "fill_status buf s st = None" for st using kilo_text_zero [OF assms(2)] by (simp add: fill_status_def)
  then show ?thesis by (auto simp: draw_status_bar_def Let_def split: bind_splits)
qed

text \<open>C38: \<^verbatim>\<open>load_idtp\<close> lets interrupts in before \<^verbatim>\<open>init_heap\<close>, and the
  timer handler is not ready for that: as long as the heap is empty the first tick writes below the
  buffer of the status bar, because the text for 0 bytes has no third digit from the right.\<close>

theorem early_tick_faults:
  assumes "\<not> enable_scheduler (os_kernel (m_os m))" "windows (wm_of m) = []"
    "heap_head_ptr (wm_heap (wm_of m)) = 0" "length buf = 10"
  shows "timer_handler_main buf e1 e2 regs m = None"
proof -
  let ?m = "m\<lparr>m_os := (m_os m)\<lparr>timer_ticks := timer_ticks (m_os m) + 1\<rparr>\<rparr>"
  have "wm_composite buf m1 = None" if "update_window e1 e2 ?m = Some m1" for m1
  proof -
    have w: "windows (k_wm (os_kernel (m_os m))) = []" using assms(2) by (simp add: wm_of_def)
    have "heap_head_ptr (wm_heap (k_wm (os_kernel (m_os m1)))) = 0"
      using that assms(3) w
      by (auto simp: update_window_def update_window_drag_def update_focused_window_def update_window_click_def wm_of_def set_wm_def Let_def
          split: bind_splits if_splits)
    then show ?thesis using bar_without_heap assms(4) by (auto simp: wm_composite_def split: bind_splits)
  qed
  then show ?thesis
    using assms(1) by (auto simp: timer_handler_main_def with_kernel_def update_scheduler_def Let_def split: bind_splits)
qed

theorem early_tick_faults_witness:
  "timer_handler_main (replicate 10 0) zero_event zero_event zero_registers
     (demo_machine\<lparr>m_os := (m_os demo_machine)\<lparr>os_kernel := demo_kernel\<lparr>enable_scheduler := False, k_wm := wm_start boot_heap\<rparr>\<rparr>\<rparr>) = None"
  by (rule early_tick_faults) (simp_all add: wm_of_def wm_start_def boot_heap_def)

end
