(* ===== verification/UserCalls.thy ===== *)
theory UserCalls
  imports Strings EventQueue
begin

text \<open>
  What the window programs ask of the kernel, as values: \<^verbatim>\<open>sys_create_rect\<close>,
  \<^verbatim>\<open>sys_create_text\<close> and \<^verbatim>\<open>sys_flush\<close> of \<^verbatim>\<open>user-space/lib/lib.h\<close> with
  the fields of the structures they pass. The window is always the program's own.
\<close>

datatype call =
    Rect int int int int u8
  | Text int int "u8 list" u8
  | Flush

end
