(* ===== verification/UserHeap.thy ===== *)
theory UserHeap
  imports PageTable
begin

text \<open>
  The heap of the user programs, \<^verbatim>\<open>user-space/lib/malloc.c\<close>. Its blocks have the same
  header as those of the kernel heap, and the list of blocks is the same view, but blocks come
  page by page from \<^verbatim>\<open>sys_sbrk\<close>, and the search and the splitting differ.
  \<^verbatim>\<open>sys_sbrk\<close> is what \<^verbatim>\<open>handle_syscall_sbrk\<close> does to the break of the process:
  it returns the old one and moves it.
\<close>

section \<open>Model\<close>

record uheap =
  u_head :: u32
  u_mem :: hmem
  u_break :: u32

definition uheap_start :: uheap where
  "uheap_start = \<lparr>u_head = 0, u_mem = Map.empty, u_break = USER_HEAP_VADDR\<rparr>"

definition sys_sbrk :: "u32 \<Rightarrow> uheap \<Rightarrow> u32 \<times> uheap" where
  "sys_sbrk offset h = (u_break h, h\<lparr>u_break := u_break h + offset\<rparr>)"

definition create_heap_block :: "uheap \<Rightarrow> u32 \<times> uheap" where
  "create_heap_block h =
     (let (block, h) = sys_sbrk (of_nat PAGE_SIZE) h
      in (block, h\<lparr>u_mem := (u_mem h)(block \<mapsto> \<lparr>h_size = of_nat PAGE_SIZE - HDR, h_free = True, h_next = 0\<rparr>)\<rparr>))"

definition usplit_block :: "u32 \<Rightarrow> u32 \<Rightarrow> hmem \<Rightarrow> hmem option" where
  "usplit_block ptr sz m =
     do {
       b \<leftarrow> m ptr;
       let remaining_size = h_size b - sz - HDR;
       if remaining_size < HDR * 3 then Some (m(ptr \<mapsto> b\<lparr>h_free := False\<rparr>))
       else let new_block = ptr + HDR + sz
         in Some (m(new_block \<mapsto> \<lparr>h_size = remaining_size, h_free = True, h_next = h_next b\<rparr>,
                   ptr \<mapsto> b\<lparr>h_size := sz, h_free := False, h_next := new_block\<rparr>))
     }"

text \<open>The loop of \<^verbatim>\<open>malloc\<close>: it goes on only over live blocks larger than the request.\<close>

partial_function (option) malloc_search :: "u32 \<Rightarrow> u32 \<Rightarrow> u32 \<Rightarrow> hmem \<Rightarrow> (u32 \<times> u32) option" where
  "malloc_search sz tail cur m =
     (if cur = 0 then Some (tail, cur)
      else case m cur of
        None \<Rightarrow> None
      | Some b \<Rightarrow> if \<not> h_free b \<and> sz < h_size b then malloc_search sz cur (h_next b) m else Some (tail, cur))"

definition malloc :: "u32 \<Rightarrow> uheap \<Rightarrow> (u32 \<times> uheap) option" where
  "malloc sz h =
     do {
       let h = (if u_head h = 0 then let (p, h) = create_heap_block h in h\<lparr>u_head := p\<rparr> else h);
       (tail, cur) \<leftarrow> malloc_search sz 0 (u_head h) (u_mem h);
       (cur, h) \<leftarrow>
         (if cur = 0 then do {
            let (p, h) = create_heap_block h;
            b \<leftarrow> u_mem h tail;
            Some (p, h\<lparr>u_mem := (u_mem h)(tail \<mapsto> b\<lparr>h_next := p\<rparr>)\<rparr>)
          } else Some (cur, h));
       m \<leftarrow> usplit_block cur sz (u_mem h);
       Some (cur + HDR, h\<lparr>u_mem := m\<rparr>)
     }"

definition free :: "u32 \<Rightarrow> uheap \<Rightarrow> uheap option" where
  "free ptr h =
     (if ptr = 0 then Some h
      else do {
        b \<leftarrow> u_mem h (ptr - HDR);
        Some (h\<lparr>u_mem := (u_mem h)(ptr - HDR \<mapsto> b\<lparr>h_free := True\<rparr>)\<rparr>)
      })"

section \<open>The blocks\<close>

text \<open>Blocks lie in address order without overlap, between \<open>lo\<close> and \<open>hi\<close>.\<close>

fun laid_out :: "nat \<Rightarrow> nat \<Rightarrow> blk list \<Rightarrow> bool" where
  "laid_out lo hi [] \<longleftrightarrow> lo \<le> hi"
| "laid_out lo hi ((a, s, f) # bs) \<longleftrightarrow> lo \<le> unat a \<and> laid_out (unat a + 12 + unat s) hi bs"

definition uheap_ok :: "uheap \<Rightarrow> blk list \<Rightarrow> bool" where
  "uheap_ok h bs \<longleftrightarrow> chain (u_mem h) (u_head h) bs \<and> laid_out (unat USER_HEAP_VADDR) (unat (u_break h)) bs"

text \<open>What becomes of a free block: the tail of the request stays with it when it is too small for three headers.\<close>

definition ucarve :: "u32 \<Rightarrow> u32 \<Rightarrow> u32 \<Rightarrow> blk list" where
  "ucarve n a s =
     (if unat s < unat n + 48 then [(a, s, False)] else [(a, n, False), (a + HDR + n, s - n - HDR, True)])"

lemma laid_le: "laid_out lo hi bs \<Longrightarrow> lo \<le> hi"
  by (induction lo hi bs rule: laid_out.induct) auto

lemma laid_bounds: "laid_out lo hi bs \<Longrightarrow> (a, s, f) \<in> set bs \<Longrightarrow> lo \<le> unat a \<and> unat a + 12 + unat s \<le> hi"
proof (induction bs arbitrary: lo)
  case (Cons b bs)
  obtain a' s' f' where b: "b = (a', s', f')" by (cases b)
  have rest: "lo \<le> unat a'" "laid_out (unat a' + 12 + unat s') hi bs" using Cons.prems(1) by (simp_all add: b)
  show ?case
  proof (cases "(a, s, f) = b")
    case True
    then show ?thesis using rest laid_le [OF rest(2)] by (simp add: b)
  next
    case False
    then have "(a, s, f) \<in> set bs" using Cons.prems(2) by simp
    then show ?thesis using Cons.IH [OF rest(2)] rest(1) by linarith
  qed
qed simp

lemma laid_notin: "laid_out lo hi bs \<Longrightarrow> unat x < lo \<Longrightarrow> x \<notin> addrs bs"
  using laid_bounds by force

lemma laid_tail: "laid_out lo hi (xs @ (a, s, f) # ys) \<Longrightarrow> laid_out (unat a + 12 + unat s) hi ys"
  by (induction lo hi xs rule: laid_out.induct) auto

lemma laid_before: "laid_out lo hi (xs @ (a, s, f) # ys) \<Longrightarrow> (b, t, g) \<in> set xs \<Longrightarrow> unat b + 12 + unat t \<le> unat a"
proof (induction lo hi xs rule: laid_out.induct)
  case (2 lo hi a' s' f' bs)
  then show ?case using laid_bounds [of "unat a' + 12 + unat s'" hi "bs @ (a, s, f) # ys" a s f] by auto
qed simp

lemma laid_replace:
  "laid_out lo hi (xs @ (a, s, f) # ys) \<Longrightarrow> (\<And>l. l \<le> unat a \<Longrightarrow> laid_out l hi (zs @ ys)) \<Longrightarrow> laid_out lo hi (xs @ zs @ ys)"
  by (induction lo hi xs rule: laid_out.induct) auto

lemma search_chain:
  "chain m p (xs @ (a, s, True) # ys) \<Longrightarrow> \<forall>(b, t, f) \<in> set xs. \<not> f \<and> sz < t \<Longrightarrow>
    \<exists>tail. malloc_search sz tl0 p m = Some (tail, a)"
proof (induction xs arbitrary: p tl0)
  case Nil
  then show ?case by (subst malloc_search.simps) (auto split: option.splits)
next
  case (Cons x xs)
  obtain b t f where x: "x = (b, t, f)" by (cases x)
  then obtain hb where hb: "m b = Some hb" "h_size hb = t" "h_free hb = f" "chain m (h_next hb) (xs @ (a, s, True) # ys)" "p = b" "b \<noteq> 0"
    using Cons.prems(1) by (auto split: option.splits)
  show ?case
    using Cons.IH [OF hb(4)] Cons.prems(2) hb by (subst malloc_search.simps) (simp add: x)
qed

lemma usplit_chain:
  assumes ch: "chain m p (xs @ (a, s, True) # ys)" and lay: "laid_out lo hi (xs @ (a, s, True) # ys)"
    and n: "unat n + 12 \<le> unat s" and hi: "hi < 2 ^ 32"
  shows "\<exists>m'. usplit_block a n m = Some m' \<and> chain m' p (xs @ ucarve n a s @ ys)"
proof -
  obtain b where b: "m a = Some b" "h_size b = s" "h_free b = True" "chain m (h_next b) ys" "a \<noteq> 0"
    using chain_lookup [OF ch] by blast
  have ys: "laid_out (unat a + 12 + unat s) hi ys" by (rule laid_tail [OF lay])
  have "unat a + 12 + unat s < 2 ^ 32" using laid_le [OF ys] hi by simp
  then have q: "unat (a + HDR + n) = unat a + 12 + unat n"
    using n by (simp add: HDR_def unat_plus32)
  have a_xs: "a \<notin> addrs xs" and q_xs: "a + HDR + n \<notin> addrs xs" using laid_before [OF lay] q by fastforce+
  have a_ys: "a \<notin> addrs ys" and q_ys: "a + HDR + n \<notin> addrs ys" using laid_notin [OF ys] q n by auto
  have "unat (a + HDR + n) \<noteq> unat a" "unat (a + HDR + n) \<noteq> 0" using q by simp_all
  then have qa: "a + HDR + n \<noteq> a" "a + HDR + n \<noteq> 0" by (metis, metis unat_0)
  show ?thesis
  proof (cases "unat s < unat n + 48")
    case True
    let ?m' = "m(a \<mapsto> b\<lparr>h_free := False\<rparr>)"
    have "chain ?m' (h_next b) ys" using b(4) a_ys by (subst chain_frame) auto
    then have "chain ?m' p (xs @ (a, s, False) # ys)"
      using chain_replace [OF ch, of ?m' "b\<lparr>h_free := False\<rparr>" ys] a_xs b(2) by force
    then show ?thesis using True b(1,2) remaining_small(1) [OF n] by (simp add: usplit_block_def ucarve_def Let_def)
  next
    case False
    let ?q = "a + HDR + n"
    let ?h = "\<lparr>h_size = s - n - HDR, h_free = True, h_next = h_next b\<rparr>"
    let ?b' = "b\<lparr>h_size := n, h_free := False, h_next := ?q\<rparr>"
    let ?m' = "m(?q \<mapsto> ?h, a \<mapsto> ?b')"
    have "?m' x = m x" if "x \<in> addrs ys" for x
    proof -
      have "x \<noteq> a" "x \<noteq> ?q" using that a_ys q_ys by metis+
      then show ?thesis by simp
    qed
    then have "chain ?m' (h_next b) ys" using b(4) chain_frame [of ys ?m' m] by blast
    then have "chain ?m' ?q ((?q, s - n - HDR, True) # ys)" using qa by simp
    then have "chain ?m' p (xs @ (a, n, False) # (?q, s - n - HDR, True) # ys)"
      using chain_replace [OF ch, of ?m' ?b' "(?q, s - n - HDR, True) # ys"] a_xs q_xs by force
    then show ?thesis using False b(1,2) remaining_small(1) [OF n] by (simp add: usplit_block_def ucarve_def Let_def)
  qed
qed

lemma usplit_laid:
  assumes lay: "laid_out lo hi (xs @ (a, s, True) # ys)" and n: "unat n + 12 \<le> unat s" and hi: "hi < 2 ^ 32"
  shows "laid_out lo hi (xs @ ucarve n a s @ ys)"
proof (rule laid_replace [OF lay])
  have ys: "laid_out (unat a + 12 + unat s) hi ys" by (rule laid_tail [OF lay])
  have "unat a + 12 + unat s < 2 ^ 32" using laid_le [OF ys] hi by simp
  then have "unat (a + HDR + n) = unat a + 12 + unat n" using n by (simp add: HDR_def unat_plus32)
  then show "laid_out l hi (ucarve n a s @ ys)" if "l \<le> unat a" for l
    using that ys n remaining_small(2) [OF n] by (auto simp: ucarve_def ac_simps)
qed

section \<open>Properties\<close>

text \<open>When the live blocks before the first free one are all larger than the request, and the free
  one has room for it and a header, \<^verbatim>\<open>malloc\<close> returns that block, makes it live, keeps what
  is left as a free block when it is worth it, and changes no other block.\<close>

theorem malloc_takes_first_free:
  assumes "uheap_ok h (xs @ (a, s, True) # ys)" "\<forall>(b, t, f) \<in> set xs. \<not> f \<and> sz < t" "unat sz + 12 \<le> unat s"
  shows "\<exists>h'. malloc sz h = Some (a + HDR, h') \<and> uheap_ok h' (xs @ ucarve sz a s @ ys)"
proof -
  have ch: "chain (u_mem h) (u_head h) (xs @ (a, s, True) # ys)"
    and lay: "laid_out (unat USER_HEAP_VADDR) (unat (u_break h)) (xs @ (a, s, True) # ys)"
    using assms(1) by (simp_all add: uheap_ok_def)
  have "u_head h \<noteq> 0" "a \<noteq> 0" using ch chain_lookup [OF ch] by (cases xs; auto)+
  moreover obtain tail where "malloc_search sz 0 (u_head h) (u_mem h) = Some (tail, a)"
    using search_chain [OF ch assms(2)] by blast
  moreover have hi: "unat (u_break h) < 2 ^ 32" using unsigned_less [of "u_break h"] by simp
  moreover obtain m' where "usplit_block a sz (u_mem h) = Some m'" "chain m' (u_head h) (xs @ ucarve sz a s @ ys)"
    using usplit_chain [OF ch lay assms(3) hi] by blast
  ultimately show ?thesis
    using usplit_laid [OF lay assms(3) hi] by (simp add: malloc_def uheap_ok_def Let_def)
qed

text \<open>C39: The loop of \<^verbatim>\<open>malloc\<close> stops at the first block that is free \<^emph>\<open>or\<close> too small,
  where it should go on while a block is not free or too small. So a request at least as large as a
  live first block is given that block: two live objects share their memory.\<close>

theorem malloc_hands_out_live_block:
  assumes "u_mem h (u_head h) = Some b" "u_head h \<noteq> 0" "\<not> h_free b" "h_size b \<le> sz"
  shows "\<exists>h'. malloc sz h = Some (u_head h + HDR, h')"
proof -
  have "malloc_search sz 0 (u_head h) (u_mem h) = Some (0, u_head h)"
    using assms by (subst malloc_search.simps) (simp add: not_less [symmetric])
  then show ?thesis using assms(1,2) by (simp add: malloc_def usplit_block_def Let_def)
qed

text \<open>The heap after a first request of 100 bytes.\<close>

definition demo_uheap :: uheap where
  "demo_uheap = \<lparr>u_head = 0x48000000, u_mem =
     [0x48000000 \<mapsto> \<lparr>h_size = 100, h_free = False, h_next = 0x48000070\<rparr>, 0x48000070 \<mapsto> \<lparr>h_size = 3972, h_free = True, h_next = 0\<rparr>],
     u_break = 0x48001000\<rparr>"

lemma demo_uheap_made: "map_option fst (malloc 100 uheap_start) = Some 0x4800000C"
  by (simp add: malloc_def uheap_start_def create_heap_block_def sys_sbrk_def USER_HEAP_VADDR_def malloc_search.simps usplit_block_def
      PAGE_SIZE_def HDR_def Let_def)

theorem malloc_takes_first_free_witness:
  "\<exists>h'. malloc 40 demo_uheap = Some (0x4800007C, h')
     \<and> uheap_ok h' [(0x48000000, 100, False), (0x48000070, 40, False), (0x480000A4, 3920, True)]"
proof -
  have "uheap_ok demo_uheap ([(0x48000000, 100, False)] @ (0x48000070, 3972, True) # [])"
    by (simp add: uheap_ok_def demo_uheap_def USER_HEAP_VADDR_def)
  from malloc_takes_first_free [OF this, of 40] show ?thesis by (simp add: ucarve_def HDR_def)
qed

theorem malloc_hands_out_live_block_witness: "\<exists>h'. malloc 200 demo_uheap = Some (0x4800000C, h')"
  using malloc_hands_out_live_block [of demo_uheap "\<lparr>h_size = 100, h_free = False, h_next = 0x48000070\<rparr>" 200]
  by (simp add: demo_uheap_def HDR_def)

end
