(* ===== verification/Shell.thy ===== *)
theory Shell
  imports UserHeap Strings
begin

text \<open>
  The shell, \<^verbatim>\<open>user-space/programs/shell.c\<close>. The system calls are an argument: for each
  the function from its arguments and the state of the world to its answer and the new state.
  A read answers the bytes that it stored, or nothing for -1. A successful \<^verbatim>\<open>sys_exec\<close> does
  not return: the flag \<open>replaced\<close> says so. Buffers on the stack come with what they held before.
\<close>

section \<open>Model\<close>

definition MAX_INPUT :: nat where "MAX_INPUT = 256"
definition MAX_PS :: nat where "MAX_PS = 16"
definition READ_BUF :: nat where "READ_BUF = 512"

record ps_entry =
  pe_pid :: u32
  pe_parent :: u32
  pe_status :: u32

record 'w sys =
  s_open :: "u8 list \<Rightarrow> 'w \<Rightarrow> int \<times> 'w"
  s_read :: "int \<Rightarrow> nat \<Rightarrow> 'w \<Rightarrow> u8 list option \<times> 'w"
  s_write :: "int \<Rightarrow> u8 list \<Rightarrow> 'w \<Rightarrow> 'w"
  s_close :: "int \<Rightarrow> 'w \<Rightarrow> 'w"
  s_exec :: "u8 list \<Rightarrow> u8 list \<Rightarrow> 'w \<Rightarrow> bool \<times> 'w"
  s_fork :: "'w \<Rightarrow> int \<times> 'w"
  s_waitpid :: "int \<Rightarrow> 'w \<Rightarrow> 'w"
  s_ps :: "nat \<Rightarrow> 'w \<Rightarrow> ps_entry list \<times> 'w"
  s_kill :: "int \<Rightarrow> 'w \<Rightarrow> 'w"
  s_create :: "u8 list \<Rightarrow> u8 list \<Rightarrow> 'w \<Rightarrow> 'w"

record 'w shell =
  shell_path :: "u8 list"
  shell_heap :: uheap
  world :: 'w
  replaced :: bool

definition ln :: "string \<Rightarrow> string" where "ln s = s @ [CHR 0x0A]"

definition write_out :: "'w sys \<Rightarrow> u8 list \<Rightarrow> 'w shell \<Rightarrow> 'w shell" where
  "write_out S bs s = s\<lparr>world := s_write S 1 bs (world s)\<rparr>"

text \<open>\<^verbatim>\<open>print\<close> of \<^verbatim>\<open>user-space/lib/lib.c\<close>, and the same for a literal.\<close>

definition print :: "'w sys \<Rightarrow> u8 list \<Rightarrow> 'w shell \<Rightarrow> 'w shell option" where
  "print S str s = do { n \<leftarrow> strlen str; Some (write_out S (take n str) s) }"

definition say :: "'w sys \<Rightarrow> string \<Rightarrow> 'w shell \<Rightarrow> 'w shell" where
  "say S str = write_out S (map of_char str)"

definition print_error :: "'w sys \<Rightarrow> string \<Rightarrow> 'w shell \<Rightarrow> 'w shell" where
  "print_error S msg s = say S [CHR 0x0A] (say S msg (say S ''error: '' s))"

definition handle_help :: "'w sys \<Rightarrow> 'w shell \<Rightarrow> 'w shell" where
  "handle_help S s = fold (\<lambda>str. say S (ln str))
     [''  ls             List files in current directory'', ''  cd <dir>       Change directory'',
      ''  cat <file>     Print file contents'', ''  exec <file>    Run program (replaces shell)'',
      ''  fork <file>    Run program as child process'', ''  kill <pid>     Kill a process'',
      ''  ps             Show running processes'', ''  touch <f> <d>  Create file with content'',
      ''  bf <file>      Run Brainfuck program'', ''  clear          Clear terminal screen'',
      ''  help           Show this message''] s"

definition handle_clear :: "'w sys \<Rightarrow> 'w shell \<Rightarrow> 'w shell" where
  "handle_clear S s = say S (ln ''SHELL'') (say S (CHR 0x1B # ''[2J'' @ CHR 0x1B # ''[H'') s)"

definition handle_exec :: "'w sys \<Rightarrow> u8 list \<Rightarrow> u8 list \<Rightarrow> 'w shell \<Rightarrow> 'w shell option" where
  "handle_exec S file_name arg s =
     do {
       c \<leftarrow> get file_name 0;
       if c = 0 then Some (say S (ln ''Usage: exec <path>'') s)
       else
         (let (ok, w) = s_exec S file_name arg (world s); s = s\<lparr>world := w\<rparr>
          in if ok then Some (s\<lparr>replaced := True\<rparr>)
             else do {
               s \<leftarrow> print S file_name (say S ''exec failed: '' s);
               Some (say S (ln []) s)
             })
     }"

definition handle_fork :: "'w sys \<Rightarrow> u8 list \<Rightarrow> u8 list \<Rightarrow> 'w shell \<Rightarrow> 'w shell option" where
  "handle_fork S file_name arg s =
     (let (child, w) = s_fork S (world s); s = s\<lparr>world := w\<rparr>
      in if child = 0 then handle_exec S file_name arg s
         else Some (s\<lparr>world := s_waitpid S child (world s)\<rparr>))"

text \<open>What a read returns and leaves in the buffer.\<close>

definition received :: "u8 list option \<Rightarrow> u8 list \<Rightarrow> int \<times> u8 list" where
  "received r buf = (case r of None \<Rightarrow> (-1, buf) | Some bs \<Rightarrow> (int (length bs), bs @ drop (length bs) buf))"

definition ls_entry :: "'w sys \<Rightarrow> u8 list \<Rightarrow> nat \<Rightarrow> 'w shell \<Rightarrow> 'w shell option" where
  "ls_entry S buf i s =
     do {
       let name = drop i buf;
       let ext = drop (i + 8) buf;
       c \<leftarrow> get name 0;
       if c = 0x00 \<or> c = 0xE5 then Some s
       else do {
         k \<leftarrow> strfind name 32;
         let s = write_out S (take (if k < 0 then 8 else nat k) name) s;
         e \<leftarrow> strfind ext 32;
         let s = (if e > 0 then write_out S (take (nat e) ext) (say S ''.'' s) else s);
         Some (say S (ln []) s)
       }
     }"

definition handle_ls :: "'w sys \<Rightarrow> u8 list \<Rightarrow> 'w shell \<Rightarrow> 'w shell option" where
  "handle_ls S buf s =
     (let (fd, w) = s_open S (shell_path s) (world s); s = s\<lparr>world := w\<rparr>
      in if fd = -1 then Some (print_error S ''cannot open directory'' s)
         else
           (let (r, w) = s_read S fd READ_BUF (world s); (sz, buf) = received r buf; s = s\<lparr>world := w\<rparr>
            in do {
              s \<leftarrow> foldM (ls_entry S buf) (map (\<lambda>i. i * 32) [0..<nat ((sz + 31) div 32)]) s;
              Some (s\<lparr>world := s_close S fd (world s)\<rparr>)
            }))"

text \<open>The loop of \<^verbatim>\<open>cd ..\<close>, downwards from the character before the last one.\<close>

fun up_loop :: "nat \<Rightarrow> u8 list \<Rightarrow> u8 list option" where
  "up_loop 0 path = Some path"
| "up_loop (Suc i) path = do { c \<leftarrow> get path i; if c = 47 then put path (i + 1) 0 else up_loop i path }"

definition handle_cd :: "'w sys \<Rightarrow> u8 list \<Rightarrow> u8 list \<Rightarrow> 'w shell \<Rightarrow> 'w shell option" where
  "handle_cd S buf cmd s =
     do {
       up \<leftarrow> strcmp cmd (cstr ''..'');
       if up then do {
         sz \<leftarrow> strlen (shell_path s);
         path \<leftarrow> up_loop (sz - 1) (shell_path s);
         Some (s\<lparr>shell_path := path\<rparr>)
       }
       else
         (let (fd, w) = s_open S cmd (world s); s = s\<lparr>world := w\<rparr>
          in if fd = -1 then Some (print_error S ''not a directory'' s)
             else
               (let (r, w) = s_read S fd READ_BUF (world s); (_, buf) = received r buf; s = s\<lparr>world := w\<rparr>
                in do {
                  b0 \<leftarrow> get buf 0;
                  b32 \<leftarrow> get buf 32;
                  if \<not> (b0 = 46 \<and> b32 = 46) then
                    (let s = print_error S ''not a directory'' s in Some (s\<lparr>world := s_close S fd (world s)\<rparr>))
                  else do {
                    path \<leftarrow> strcat (shell_path s) cmd;
                    path \<leftarrow> strcat path (cstr ''/'');
                    Some (s\<lparr>shell_path := path, world := s_close S fd (world s)\<rparr>)
                  }
                }))
     }"

definition status_names :: "string list" where
  "status_names = [''RUNNING'', ''READY  '', ''WAITING'', ''ZOMBIE '']"

definition ps_line :: "'w sys \<Rightarrow> ps_entry \<Rightarrow> u8 list \<times> 'w shell \<Rightarrow> (u8 list \<times> 'w shell) option" where
  "ps_line S e ns =
     do {
       let (num, s) = ns;
       num \<leftarrow> itos num (sint (pe_pid e));
       s \<leftarrow> print S num s;
       let s = say S ''    '' s;
       let s = (if pe_status e \<le> 3 then say S (status_names ! unat (pe_status e)) s else say S ''UNKNOWN'' s);
       let s = say S ''  '' s;
       num \<leftarrow> itos num (sint (pe_parent e));
       s \<leftarrow> print S num s;
       Some (num, say S (ln []) s)
     }"

definition handle_ps :: "'w sys \<Rightarrow> u8 list \<Rightarrow> 'w shell \<Rightarrow> 'w shell option" where
  "handle_ps S num s =
     do {
       let (entries, w) = s_ps S MAX_PS (world s);
       let s = say S (ln ''---  -------  ----'') (say S (ln (ln [] @ ''PID  STATUS   PPID'')) (s\<lparr>world := w\<rparr>));
       (num, s) \<leftarrow> foldM (ps_line S) entries (num, s);
       Some (say S (ln []) s)
     }"

definition handle_kill :: "'w sys \<Rightarrow> u8 list \<Rightarrow> 'w shell \<Rightarrow> 'w shell option" where
  "handle_kill S arg s =
     do {
       c \<leftarrow> get arg 0;
       if c = 0 then Some (say S (ln ''Usage: kill <pid>'') s)
       else do { pid \<leftarrow> stoi arg; Some (s\<lparr>world := s_kill S pid (world s)\<rparr>) }
     }"

partial_function (option) cat_loop :: "'w sys \<Rightarrow> int \<Rightarrow> 'w shell \<Rightarrow> 'w shell option" where
  "cat_loop S fd s =
     (case s_read S fd READ_BUF (world s) of
        (None, w) \<Rightarrow> Some (s\<lparr>world := w\<rparr>)
      | (Some bs, w) \<Rightarrow>
          if bs = [] then Some (s\<lparr>world := w\<rparr>) else cat_loop S fd (write_out S bs (s\<lparr>world := w\<rparr>)))"

definition handle_cat :: "'w sys \<Rightarrow> u8 list \<Rightarrow> 'w shell \<Rightarrow> 'w shell option" where
  "handle_cat S arg s =
     do {
       c \<leftarrow> get arg 0;
       if c = 0 then Some (say S (ln ''Usage: cat <file>'') s)
       else
         (let (fd, w) = s_open S arg (world s); s = s\<lparr>world := w\<rparr>
          in if fd = -1 then Some (print_error S ''file not found'' s)
             else do {
               s \<leftarrow> cat_loop S fd s;
               Some (say S (ln []) (s\<lparr>world := s_close S fd (world s)\<rparr>))
             })
     }"

text \<open>The loop that copies at most 12 characters up to a space.\<close>

fun copy_name :: "u8 list \<Rightarrow> nat \<Rightarrow> u8 list option" where
  "copy_name [] k = None"
| "copy_name (c # arg) k =
     (if c \<noteq> 0 \<and> c \<noteq> 32 \<and> 0 < k then map_option ((#) c) (copy_name arg (k - 1)) else Some [])"

definition handle_create :: "'w sys \<Rightarrow> u8 list \<Rightarrow> 'w shell \<Rightarrow> 'w shell option" where
  "handle_create S arg s =
     do {
       name \<leftarrow> copy_name arg 12;
       if name = [] then Some (say S (ln ''Usage: touch <name> <content>'') s)
       else do {
         c \<leftarrow> get arg (length name);
         let content = (if c = 32 then drop (length name + 1) arg else [0]);
         n \<leftarrow> strlen content;
         let (fd, w) = s_open S (name @ [0]) (world s);
         let s = s\<lparr>world := w\<rparr>;
         if fd = -1 then Some (s\<lparr>world := s_create S (name @ [0]) (take n content) (world s)\<rparr>)
         else Some (s\<lparr>world := s_close S fd (s_write S fd (take n content) (world s))\<rparr>)
       }
     }"

text \<open>The numbers are written to the block and read back from it; of the heap only the headers are modelled.\<close>

definition handle_dump :: "'w sys \<Rightarrow> u8 list \<Rightarrow> 'w shell \<Rightarrow> 'w shell option" where
  "handle_dump S buf s =
     do {
       (_, h) \<leftarrow> malloc 80 (shell_heap s);
       (_, s) \<leftarrow> foldM (\<lambda>i (buf, s). do { buf \<leftarrow> itos buf (int i); s \<leftarrow> print S buf s; Some (buf, s) })
         [0..<20] (buf, s\<lparr>shell_heap := h\<rparr>);
       Some s
     }"

record stack =
  st_buf :: "u8 list"
  st_num :: "u8 list"
  st_dump :: "u8 list"

text \<open>The first command whose name matches; \<open>line + n\<close> is the rest of the line.\<close>

fun first_match :: "(bool option \<times> 'a) list \<Rightarrow> 'a \<Rightarrow> 'a option" where
  "first_match [] other = Some other"
| "first_match ((c, a) # cs) other = do { b \<leftarrow> c; if b then Some a else first_match cs other }"

definition dispatch :: "'w sys \<Rightarrow> stack \<Rightarrow> u8 list \<Rightarrow> 'w shell \<Rightarrow> 'w shell option" where
  "dispatch S t line s =
     do {
       action \<leftarrow> first_match
         [(strcmp line (cstr ''clear''), \<lambda>s. Some (handle_clear S s)),
          (strcmp line (cstr ''help''), \<lambda>s. Some (handle_help S s)),
          (strcmp line (cstr ''ls''), handle_ls S (st_buf t)),
          (strcmp line (cstr ''ps''), handle_ps S (st_num t)),
          (strncmp line (cstr ''exec '') 5, handle_exec S (drop 5 line) [0]),
          (strncmp line (cstr ''cd '') 3, handle_cd S (st_buf t) (drop 3 line)),
          (strncmp line (cstr ''fork '') 5, handle_fork S (drop 5 line) [0]),
          (strncmp line (cstr ''kill '') 5, handle_kill S (drop 5 line)),
          (strncmp line (cstr ''touch '') 6, handle_create S (drop 6 line)),
          (strncmp line (cstr ''cat '') 4, handle_cat S (drop 4 line)),
          (strncmp line (cstr ''bf '') 3, handle_fork S (cstr ''bf'') (drop 3 line)),
          (strncmp line (cstr ''obj_viewer '') 11, handle_fork S (cstr ''obj_viewer'') (drop 11 line)),
          (strncmp line (cstr ''dump'') 4, handle_dump S (st_dump t))]
         (\<lambda>s. do {
            s \<leftarrow> print S line (say S ''command not found: '' s);
            Some (say S (ln (ln [] @ ''type '' @ [CHR 0x27] @ ''help'' @ [CHR 0x27] @ '' for command list'')) s) });
       action s
     }"

definition shell_start :: "'w sys \<Rightarrow> u8 list \<Rightarrow> uheap \<Rightarrow> 'w \<Rightarrow> 'w shell option" where
  "shell_start S junk h w =
     do {
       path \<leftarrow> put junk 0 47;
       path \<leftarrow> put path 1 0;
       Some (say S (ln ''SHELL'') \<lparr>shell_path = path, shell_heap = h, world = w, replaced = False\<rparr>)
     }"

text \<open>One round of the loop of \<^verbatim>\<open>main\<close>; \<open>buf\<close> is \<^verbatim>\<open>input_buf\<close>.\<close>

definition shell_round :: "'w sys \<Rightarrow> stack \<Rightarrow> u8 list \<Rightarrow> 'w shell \<Rightarrow> 'w shell option" where
  "shell_round S t buf s =
     do {
       s \<leftarrow> print S (shell_path s) s;
       let s = say S ''> '' s;
       let (r, w) = s_read S 0 (MAX_INPUT - 1) (world s);
       let (sz, buf) = received r buf;
       let s = s\<lparr>world := w\<rparr>;
       buf \<leftarrow> (if sz < 0 then None else put buf (nat sz) 0);
       if sz > 0 then dispatch S t buf s else Some s
     }"

section \<open>The current directory\<close>

text \<open>The path begins and ends with a slash.\<close>

definition path_ok :: "u8 list \<Rightarrow> bool" where
  "path_ok p \<longleftrightarrow> length p = 64 \<and> terminated p \<and> text_of p \<noteq> [] \<and> hd (text_of p) = 47 \<and> last (text_of p) = 47"

lemma up_loop_found:
  assumes "p = pre @ 47 # name @ rest" "47 \<notin> set name" "rest \<noteq> []"
  shows "up_loop (length pre + 1 + length name) p = Some (pre @ 47 # (name @ rest)[0 := 0])"
  using assms
proof (induction name arbitrary: rest rule: rev_induct)
  case Nil
  then show ?case by (cases rest) (simp_all add: get_def put_def nth_append list_update_append)
next
  case (snoc c name)
  have "get p (length pre + 1 + length name) = Some c" using snoc.prems(1) by (simp add: get_def nth_append)
  then have "up_loop (length pre + 1 + length (name @ [c])) p = up_loop (length pre + 1 + length name) p"
    using snoc.prems(2) by simp
  then show ?case using snoc.IH [of "c # rest"] snoc.prems by simp
qed

lemma cd_down:
  assumes "path_ok (shell_path s)" "terminated cmd" "text_of cmd \<noteq> [46, 46]"
    and "s_open S cmd (world s) = (fd, w1)" "fd \<noteq> -1" "s_read S fd READ_BUF w1 = (Some bs, w2)"
    and "32 < length bs" "bs ! 0 = 46" "bs ! 32 = 46"
    and "length (text_of (shell_path s)) + length (text_of cmd) + 1 < 64"
  shows "\<exists>rest. handle_cd S buf cmd s = Some (s\<lparr>shell_path := text_of (shell_path s) @ text_of cmd @ 47 # 0 # rest, world := s_close S fd w2\<rparr>)
    \<and> length (text_of (shell_path s) @ text_of cmd @ 47 # 0 # rest) = 64"
proof -
  let ?p = "shell_path s" and ?t = "text_of (shell_path s)" and ?c = "text_of cmd"
  have p: "length ?p = 64" "terminated ?p" using assms(1) by (simp_all add: path_ok_def)
  have "cstr ''..'' = [46, 46, 0]" by code_simp
  then have up: "strcmp cmd (cstr ''..'') = Some False"
    using assms(2,3) strcmp_decides_equality [of cmd "[46, 46, 0]"] by simp
  have slash: "cstr ''/'' = [47, 0]" by code_simp
  have cat1: "strcat ?p cmd = Some (?t @ ?c @ 0 # drop (Suc (length ?t + length ?c)) ?p)"
    using assms(2,10) p by (subst strcat_text) simp_all
  let ?q = "?t @ ?c @ 0 # drop (Suc (length ?t + length ?c)) ?p"
  have "0 \<notin> set (?t @ ?c)" using text_of_nonzero by simp
  then have tq: "text_of ?q = ?t @ ?c" using text_of_append [of "?t @ ?c"] by simp
  have lq: "length ?q = 64" using assms(10) p by simp
  have cat2: "strcat ?q (cstr ''/'') = Some ((?t @ ?c) @ [47] @ 0 # drop (Suc (length ?t + length ?c + 1)) ?q)"
    unfolding slash using assms(10) lq tq by (subst strcat_text) (simp_all add: terminated_def)
  have "get (bs @ drop (length bs) buf) 0 = Some 46" "get (bs @ drop (length bs) buf) 32 = Some 46"
    using assms(7-9) by (auto simp: get_def nth_append)
  then show ?thesis
    using assms(4-6,10) cat1 cat2 up lq
    by (auto simp: handle_cd_def received_def Let_def)
qed

lemma cd_up:
  assumes "shell_path s = pre @ 47 # name @ 47 # 0 # rest" "47 \<notin> set name" "0 \<notin> set (pre @ 47 # name)"
  shows "handle_cd S buf (cstr ''..'') s = Some (s\<lparr>shell_path := pre @ 47 # (name @ 47 # 0 # rest)[0 := 0]\<rparr>)"
proof -
  have d: "cstr ''..'' = [46, 46, 0]" by code_simp
  have "text_of ((pre @ 47 # name @ [47]) @ 0 # rest) = pre @ 47 # name @ [47]"
    using assms(3) by (intro text_of_append) auto
  then have "strlen (shell_path s) = Some (length pre + 1 + length name + 1)"
    using strlen_text [of "shell_path s"] assms(1) by (simp add: terminated_def)
  then show ?thesis
    using up_loop_found [OF assms(1,2)] by (simp add: handle_cd_def d)
qed

section \<open>Properties\<close>

text \<open>C23: Entering a directory whose name has no slash appends it to the path, and
  \<^verbatim>\<open>cd ..\<close> leads back to the path before, as long as the path fits into its 64 bytes.\<close>

theorem cd_up_undoes_cd:
  assumes "path_ok (shell_path s)" "terminated cmd" "text_of cmd \<noteq> [46, 46]" "47 \<notin> set (text_of cmd)"
    and "s_open S cmd (world s) = (fd, w1)" "fd \<noteq> -1" "s_read S fd READ_BUF w1 = (Some bs, w2)"
    and "32 < length bs" "bs ! 0 = 46" "bs ! 32 = 46"
    and "length (text_of (shell_path s)) + length (text_of cmd) + 1 < 64"
  shows "\<exists>s1 s2. handle_cd S buf cmd s = Some s1 \<and> text_of (shell_path s1) = text_of (shell_path s) @ text_of cmd @ [47]
    \<and> path_ok (shell_path s1)
    \<and> handle_cd S buf2 (cstr ''..'') s1 = Some s2 \<and> text_of (shell_path s2) = text_of (shell_path s)"
proof -
  let ?t = "text_of (shell_path s)" and ?c = "text_of cmd"
  obtain rest where s1: "handle_cd S buf cmd s = Some (s\<lparr>shell_path := ?t @ ?c @ 47 # 0 # rest, world := s_close S fd w2\<rparr>)"
      (is "_ = Some ?s1") "length (?t @ ?c @ 47 # 0 # rest) = 64"
    using cd_down [OF assms(1-3,5-11)] by blast
  have t: "?t \<noteq> []" "hd ?t = 47" "last ?t = 47" using assms(1) by (simp_all add: path_ok_def)
  then obtain pre where pre: "?t = pre @ [47]" by (metis append_butlast_last_id)
  have nz: "0 \<notin> set ?t" "0 \<notin> set ?c" by (rule text_of_nonzero)+
  have t1: "text_of (shell_path ?s1) = ?t @ ?c @ [47]" using text_of_append [of "?t @ ?c @ [47]" rest] nz by simp
  have "path_ok (shell_path ?s1)" using s1(2) t1 t by (simp add: path_ok_def terminated_def)
  moreover have "shell_path ?s1 = pre @ 47 # ?c @ 47 # 0 # rest" by (simp add: pre)
  then have "handle_cd S buf2 (cstr ''..'') ?s1 = Some (?s1\<lparr>shell_path := pre @ 47 # (?c @ 47 # 0 # rest)[0 := 0]\<rparr>)"
    using assms(4) nz pre by (intro cd_up) auto
  moreover have "text_of (pre @ 47 # (?c @ 47 # 0 # rest)[0 := 0]) = ?t"
  proof -
    obtain c xs where "?c @ 47 # 0 # rest = c # xs" by (cases ?c) auto
    then show ?thesis using text_of_append [of "pre @ [47]" xs] nz pre by simp
  qed
  ultimately show ?thesis using s1(1) t1
    by (intro exI [of _ ?s1] exI [of _ "?s1\<lparr>shell_path := pre @ 47 # (?c @ 47 # 0 # rest)[0 := 0]\<rparr>"] conjI) simp_all
qed

text \<open>How output and files behave: \<open>out\<close> is what has been written to descriptor 1.\<close>

definition writes_append :: "'w sys \<Rightarrow> ('w \<Rightarrow> u8 list) \<Rightarrow> bool" where
  "writes_append S out \<longleftrightarrow> (\<forall>bs w. out (s_write S 1 bs w) = out w @ bs)"

definition reads_stream :: "'w sys \<Rightarrow> int \<Rightarrow> ('w \<Rightarrow> u8 list) \<Rightarrow> ('w \<Rightarrow> u8 list) \<Rightarrow> bool" where
  "reads_stream S fd left out \<longleftrightarrow>
     (\<forall>bs w. left (s_write S 1 bs w) = left w)
     \<and> (\<forall>n w. \<exists>w'. s_read S fd n w = (Some (take n (left w)), w') \<and> left w' = drop n (left w) \<and> out w' = out w)"

lemma out_write [simp]: "writes_append S out \<Longrightarrow> out (world (write_out S bs s)) = out (world s) @ bs"
  by (simp add: writes_append_def write_out_def)

lemma out_say [simp]: "writes_append S out \<Longrightarrow> out (world (say S str s)) = out (world s) @ map of_char str"
  by (simp add: say_def)

lemma cat_loop_writes:
  assumes "writes_append S out" "reads_stream S fd left out"
  shows "\<exists>s'. cat_loop S fd s = Some s' \<and> out (world s') = out (world s) @ left (world s)"
proof (induction "length (left (world s))" arbitrary: s rule: less_induct)
  case less
  obtain w where w: "s_read S fd READ_BUF (world s) = (Some (take READ_BUF (left (world s))), w)"
      "left w = drop READ_BUF (left (world s))" "out w = out (world s)"
    using assms(2) unfolding reads_stream_def by blast
  show ?case
  proof (cases "left (world s) = []")
    case True
    then show ?thesis using w by (subst cat_loop.simps) simp
  next
    case False
    let ?bs = "take READ_BUF (left (world s))" and ?s = "write_out S (take READ_BUF (left (world s))) (s\<lparr>world := w\<rparr>)"
    have l: "left (world ?s) = drop READ_BUF (left (world s))" using assms(2) w(2) by (simp add: reads_stream_def write_out_def)
    have o: "out (world ?s) = out (world s) @ ?bs" using assms(1) w(3) by simp
    have "length (left (world ?s)) < length (left (world s))" using False unfolding l by (simp add: READ_BUF_def)
    then obtain s' where "cat_loop S fd ?s = Some s'" "out (world s') = out (world ?s) @ left (world ?s)"
      using less [of ?s] by blast
    moreover have "?bs \<noteq> []" using False by (simp add: READ_BUF_def)
    ultimately show ?thesis using w(1) l o by (subst cat_loop.simps) simp
  qed
qed

text \<open>C24: \<^verbatim>\<open>cat\<close> ends and writes the whole file, however long it is, followed by a newline, when
  the descriptor it opens reads as a stream.\<close>

theorem cat_writes_file:
  assumes "writes_append S out" "reads_stream S fd left out" "arg = c # cs" "c \<noteq> 0"
    and "s_open S arg (world s) = (fd, w)" "fd \<noteq> -1" "out w = out (world s)" "\<forall>w. out (s_close S fd w) = out w"
  shows "\<exists>s'. handle_cat S arg s = Some s' \<and> out (world s') = out (world s) @ left w @ [10]"
proof -
  obtain s' where "cat_loop S fd (s\<lparr>world := w\<rparr>) = Some s'" "out (world s') = out w @ left w"
    using cat_loop_writes [OF assms(1,2), of "s\<lparr>world := w\<rparr>"] by auto
  then show ?thesis using assms by (simp add: handle_cat_def get_def ln_def)
qed

lemma strfind_skip: "0 \<notin> set xs \<Longrightarrow> d \<notin> set xs \<Longrightarrow> d \<noteq> 0 \<Longrightarrow> strfind_from i (xs @ d # r) d = Some (i + int (length xs))"
  by (induction xs arbitrary: i) auto

lemma strfind_text: "0 \<notin> set xs \<Longrightarrow> 32 \<notin> set xs \<Longrightarrow> strfind (xs @ 32 # r) 32 = Some (int (length xs))"
  by (simp add: strfind_def strfind_skip)

text \<open>C29: What \<^verbatim>\<open>ls\<close> prints for a directory entry that the file system wrote (attribute 0x20):
  the name, and a dot and the extension when there is one. But the search for the blank that ends the
  name is not limited to its 8 characters: a name of 8 characters is printed together
  with the extension, which then follows once more.\<close>

theorem ls_prints_entry:
  assumes "writes_append S out" "length nm \<le> 8" "length ex \<le> 3" "nm \<noteq> []" "hd nm \<noteq> 0xE5"
    and "0 \<notin> set (nm @ ex)" "32 \<notin> set (nm @ ex)"
    and "drop i buf = nm @ replicate (8 - length nm) 32 @ ex @ replicate (3 - length ex) 32 @ 0x20 # rest"
  shows "\<exists>s'. ls_entry S buf i s = Some s' \<and> out (world s') = out (world s)
    @ (if length nm < 8 then nm else nm @ ex) @ (if ex \<noteq> [] then 46 # ex else []) @ [10]"
proof -
  let ?name = "drop i buf" and ?ext = "drop (i + 8) buf"
  have pad: "replicate (3 - length ex) 32 @ 0x20 # rest = 32 # replicate (3 - length ex) 32 @ rest"
    by (simp add: replicate_app_Cons_same)
  have "?ext = drop 8 ?name" by (simp add: add.commute)
  also have "\<dots> = ex @ 32 # replicate (3 - length ex) 32 @ rest" using assms(2) unfolding assms(8) pad by simp
  finally have ext: "?ext = ex @ 32 # replicate (3 - length ex) 32 @ rest" .
  then have e: "strfind ?ext 32 = Some (int (length ex))" "take (length ex) ?ext = ex"
    using assms(6,7) strfind_text [of ex] by simp_all
  let ?shown = "if length nm < 8 then nm else nm @ ex"
  have "\<exists>r. ?name = ?shown @ 32 # r"
  proof (cases "length nm < 8")
    case True
    then obtain k where "8 - length nm = Suc k" by (metis Suc_diff_Suc)
    then show ?thesis using True unfolding assms(8) by simp
  next
    case False
    then show ?thesis using assms(2) unfolding assms(8) pad by simp
  qed
  then obtain r where r: "?name = ?shown @ 32 # r" by blast
  then have k: "strfind ?name 32 = Some (int (length ?shown))" "take (length ?shown) ?name = ?shown"
    using assms(6,7) strfind_text [of ?shown r] by (simp_all split: if_splits)
  obtain c cs where c: "nm = c # cs" using assms(4) by (cases nm) auto
  then have "get ?name 0 = Some c" "c \<noteq> 0" "c \<noteq> 0xE5" using assms(5,6,8) by (auto simp: get_def)
  then show ?thesis
    using assms(1) e k by (simp add: ls_entry_def ln_def)
qed

text \<open>A world for the witnesses: what is left of the open file, and the output.\<close>

type_synonym demo_world = "u8 list \<times> u8 list"

definition demo_sys :: "demo_world sys" where
  "demo_sys = \<lparr>s_open = \<lambda>name w. (3, w), s_read = \<lambda>fd n w. (Some (take n (fst w)), (drop n (fst w), snd w)),
     s_write = \<lambda>fd bs w. (fst w, if fd = 1 then snd w @ bs else snd w), s_close = \<lambda>fd w. w, s_exec = \<lambda>f a w. (True, w),
     s_fork = \<lambda>w. (2, w), s_waitpid = \<lambda>p w. w, s_ps = \<lambda>n w. ([], w), s_kill = \<lambda>p w. w, s_create = \<lambda>n d w. w\<rparr>"

lemma demo_sys_laws: "writes_append demo_sys snd" "reads_stream demo_sys 3 fst snd"
  by (simp_all add: writes_append_def reads_stream_def demo_sys_def)

definition demo_shell :: "u8 list \<Rightarrow> demo_world shell" where
  "demo_shell file = \<lparr>shell_path = [47, 0] @ replicate 62 0, shell_heap = uheap_start, world = (file, []), replaced = False\<rparr>"

theorem cd_up_undoes_cd_witness:
  "\<exists>s1. handle_cd demo_sys [] [97, 0] (demo_shell (46 # replicate 31 32 @ [46])) = Some s1 \<and> text_of (shell_path s1) = [47, 97, 47]"
proof -
  let ?s = "demo_shell (46 # replicate 31 32 @ [46])"
  have "path_ok (shell_path ?s)" by (simp add: path_ok_def demo_shell_def)
  moreover have "s_open demo_sys [97, 0] (world ?s) = (3, world ?s)" by (simp add: demo_sys_def)
  moreover have "s_read demo_sys 3 READ_BUF (world ?s) = (Some (46 # replicate 31 32 @ [46]), ([], []))"
    by (simp add: demo_sys_def demo_shell_def READ_BUF_def)
  moreover have "(46 # replicate 31 32 @ [46 :: u8]) ! 32 = 46" by (simp add: nth_append)
  moreover have "text_of (shell_path ?s) = [47]" by (simp add: demo_shell_def)
  ultimately show ?thesis
    using cd_up_undoes_cd [of ?s "[97, 0]" demo_sys 3 "world ?s" "46 # replicate 31 32 @ [46]" "([], [])" "[]"] by fastforce
qed

theorem cat_writes_file_witness:
  "\<exists>s'. handle_cat demo_sys [97, 0] (demo_shell (replicate 600 65)) = Some s' \<and> snd (world s') = replicate 600 65 @ [10]"
  using cat_writes_file [OF demo_sys_laws, of "[97, 0]" 97 "[0]" "demo_shell (replicate 600 65)"]
  by (simp add: demo_sys_def demo_shell_def)

theorem ls_prints_entry_witness:
  "\<exists>s'. ls_entry demo_sys ([66, 70] @ replicate 6 32 @ [66, 73, 78] @ [32, 0]) 0 (demo_shell []) = Some s'
    \<and> snd (world s') = [66, 70, 46, 66, 73, 78, 10]"
  using ls_prints_entry [OF demo_sys_laws(1), of "[66, 70]" "[66, 73, 78]" 0 "[66, 70] @ replicate 6 32 @ [66, 73, 78] @ [32, 0]" "[0]" "demo_shell []"]
  by (simp add: demo_shell_def)

end
