(* ===== verification/Calculator.thy ===== *)
theory Calculator
  imports UserCalls
begin

text \<open>
  The calculator of \<^verbatim>\<open>user-space/programs/calculator.c\<close>: the text it has been given, the
  evaluation of that text, and what a click of the mouse does. The local variables of
  \<^verbatim>\<open>calculator\<close> are a record; \<^verbatim>\<open>c\<close> has no initial value in the code, so it is an
  argument of the initial state.
\<close>

section \<open>Model\<close>

definition buttons :: "u8 list list" where
  "buttons = [[55, 56, 57, 47], [52, 53, 54, 42], [49, 50, 51, 45], [67, 48, 61, 43]]"

definition button_cells :: "(nat \<times> nat) list" where
  "button_cells = List.product [0..<4] [0..<4]"

definition render_button :: "nat \<times> nat \<Rightarrow> call list" where
  "render_button ij =
     (let (i, j) = ij
      in [Rect (int j * 40 + 2) (int i * 30 + 40) 38 28 0x0, Text (int j * 40 + 18) (int i * 30 + 50) [buttons ! i ! j, 0] 0xF])"

definition render_calculator :: "u8 list \<Rightarrow> call list" where
  "render_calculator display =
     [Rect 0 0 160 38 0x0, Rect 0 38 162 150 0xF, Text 10 16 display 0xF] @ concat (map render_button button_cells) @ [Flush]"

text \<open>One operation on the result; any other character leaves it as it is.\<close>

definition apply_op :: "u8 \<Rightarrow> int \<Rightarrow> int \<Rightarrow> int option" where
  "apply_op op result n =
     (if op = 43 then chk32 (result + n)
      else if op = 45 then chk32 (result - n)
      else if op = 42 then chk32 (result * n)
      else if op = 47 \<and> n \<noteq> 0 then chk32 (result sdiv n)
      else Some result)"

definition calculate_step :: "u8 list \<Rightarrow> nat \<Rightarrow> nat \<Rightarrow> int \<times> int \<times> u8 \<Rightarrow> (int \<times> int \<times> u8) option" where
  "calculate_step display len i acc =
     (let (result, n, op) = acc in
      do {
        c \<leftarrow> get display i;
        if i < len \<and> 48 \<le> c \<and> c \<le> 57 then do {
          n10 \<leftarrow> chk32 (n * 10);
          n \<leftarrow> chk32 (n10 + (int (unat c) - 48));
          Some (result, n, op)
        } else do {
          result \<leftarrow> apply_op op result n;
          Some (result, 0, c)
        }
      })"

definition calculate :: "u8 list \<Rightarrow> u8 list \<Rightarrow> u8 list option" where
  "calculate buf display =
     do {
       len \<leftarrow> strlen display;
       if len = 0 then Some display
       else do {
         c \<leftarrow> get display (len - 1);
         (len, display) \<leftarrow>
           (if c = 61 then do { display \<leftarrow> put display (len - 1) 0; Some (len - 1, display) } else Some (len, display));
         (result, _, _) \<leftarrow> foldM (calculate_step display len) [0..<len + 1] (0, 0, 43);
         buf \<leftarrow> itos buf result;
         display \<leftarrow> strcat display [61, 0];
         strcat display buf
       }
     }"

record calc =
  display :: "u8 list"
  index :: nat
  last_char :: u8
  calls :: "call list"

definition calc_start :: "u8 list \<Rightarrow> u8 \<Rightarrow> calc" where
  "calc_start junk c = (let d = junk[0 := 0] in \<lparr>display = d, index = 0, last_char = c, calls = render_calculator d\<rparr>)"

definition clear_display :: "calc \<Rightarrow> calc option" where
  "clear_display s = do { d \<leftarrow> put (display s) 0 0; Some (s\<lparr>index := 0, display := d\<rparr>) }"

definition hit :: "int \<Rightarrow> int \<Rightarrow> nat \<Rightarrow> nat \<Rightarrow> bool" where
  "hit x y i j \<longleftrightarrow>
     (let col = int j * 40 + 1; row = int i * 30 + 50 in col \<le> x \<and> x \<le> col + 40 \<and> row \<le> y \<and> y \<le> row + 30)"

text \<open>The inner loop stops at the first button that is hit, the outer one goes on.\<close>

definition press_row :: "int \<Rightarrow> int \<Rightarrow> nat \<Rightarrow> calc \<Rightarrow> calc option" where
  "press_row x y i s =
     (case find (hit x y i) [0..<4] of
        None \<Rightarrow> Some s
      | Some j \<Rightarrow> do {
          d \<leftarrow> put (display s) (index s) (buttons ! i ! j);
          d \<leftarrow> put d (index s + 1) 0;
          Some (s\<lparr>display := d, index := index s + 1\<rparr>)
        })"

definition click :: "u8 list \<Rightarrow> int \<Rightarrow> int \<Rightarrow> calc \<Rightarrow> calc option" where
  "click buf x y s =
     do {
       s \<leftarrow> (if last_char s = 61 then clear_display s else Some s);
       s \<leftarrow> foldM (press_row x y) [0..<4] s;
       c \<leftarrow> (if index s = 0 then None else get (display s) (index s - 1));
       let s = s\<lparr>last_char := c\<rparr>;
       s \<leftarrow> (if c = 67 then clear_display s
             else if c = 61 then do { d \<leftarrow> calculate buf (display s); Some (s\<lparr>display := d\<rparr>) }
             else Some s);
       Some (s\<lparr>calls := calls s @ render_calculator (display s)\<rparr>)
     }"

text \<open>The events that arrive until the window is closed; the polls in between do nothing.\<close>

definition handle_event :: "u8 list \<Rightarrow> event \<Rightarrow> calc \<Rightarrow> calc option" where
  "handle_event buf e s = (if ev_type e \<noteq> EVENT_MOUSE_CLICK then Some s else click buf (ev_mouse_x e) (ev_mouse_y e) s)"

definition calculator :: "u8 list \<Rightarrow> u8 list \<Rightarrow> u8 \<Rightarrow> event list \<Rightarrow> calc option" where
  "calculator buf junk c es = foldM (handle_event buf) es (calc_start junk c)"

section \<open>Evaluation\<close>

text \<open>A number, then operators and numbers, evaluated from left to right.\<close>

type_synonym sum = "nat \<times> (u8 \<times> nat) list"

definition ops_text :: "(u8 \<times> nat) list \<Rightarrow> u8 list" where
  "ops_text ops = concat (map (\<lambda>(op, n). op # decimal n) ops)"

definition sum_text :: "sum \<Rightarrow> u8 list" where
  "sum_text e = decimal (fst e) @ ops_text (snd e)"

definition sum_value :: "sum \<Rightarrow> int option" where
  "sum_value e = foldM (\<lambda>(op, n) r. apply_op op r (int n)) (snd e) (int (fst e))"

definition sum_ok :: "sum \<Rightarrow> bool" where
  "sum_ok e \<longleftrightarrow> fst e < 2147483648 \<and> (\<forall>(op, n) \<in> set (snd e). op \<in> {43, 45, 42, 47} \<and> n < 2147483648)"

text \<open>The loop of \<^verbatim>\<open>calculate\<close> by the characters it reads, the terminating 0 included.\<close>

definition read_char :: "u8 \<Rightarrow> int \<times> int \<times> u8 \<Rightarrow> (int \<times> int \<times> u8) option" where
  "read_char c acc =
     (let (result, n, op) = acc in
      if 48 \<le> c \<and> c \<le> 57 then do {
        n10 \<leftarrow> chk32 (n * 10);
        n \<leftarrow> chk32 (n10 + (int (unat c) - 48));
        Some (result, n, op)
      } else do {
        result \<leftarrow> apply_op op result n;
        Some (result, 0, c)
      })"

lemma calculate_loop:
  assumes "buf = xs @ 0 # rest" "len = length xs"
  shows "foldM (calculate_step buf len) [0..<len + 1] acc = foldM read_char (xs @ [0]) acc"
proof -
  have "foldM (calculate_step buf len) [0..<len + 1] acc = foldM (\<lambda>i. read_char (buf ! i)) [0..<len + 1] acc"
    using assms by (intro foldM_cong) (auto simp: calculate_step_def read_char_def get_def nth_append less_Suc_eq)
  also have "\<dots> = foldM read_char (map ((!) buf) [0..<len + 1]) acc" by (simp only: foldM_map)
  also have "map ((!) buf) [0..<len + 1] = xs @ [0]"
    using assms by (intro nth_equalityI) (auto simp: nth_append less_Suc_eq)
  finally show ?thesis .
qed

lemma digit_range: "d < 10 \<Longrightarrow> 48 \<le> dec_digit d \<and> dec_digit d \<le> 57"
  using unat_dec_digit [of d] by (simp add: word_le_nat_alt)

lemma read_digit:
  assumes "d < 10" "m * 10 + d < 2147483648"
  shows "read_char (dec_digit d) (r, int m, op) = Some (r, int (m * 10 + d), op)"
proof -
  have "chk32 (int m * 10) = Some (int m * 10)" "chk32 (int m * 10 + int d) = Some (int m * 10 + int d)"
    using assms by (simp_all add: chk32_def INT_MIN_def)
  then show ?thesis using assms(1) digit_range [OF assms(1)]
    by (simp add: read_char_def unat_dec_digit del: of_nat_add of_nat_mult) simp
qed

lemma read_number: "n < 2147483648 \<Longrightarrow> foldM read_char (decimal n) (r, 0, op) = Some (r, int n, op)"
proof (induction n rule: less_induct)
  case (less n)
  show ?case
  proof (cases "n < 10")
    case True
    then have "decimal n = [dec_digit n]" by (simp add: decimal_def digits.simps)
    then show ?thesis using read_digit [of n 0] True by simp
  next
    case False
    then have "decimal n = decimal (n div 10) @ [dec_digit (n mod 10)]" unfolding decimal_def by (subst digits.simps) simp
    then show ?thesis using less False read_digit [of "n mod 10" "n div 10"] by simp
  qed
qed

lemma read_operator:
  assumes "op' \<in> {43, 45, 42, 47}" "n < 2147483648"
  shows "foldM read_char (op' # decimal n) (r, m, op) = do { r \<leftarrow> apply_op op r m; Some (r, int n, op') }"
proof -
  have "read_char op' (r, m, op) = do { r \<leftarrow> apply_op op r m; Some (r, 0, op') }"
    using assms(1) by (auto simp: read_char_def)
  then show ?thesis using read_number [OF assms(2)] by (cases "apply_op op r m") simp_all
qed

lemma read_ops:
  assumes "\<forall>(op, n) \<in> set ops. op \<in> {43, 45, 42, 47} \<and> n < 2147483648"
  shows "foldM read_char (ops_text ops @ [0]) (r, m, op) =
    do { r \<leftarrow> apply_op op r m; r \<leftarrow> foldM (\<lambda>(op, n) r. apply_op op r (int n)) ops r; Some (r, 0, 0) }"
  using assms
proof (induction ops arbitrary: r m op)
  case Nil
  then show ?case by (simp add: ops_text_def read_char_def)
next
  case (Cons x ops)
  obtain op' n where x: "x = (op', n)" by (cases x)
  have split: "ops_text (x # ops) @ [0] = (op' # decimal n) @ ops_text ops @ [0]" by (simp add: ops_text_def x)
  have op: "op' \<in> {43, 45, 42, 47}" "n < 2147483648" using Cons.prems by (auto simp: x)
  show ?case
    unfolding split foldM_append [of _ "op' # decimal n"] read_operator [OF op]
    using Cons.IH Cons.prems by (cases "apply_op op r m") (simp_all add: x del: foldM_append)
qed

lemma read_sum:
  assumes "sum_ok e"
  shows "foldM read_char (sum_text e @ [0]) (0, 0, 43) = do { v \<leftarrow> sum_value e; Some (v, 0, 0) }"
proof -
  have "apply_op 43 0 (int (fst e)) = Some (int (fst e))"
    using assms by (simp add: apply_op_def chk32_def INT_MIN_def sum_ok_def)
  then show ?thesis
    using assms read_number [of "fst e" 0 43] read_ops [of "snd e" 0 "int (fst e)" 43]
    by (simp add: sum_ok_def sum_text_def sum_value_def)
qed

lemma sum_text_chars:
  assumes "sum_ok e"
  shows "0 \<notin> set (sum_text e)"
  using assms decimal_nonzero by (auto simp: sum_text_def ops_text_def sum_ok_def)

lemma apply_op_range: "apply_op op r n = Some v \<Longrightarrow> r < 2147483648 \<Longrightarrow> v < 2147483648"
  by (auto simp: apply_op_def chk32_def split: if_splits)

lemma sum_value_range: "sum_value e = Some v \<Longrightarrow> sum_ok e \<Longrightarrow> v < 2147483648"
proof -
  have "foldM (\<lambda>(op, n) r. apply_op op r (int n)) ops r = Some v \<Longrightarrow> r < 2147483648 \<Longrightarrow> v < 2147483648" for ops r
    by (induction ops arbitrary: r) (auto split: bind_splits dest: apply_op_range)
  then show "sum_value e = Some v \<Longrightarrow> sum_ok e \<Longrightarrow> v < 2147483648"
    by (simp add: sum_value_def sum_ok_def)
qed

section \<open>Clicks\<close>

lemma hit_bounds:
  "hit x y i j \<longleftrightarrow> int j * 40 + 1 \<le> x \<and> x \<le> int j * 40 + 41 \<and> int i * 30 + 50 \<le> y \<and> y \<le> int i * 30 + 80"
  by (auto simp: hit_def Let_def)

lemma up4: "[0..<4] = [0, 1, 2, 3::nat]"
  by (simp add: upt_rec)

lemma less4: "n < 4 \<longleftrightarrow> n = 0 \<or> n = 1 \<or> n = 2 \<or> n = (3::nat)"
  by auto

lemma find_hit:
  assumes "j < 4" "int j * 40 + 1 < x" "x \<le> int j * 40 + 41"
  shows "find (hit x y i) [0..<4] = (if int i * 30 + 50 \<le> y \<and> y \<le> int i * 30 + 80 then Some j else None)"
  using assms unfolding less4 by (auto simp: up4 hit_bounds)

lemma press_row_hit:
  assumes "j < 4" "int j * 40 + 1 < x" "x \<le> int j * 40 + 41" "index s + 1 < length (display s)"
  shows "press_row x y i s = Some (if int i * 30 + 50 \<le> y \<and> y \<le> int i * 30 + 80
    then s\<lparr>display := (display s)[index s := buttons ! i ! j, index s + 1 := 0], index := index s + 1\<rparr> else s)"
  using assms(4) by (simp add: press_row_def find_hit [OF assms(1-3)] put_def)

lemma press_row_miss:
  assumes "j < 4" "int j * 40 + 1 < x" "x \<le> int j * 40 + 41" "y < int i * 30 + 50 \<or> int i * 30 + 80 < y"
  shows "press_row x y i s = Some s"
  using assms(4) by (auto simp: press_row_def find_hit [OF assms(1-3)])

lemma press_rows_hit:
  assumes "i < 4" "j < 4" "int j * 40 + 1 < x" "x \<le> int j * 40 + 41" "int i * 30 + 50 < y" "y < int i * 30 + 80"
    "index s + 1 < length (display s)"
  shows "foldM (press_row x y) [0..<4] s
    = Some (s\<lparr>display := (display s)[index s := buttons ! i ! j, index s + 1 := 0], index := index s + 1\<rparr>)"
proof -
  let ?t = "s\<lparr>display := (display s)[index s := buttons ! i ! j, index s + 1 := 0], index := index s + 1\<rparr>"
  have other: "press_row x y k t = Some t" if "k < 4" "k \<noteq> i" for k t
    using assms(1,5,6) that unfolding less4 by (intro press_row_miss [OF assms(2-4)]) auto
  have this_row: "press_row x y i s = Some ?t" using press_row_hit [OF assms(2-4,7)] assms(5,6) by simp
  show ?thesis using assms(1) other this_row unfolding less4 up4 by auto
qed

lemma miss_row: "\<forall>i<4. \<forall>j<4. \<not> hit x y i j \<Longrightarrow> i < 4 \<Longrightarrow> press_row x y i s = Some s"
  using find_None_iff [of "hit x y i" "[0..<4]"] by (simp add: press_row_def)

lemma miss_rows: "\<forall>i<4. \<forall>j<4. \<not> hit x y i j \<Longrightarrow> foldM (press_row x y) [0..<4] s = Some s"
  by (simp add: up4 miss_row)

text \<open>Neighbouring rows share an edge, and a click on it enters two characters.\<close>

lemma edge_click_enters_two:
  assumes "i < 3" "j < 4" "int j * 40 + 1 < x" "x \<le> int j * 40 + 41" "y = int i * 30 + 80" "index s + 2 < length (display s)"
  shows "\<exists>t. foldM (press_row x y) [0..<4] s = Some t \<and> index t = index s + 2
    \<and> display t ! index s = buttons ! i ! j \<and> display t ! (index s + 1) = buttons ! (i + 1) ! j"
proof -
  have "i = 0 \<or> i = 1 \<or> i = 2" using assms(1) by auto
  then show ?thesis using assms(5,6) by (auto simp: up4 press_row_hit [OF assms(2-4)] press_row_miss [OF assms(2-4)] numeral_2_eq_2 [symmetric])
qed

section \<open>Properties\<close>


text \<open>A click strictly inside the area of a button enters the character of that button and no
  other, keeps the display terminated and draws it, as long as there is room.\<close>

theorem click_enters_button:
  assumes "i < 4" "j < 4" "int j * 40 + 1 < x" "x \<le> int j * 40 + 41" "int i * 30 + 50 < y" "y < int i * 30 + 80"
    and "last_char s \<noteq> 61" "index s + 1 < length (display s)" "buttons ! i ! j \<noteq> 61" "buttons ! i ! j \<noteq> 67"
  shows "click buf x y s = Some (s\<lparr>display := (display s)[index s := buttons ! i ! j, index s + 1 := 0],
    index := index s + 1, last_char := buttons ! i ! j,
    calls := calls s @ render_calculator ((display s)[index s := buttons ! i ! j, index s + 1 := 0])\<rparr>)"
  using assms(7-10) by (simp add: click_def press_rows_hit [OF assms(1-6,8)] get_def)

text \<open>With nothing on the display (at the start, after C, and after a result) a click beside
  the buttons reads the character before the array: \<^verbatim>\<open>index\<close> is 0 and the code
  reads \<^verbatim>\<open>display[index - 1]\<close> without a test.\<close>

theorem click_beside_buttons_faults:
  assumes "index s = 0 \<or> last_char s = 61" "\<forall>i<4. \<forall>j<4. \<not> hit x y i j"
  shows "click buf x y s = None"
  using assms(1) by (auto simp: click_def clear_display_def miss_rows [OF assms(2)] split: bind_splits)


theorem click_enters_button_witness:
  "click buf 50 60 (calc_start (replicate 100 0) 0)
    = Some \<lparr>display = (replicate 100 0)[0 := 56, 1 := 0], index = 1, last_char = 56,
        calls = render_calculator (replicate 100 0) @ render_calculator ((replicate 100 0)[0 := 56, 1 := 0])\<rparr>"
proof -
  have "(replicate 100 0)[0 := 0] = replicate 100 (0::u8)" by (intro nth_equalityI) (auto simp: nth_list_update)
  then show ?thesis
    using click_enters_button [of 0 1 50 60 "calc_start (replicate 100 0) 0" buf]
    by (simp add: calc_start_def Let_def buttons_def)
qed

theorem click_beside_buttons_faults_witness: "click [] 50 20 (calc_start (replicate 100 0) 0) = None"
  by (rule click_beside_buttons_faults) (simp_all add: calc_start_def Let_def hit_bounds)

end
