(* ===== verification/Tetris.thy ===== *)
theory Tetris
  imports UserCalls
begin

text \<open>
  The game of \<^verbatim>\<open>user-space/programs/tetris.c\<close>. Its static variables are one record;
  the system calls that draw are collected in the order they are made. \<^verbatim>\<open>sys_get_event\<close>
  and \<^verbatim>\<open>sys_uptime\<close> give arguments of the definitions. A signed overflow is a fault.
\<close>

section \<open>Model\<close>

definition BW :: nat where "BW = 10"
definition BH :: nat where "BH = 20"
definition CELL :: int where "CELL = 10"
definition BOARD_X :: int where "BOARD_X = 5"
definition BOARD_Y :: int where "BOARD_Y = 5"
definition SIDEBAR_X :: int where "SIDEBAR_X = 115"
definition WIN_W :: int where "WIN_W = 200"
definition WIN_H :: int where "WIN_H = 215"

definition COL_BG :: u8 where "COL_BG = 0x08"
definition COL_GHOST :: u8 where "COL_GHOST = 0x07"
definition COL_SIDEBAR :: u8 where "COL_SIDEBAR = 0x00"
definition COL_TEXT :: u8 where "COL_TEXT = 0x0F"
definition COL_LABEL :: u8 where "COL_LABEL = 0x07"

definition piece_colors :: "u8 list" where
  "piece_colors = [COL_BG, 0x0B, 0x0E, 0x0D, 0x0A, 0x0C, 0x09, 0x06]"

definition pieces :: "u16 list list" where
  "pieces =
    [[0x0F00, 0x2222, 0x00F0, 0x4444], [0x6600, 0x6600, 0x6600, 0x6600], [0x0E40, 0x4C40, 0x4E00, 0x4640],
     [0x06C0, 0x8C40, 0x6C00, 0x4620], [0x0C60, 0x4C80, 0xC600, 0x2640], [0x0E80, 0xC440, 0x2E00, 0x44C0],
     [0x0E20, 0x4460, 0x8E00, 0xC880]]"

type_synonym grid = "u8 list list"

record tetris =
  board :: grid
  cp :: nat
  cr :: nat
  cx :: int
  cy :: int
  np :: nat
  score :: int
  total_lines :: int
  level :: int
  game_over :: bool
  drop_interval :: int
  rng :: u32
  display :: grid
  prev_score :: int
  prev_lines :: int
  prev_level :: int
  prev_np :: int
  sidebar_drawn :: bool
  calls :: "call list"
  tick :: int
  dirty :: bool

definition rand7 :: "tetris \<Rightarrow> nat \<times> tetris" where
  "rand7 g =
     (let r = rng g * 1103515245 + 12345
      in (unat ((drop_bit 16 r AND 0x7FFF) mod 7), g\<lparr>rng := r\<rparr>))"

text \<open>The 16 cells of a piece, in the order of the loops; \<open>x\<close> first.\<close>

definition cells16 :: "(nat \<times> nat) list" where
  "cells16 = concat (map (\<lambda>gy. map (\<lambda>gx. (gx, gy)) [0..<4]) [0..<4])"

definition pcell :: "nat \<Rightarrow> nat \<Rightarrow> nat \<Rightarrow> nat \<Rightarrow> bool" where
  "pcell p r gx gy = (drop_bit (15 - gy * 4 - gx) (pieces ! p ! r) AND 1 \<noteq> 0)"

definition cell_at :: "grid \<Rightarrow> int \<Rightarrow> int \<Rightarrow> u8" where
  "cell_at b y x = b ! nat y ! nat x"

definition set_cell :: "int \<Rightarrow> int \<Rightarrow> u8 \<Rightarrow> grid \<Rightarrow> grid" where
  "set_cell y x c b = b[nat y := (b ! nat y)[nat x := c]]"

definition collides :: "nat \<Rightarrow> nat \<Rightarrow> int \<Rightarrow> int \<Rightarrow> grid \<Rightarrow> bool" where
  "collides p r px py b =
     list_ex (\<lambda>(gx, gy). pcell p r gx gy \<and>
       (let bx = px + int gx; by = py + int gy
        in bx < 0 \<or> bx \<ge> int BW \<or> by \<ge> int BH \<or> (by \<ge> 0 \<and> cell_at b by bx \<noteq> 0))) cells16"

text \<open>Writing to the cells of a piece that are on the board; \<open>ok\<close> is the extra test of the ghost.\<close>

definition on_board :: "int \<Rightarrow> int \<Rightarrow> bool" where
  "on_board by bx \<longleftrightarrow> by \<ge> 0 \<and> by < int BH \<and> bx \<ge> 0 \<and> bx < int BW"

definition stamp :: "nat \<Rightarrow> nat \<Rightarrow> int \<Rightarrow> int \<Rightarrow> u8 \<Rightarrow> (u8 \<Rightarrow> bool) \<Rightarrow> grid \<Rightarrow> grid" where
  "stamp p r px py c ok b =
     foldl (\<lambda>b (gx, gy).
       let bx = px + int gx; by = py + int gy
       in if pcell p r gx gy \<and> on_board by bx \<and> ok (cell_at b by bx) then set_cell by bx c b else b) b cells16"

definition lock_piece :: "tetris \<Rightarrow> tetris" where
  "lock_piece g = g\<lparr>board := stamp (cp g) (cr g) (cx g) (cy g) (of_nat (cp g + 1)) (\<lambda>_. True) (board g)\<rparr>"

definition full_row :: "u8 list \<Rightarrow> bool" where
  "full_row row = list_all (\<lambda>c. c \<noteq> 0) row"

text \<open>Rows \<open>0\<close> to \<open>y - 1\<close> move down by one and row 0 is emptied.\<close>

definition shift_rows :: "nat \<Rightarrow> grid \<Rightarrow> grid" where
  "shift_rows y b = (foldl (\<lambda>b yy. b[yy := b ! (yy - 1)]) b (rev [1..<Suc y]))[0 := replicate BW 0]"

lemma shift_fold:
  "y < length b \<Longrightarrow> foldl (\<lambda>b yy. b[yy := b ! (yy - 1)]) b (rev [1..<Suc y]) = take 1 b @ take y b @ drop (Suc y) b"
proof (induction y arbitrary: b)
  case 0
  then show ?case by (cases b) simp_all
next
  case (Suc y)
  let ?b = "b[Suc y := b ! y]"
  have "foldl (\<lambda>b yy. b[yy := b ! (yy - 1)]) b (rev [1..<Suc (Suc y)]) = take 1 ?b @ take y ?b @ drop (Suc y) ?b"
    using Suc.IH [of ?b] Suc.prems by simp
  also have "take 1 ?b = take 1 b" by (cases b) simp_all
  also have "take y ?b = take y b" by simp
  also have "drop (Suc y) ?b = b ! y # drop (Suc (Suc y)) b"
    using Suc.prems by (subst Cons_nth_drop_Suc [symmetric]) (simp_all add: drop_update_cancel)
  finally show ?case using Suc.prems by (simp add: take_Suc_conv_app_nth)
qed

lemma shift_rows_eq: "y < length b \<Longrightarrow> shift_rows y b = replicate BW 0 # take y b @ drop (Suc y) b"
  unfolding shift_rows_def by (subst shift_fold, assumption, cases b) simp_all

lemma empty_not_full [simp]: "\<not> full_row (replicate BW 0)"
  by (simp add: full_row_def BW_def list_all_iff)

lemma shift_fewer_full:
  assumes "y < length b" "full_row (b ! y)"
  shows "length (filter full_row (shift_rows y b)) < length (filter full_row b)"
proof -
  have "filter full_row b = filter full_row (take y b) @ b ! y # filter full_row (drop (Suc y) b)"
    using arg_cong [OF id_take_nth_drop [OF assms(1)], of "filter full_row"] assms(2) by simp
  then show ?thesis using assms(1) by (simp add: shift_rows_eq)
qed

text \<open>The loop from the last row up; after a full row \<^verbatim>\<open>y\<close> stays.\<close>

function clear_loop :: "nat \<Rightarrow> int \<Rightarrow> grid \<Rightarrow> (int \<times> grid) option" where
  "clear_loop 0 cleared b = Some (cleared, b)"
| "clear_loop (Suc y) cleared b =
     (if y < length b then
        if full_row (b ! y) then clear_loop (Suc y) (cleared + 1) (shift_rows y b)
        else clear_loop y cleared b
      else None)"
  by pat_completeness auto
termination
  by (relation "measures [\<lambda>(y, c, b). length (filter full_row b), \<lambda>(y, c, b). y]") (auto simp: shift_fewer_full)

definition clear_rows :: "tetris \<Rightarrow> (int \<times> tetris) option" where
  "clear_rows g = do { (cleared, b) \<leftarrow> clear_loop BH 0 (board g); Some (cleared, g\<lparr>board := b\<rparr>) }"

definition spawn :: "tetris \<Rightarrow> tetris" where
  "spawn g =
     (let g = g\<lparr>cp := np g\<rparr>; (n, g) = rand7 g; g = g\<lparr>np := n, cr := 0, cx := 3, cy := -1\<rparr>
      in if collides (cp g) (cr g) (cx g) (cy g) (board g) then g\<lparr>game_over := True\<rparr> else g)"

definition award_lines :: "int \<Rightarrow> tetris \<Rightarrow> tetris option" where
  "award_lines n g =
     do {
       pts \<leftarrow> if n < 0 then None else get [0, 100, 300, 500, 800] (nat n);
       gain \<leftarrow> chk32 (pts * (level g + 1));
       s \<leftarrow> chk32 (score g + gain);
       l \<leftarrow> chk32 (total_lines g + n);
       let lv = l sdiv 10;
       let d = 20 - lv * 2;
       Some (g\<lparr>score := s, total_lines := l, level := lv, drop_interval := (if d < 2 then 2 else d)\<rparr>)
     }"

subsection \<open>Drawing\<close>

definition make_call :: "call \<Rightarrow> tetris \<Rightarrow> tetris" where
  "make_call c g = g\<lparr>calls := calls g @ [c]\<rparr>"

definition draw_rect :: "int \<Rightarrow> int \<Rightarrow> int \<Rightarrow> int \<Rightarrow> u8 \<Rightarrow> tetris \<Rightarrow> tetris" where
  "draw_rect x y w h color = make_call (Rect x y w h color)"

definition draw_text :: "int \<Rightarrow> int \<Rightarrow> u8 list \<Rightarrow> u8 \<Rightarrow> tetris \<Rightarrow> tetris" where
  "draw_text x y str color = make_call (Text x y str color)"

definition draw_num :: "u8 list \<Rightarrow> int \<Rightarrow> int \<Rightarrow> int \<Rightarrow> u8 \<Rightarrow> tetris \<Rightarrow> tetris option" where
  "draw_num buf x y n color g = do { buf \<leftarrow> itos buf n; Some (draw_text x y buf color g) }"

partial_function (option) ghost_loop :: "nat \<Rightarrow> nat \<Rightarrow> int \<Rightarrow> int \<Rightarrow> grid \<Rightarrow> int option" where
  "ghost_loop p r x y b = (if collides p r x (y + 1) b then Some y else ghost_loop p r x (y + 1) b)"

definition locked_colors :: "grid \<Rightarrow> grid" where
  "locked_colors b = map (map (\<lambda>c. if c \<noteq> 0 then piece_colors ! unat c else COL_BG)) b"

definition wanted :: "tetris \<Rightarrow> grid option" where
  "wanted g =
     do {
       let w = locked_colors (board g);
       ghost_y \<leftarrow> ghost_loop (cp g) (cr g) (cx g) (cy g) (board g);
       let w = (if ghost_y \<noteq> cy g then stamp (cp g) (cr g) (cx g) ghost_y COL_GHOST (\<lambda>c. c = COL_BG) w else w);
       Some (stamp (cp g) (cr g) (cx g) (cy g) (piece_colors ! (cp g + 1)) (\<lambda>_. True) w)
     }"

definition board_cells :: "(nat \<times> nat) list" where
  "board_cells = concat (map (\<lambda>y. map (\<lambda>x. (y, x)) [0..<BW]) [0..<BH])"

definition diff_cell :: "grid \<Rightarrow> tetris \<Rightarrow> nat \<times> nat \<Rightarrow> tetris" where
  "diff_cell w g yx =
     (let (y, x) = yx in
      if w ! y ! x \<noteq> display g ! y ! x
      then draw_rect (BOARD_X + int x * CELL) (BOARD_Y + int y * CELL) CELL CELL (w ! y ! x)
             (g\<lparr>display := set_cell (int y) (int x) (w ! y ! x) (display g)\<rparr>)
      else g)"

definition render_board :: "tetris \<Rightarrow> tetris option" where
  "render_board g = do { w \<leftarrow> wanted g; Some (foldl (diff_cell w) g board_cells) }"

definition sidebar_labels :: "(int \<times> string \<times> u8) list" where
  "sidebar_labels =
     [(8, ''TETRIS'', COL_TEXT), (24, ''Score'', COL_LABEL), (48, ''Lines'', COL_LABEL), (72, ''Level'', COL_LABEL),
      (100, ''Next'', COL_LABEL), (152, ''a/d move'', COL_LABEL), (162, ''w   spin'', COL_LABEL), (172, ''s   drop'', COL_LABEL),
      (182, ''spc slam'', COL_LABEL), (192, ''q   quit'', COL_LABEL)]"

definition sidebar_frame :: "tetris \<Rightarrow> tetris" where
  "sidebar_frame g =
     (if sidebar_drawn g then g
      else (foldl (\<lambda>g (y, str, color). draw_text SIDEBAR_X y (cstr str) color g) g sidebar_labels)\<lparr>sidebar_drawn := True\<rparr>)"

definition draw_value :: "u8 list \<Rightarrow> int \<Rightarrow> int \<Rightarrow> tetris \<Rightarrow> tetris option" where
  "draw_value buf y n g = draw_num buf SIDEBAR_X y n COL_TEXT (draw_rect SIDEBAR_X y 80 10 COL_SIDEBAR g)"

definition draw_next :: "tetris \<Rightarrow> tetris" where
  "draw_next g =
     foldl (\<lambda>g (px, py).
         if pcell (np g) 0 px py
         then draw_rect (SIDEBAR_X + int px * 8) (112 + int py * 8) 7 7 (piece_colors ! (np g + 1)) g else g)
       (draw_rect SIDEBAR_X 112 35 35 COL_SIDEBAR g) cells16"

definition render_sidebar :: "u8 list \<Rightarrow> tetris \<Rightarrow> tetris option" where
  "render_sidebar buf g =
     do {
       let g = sidebar_frame g;
       g \<leftarrow> (if score g \<noteq> prev_score g
            then do { g \<leftarrow> draw_value buf 34 (score g) g; Some (g\<lparr>prev_score := score g\<rparr>) } else Some g);
       g \<leftarrow> (if total_lines g \<noteq> prev_lines g
            then do { g \<leftarrow> draw_value buf 58 (total_lines g) g; Some (g\<lparr>prev_lines := total_lines g\<rparr>) } else Some g);
       g \<leftarrow> (if level g \<noteq> prev_level g
            then do { g \<leftarrow> draw_value buf 82 (level g + 1) g; Some (g\<lparr>prev_level := level g\<rparr>) } else Some g);
       Some (if int (np g) \<noteq> prev_np g then (draw_next g)\<lparr>prev_np := int (np g)\<rparr> else g)
     }"

definition render :: "u8 list \<Rightarrow> tetris \<Rightarrow> tetris option" where
  "render buf g =
     do {
       g \<leftarrow> render_board g;
       g \<leftarrow> render_sidebar buf g;
       let g = (if game_over g then draw_text (BOARD_X + 10) (BOARD_Y + 95) (cstr ''GAME OVER'') COL_TEXT g else g);
       Some (make_call Flush g)
     }"

definition render_initial :: "u8 list \<Rightarrow> tetris \<Rightarrow> tetris option" where
  "render_initial buf g =
     (let g = draw_rect 0 0 WIN_W WIN_H COL_SIDEBAR g;
          g = draw_rect BOARD_X BOARD_Y (int BW * CELL) (int BH * CELL) COL_BG g
      in render buf (g\<lparr>display := replicate BH (replicate BW COL_BG), sidebar_drawn := False,
        prev_score := -1, prev_lines := -1, prev_level := -1, prev_np := -1\<rparr>))"

subsection \<open>The game\<close>

definition try_move :: "nat \<Rightarrow> int \<Rightarrow> int \<Rightarrow> tetris \<Rightarrow> tetris option" where
  "try_move r x y g =
     (if collides (cp g) r x y (board g) then None else Some (g\<lparr>cr := r, cx := x, cy := y\<rparr>))"

definition or_else :: "'a option \<Rightarrow> 'a option \<Rightarrow> 'a option" where
  "or_else a b = (case a of None \<Rightarrow> b | Some x \<Rightarrow> Some x)"

definition attempt :: "tetris option \<Rightarrow> tetris \<Rightarrow> tetris" where
  "attempt m g = (case m of None \<Rightarrow> g | Some g' \<Rightarrow> g')"

text \<open>The result is whether the player quits. The first failing test of a rotation tries the column
  to the left, then the one to the right.\<close>

definition handle_input :: "u8 \<Rightarrow> tetris \<Rightarrow> (bool \<times> tetris) option" where
  "handle_input c g =
     (if c = 113 \<or> c = 81 then Some (True, g)
      else if game_over g then Some (False, g)
      else if c = 97 \<or> c = 65 then Some (False, attempt (try_move (cr g) (cx g - 1) (cy g) g) g)
      else if c = 100 \<or> c = 68 then Some (False, attempt (try_move (cr g) (cx g + 1) (cy g) g) g)
      else if c = 119 \<or> c = 87 then
        let nr = (cr g + 1) mod 4
        in Some (False, attempt (or_else (try_move nr (cx g) (cy g) g)
             (or_else (try_move nr (cx g - 1) (cy g) g) (try_move nr (cx g + 1) (cy g) g))) g)
      else if c = 115 \<or> c = 83 then Some (False, attempt (try_move (cr g) (cx g) (cy g + 1) g) g)
      else if c = 32 then do {
        y \<leftarrow> ghost_loop (cp g) (cr g) (cx g) (cy g) (board g);
        Some (False, g\<lparr>cy := y\<rparr>) }
      else Some (False, g))"

text \<open>The key presses among the pending events, in order, until the player quits.\<close>

fun drain_events :: "event list \<Rightarrow> tetris \<Rightarrow> (bool \<times> tetris) option" where
  "drain_events [] g = Some (False, g)"
| "drain_events (e # es) g =
     (if ev_type e = EVENT_KEYPRESS then do {
        (quit, g) \<leftarrow> handle_input (ev_c e) g;
        if quit then Some (True, g) else drain_events es (g\<lparr>dirty := True\<rparr>) }
      else drain_events es g)"

definition gravity :: "tetris \<Rightarrow> tetris option" where
  "gravity g =
     (if game_over g then Some g
      else
        let g = g\<lparr>tick := tick g + 1\<rparr> in
        if tick g \<ge> drop_interval g then do {
          let g = g\<lparr>tick := 0\<rparr>;
          g \<leftarrow> (case try_move (cr g) (cx g) (cy g + 1) g of
                 Some g' \<Rightarrow> Some g'
               | None \<Rightarrow> do {
                   (cl, g) \<leftarrow> clear_rows (lock_piece g);
                   g \<leftarrow> (if cl > 0 then award_lines cl g else Some g);
                   Some (spawn g) });
          Some (g\<lparr>dirty := True\<rparr>)
        }
        else Some g)"

text \<open>
  One round of the main loop with the events that are pending; \<open>closed\<close> is the answer
  \<open>-1\<close> after them. The first component tells whether the program has ended.
\<close>

definition game_round :: "u8 list \<Rightarrow> event list \<Rightarrow> bool \<Rightarrow> tetris \<Rightarrow> (bool \<times> tetris) option" where
  "game_round buf es closed g =
     do {
       (quit, g) \<leftarrow> drain_events es g;
       if quit \<or> closed then Some (True, g)
       else do {
         g \<leftarrow> gravity g;
         if dirty g then do { g \<leftarrow> render buf g; Some (False, g\<lparr>dirty := False\<rparr>) }
         else Some (False, g)
       }
     }"

definition game_start :: "u8 list \<Rightarrow> u32 \<Rightarrow> tetris \<Rightarrow> tetris option" where
  "game_start buf uptime g =
     (let g = g\<lparr>board := replicate BH (replicate BW 0), rng := uptime, score := 0, total_lines := 0, level := 0,
              game_over := False, drop_interval := 20\<rparr>;
          (n, g) = rand7 g
      in do {
        g \<leftarrow> render_initial buf (spawn (g\<lparr>np := n\<rparr>));
        Some (g\<lparr>tick := 0, dirty := False\<rparr>)
      })"

section \<open>Clearing rows\<close>

lemma clear_loop_spec:
  "y \<le> length b \<Longrightarrow> clear_loop y c b = Some (c + int (length (filter full_row (take y b))),
     replicate (length (filter full_row (take y b))) (replicate BW 0) @ filter (\<lambda>row. \<not> full_row row) (take y b) @ drop y b)"
proof (induction y c b rule: clear_loop.induct)
  case (1 c b)
  then show ?case by simp
next
  case (2 y c b)
  then have y: "y < length b" by simp
  have t: "take (Suc y) b = take y b @ [b ! y]" using y by (rule take_Suc_conv_app_nth)
  show ?case
  proof (cases "full_row (b ! y)")
    case True
    let ?n = "length (filter full_row (take y b))" and ?f = "filter (\<lambda>row. \<not> full_row row) (take y b)"
    have s: "take (Suc y) (shift_rows y b) = replicate BW 0 # take y b" "drop (Suc y) (shift_rows y b) = drop (Suc y) b"
      using y by (simp_all add: shift_rows_eq)
    have "Suc y \<le> length (shift_rows y b)" using y by (simp add: shift_rows_eq)
    from "2.IH"(1) [OF y True this]
    have "clear_loop (Suc y) (c + 1) (shift_rows y b) = Some (c + 1 + int ?n, replicate ?n (replicate BW 0) @ (replicate BW 0 # ?f) @ drop (Suc y) b)"
      unfolding s by simp
    moreover have "clear_loop (Suc y) c b = clear_loop (Suc y) (c + 1) (shift_rows y b)" using y True by simp
    ultimately show ?thesis unfolding t using True by (simp add: replicate_append_same [symmetric] del: clear_loop.simps)
  next
    case False
    have "drop y b = b ! y # drop (Suc y) b" using y by (rule Cons_nth_drop_Suc [symmetric])
    moreover have "clear_loop (Suc y) c b = clear_loop y c b" using y False by simp
    ultimately show ?thesis using "2.IH"(2) [OF y False] y False unfolding t by (simp del: clear_loop.simps)
  qed
qed

lemma clear_rows_eq:
  assumes "length (board g) = BH"
  shows "clear_rows g = Some (int (length (filter full_row (board g))),
     g\<lparr>board := replicate (length (filter full_row (board g))) (replicate BW 0) @ filter (\<lambda>row. \<not> full_row row) (board g)\<rparr>)"
  using clear_loop_spec [of BH "board g" 0] assms by (simp add: clear_rows_def del: clear_loop.simps)

section \<open>Grids and pieces\<close>

definition grid_ok :: "grid \<Rightarrow> bool" where
  "grid_ok b \<longleftrightarrow> length b = BH \<and> (\<forall>row \<in> set b. length row = BW)"

lemma grid_row: "grid_ok b \<Longrightarrow> i < BH \<Longrightarrow> length (b ! i) = BW"
  by (simp add: grid_ok_def)

lemma grid_set_cell: "grid_ok b \<Longrightarrow> on_board y x \<Longrightarrow> grid_ok (set_cell y x c b)"
  by (auto simp: grid_ok_def set_cell_def on_board_def nat_less_iff dest!: set_update_subset_insert [THEN subsetD])

lemma cell_set_cell:
  assumes "grid_ok b" "on_board y x" "on_board y' x'"
  shows "cell_at (set_cell y x c b) y' x' = (if (y', x') = (y, x) then c else cell_at b y' x')"
proof -
  have "nat y < length b" "nat x < length (b ! nat y)" using assms grid_row by (auto simp: grid_ok_def on_board_def nat_less_iff)
  moreover have "nat y' = nat y \<longleftrightarrow> y' = y" "nat x' = nat x \<longleftrightarrow> x' = x" using assms by (auto simp: on_board_def)
  ultimately show ?thesis by (auto simp: cell_at_def set_cell_def nth_list_update)
qed

lemma stamp_induct:
  assumes "P b" "\<And>b gx gy. P b \<Longrightarrow> (gx, gy) \<in> set cells16 \<Longrightarrow> pcell p r gx gy \<Longrightarrow> on_board (py + int gy) (px + int gx)
    \<Longrightarrow> P (set_cell (py + int gy) (px + int gx) c b)"
  shows "P (stamp p r px py c ok b)"
proof -
  have "P (foldl (\<lambda>b (gx, gy).
       let bx = px + int gx; by = py + int gy
       in if pcell p r gx gy \<and> on_board by bx \<and> ok (cell_at b by bx) then set_cell by bx c b else b) b cs)"
    if "P b" "set cs \<subseteq> set cells16" for b cs
    using that by (induction cs arbitrary: b) (auto simp: Let_def assms(2))
  then show ?thesis using assms(1) by (simp add: stamp_def)
qed

lemma stamp_grid: "grid_ok b \<Longrightarrow> grid_ok (stamp p r px py c ok b)"
  by (rule stamp_induct) (auto intro: grid_set_cell)

lemma cells16_bound: "(gx, gy) \<in> set cells16 \<Longrightarrow> gx < 4 \<and> gy < 4"
  by (auto simp: cells16_def)

lemma stamp_other_rows:
  assumes "i < BH" "int i < py \<or> py + 3 < int i"
  shows "stamp p r px py c ok b ! i = b ! i"
proof (rule stamp_induct [where P = "\<lambda>b'. b' ! i = b ! i"])
  fix b' gx gy
  assume "b' ! i = b ! i" "(gx, gy) \<in> set cells16" "on_board (py + int gy) (px + int gx)"
  then show "set_cell (py + int gy) (px + int gx) c b' ! i = b ! i"
    using assms cells16_bound by (fastforce simp: set_cell_def on_board_def)
qed simp

definition cells_below :: "nat \<Rightarrow> grid \<Rightarrow> bool" where
  "cells_below n b \<longleftrightarrow> (\<forall>row \<in> set b. \<forall>c \<in> set row. unat c < n)"

lemma stamp_below:
  assumes "cells_below n b" "grid_ok b" "unat c < n"
  shows "cells_below n (stamp p r px py c ok b)"
proof -
  have "grid_ok (stamp p r px py c ok b) \<and> cells_below n (stamp p r px py c ok b)"
  proof (rule stamp_induct)
    fix b gx gy
    assume b: "grid_ok b \<and> cells_below n b" and on: "on_board (py + int gy) (px + int gx)"
    then have i: "nat (py + int gy) < length b" by (auto simp: grid_ok_def on_board_def nat_less_iff)
    then have "b ! nat (py + int gy) \<in> set b" by simp
    then have "\<forall>d \<in> set ((b ! nat (py + int gy))[nat (px + int gx) := c]). unat d < n"
      using b assms(3) by (auto simp: cells_below_def dest!: set_update_subset_insert [THEN subsetD])
    moreover have "set (set_cell (py + int gy) (px + int gx) c b)
        \<subseteq> insert ((b ! nat (py + int gy))[nat (px + int gx) := c]) (set b)"
      unfolding set_cell_def by (rule set_update_subset_insert)
    ultimately have "cells_below n (set_cell (py + int gy) (px + int gx) c b)" using b unfolding cells_below_def by blast
    then show "grid_ok (set_cell (py + int gy) (px + int gx) c b) \<and> cells_below n (set_cell (py + int gy) (px + int gx) c b)"
      using b on grid_set_cell by blast
  qed (use assms in simp)
  then show ?thesis ..
qed

text \<open>Every piece has a cell in every rotation, so that below the board it collides.\<close>

lemma pieces_not_empty: "list_all (\<lambda>p. list_all (\<lambda>r. list_ex (\<lambda>(gx, gy). pcell p r gx gy) cells16) [0..<4]) [0..<7]"
  by code_simp

lemma piece_cell:
  assumes "p < 7" "r < 4"
  obtains gx gy where "(gx, gy) \<in> set cells16" "pcell p r gx gy"
proof -
  have "p \<in> {0..<7}" "r \<in> {0..<4}" using assms by simp_all
  then have "\<exists>x \<in> set cells16. case x of (gx, gy) \<Rightarrow> pcell p r gx gy"
    using pieces_not_empty unfolding list_all_iff list_ex_iff set_upt by blast
  then show thesis using that by blast
qed

lemma below_collides: "p < 7 \<Longrightarrow> r < 4 \<Longrightarrow> int BH \<le> y \<Longrightarrow> collides p r x y b"
  by (rule piece_cell [of p r]) (auto simp: collides_def list_ex_iff intro!: bexI)

lemma ghost_loop_spec:
  assumes "p < 7" "r < 4"
  shows "\<exists>y'. ghost_loop p r x y b = Some y' \<and> y \<le> y' \<and> collides p r x (y' + 1) b \<and> (\<forall>k. y < k \<and> k \<le> y' \<longrightarrow> \<not> collides p r x k b)"
proof (induction "nat (int BH - y)" arbitrary: y rule: less_induct)
  case less
  show ?case
  proof (cases "collides p r x (y + 1) b")
    case True
    then have "ghost_loop p r x y b = Some y" by (simp add: ghost_loop.simps)
    then show ?thesis using True by (intro exI [of _ y]) auto
  next
    case False
    then have "y + 1 < int BH" using below_collides [OF assms, of "y + 1" x b] by linarith
    then obtain y' where "ghost_loop p r x (y + 1) b = Some y'" "y + 1 \<le> y'" "collides p r x (y' + 1) b"
        "\<forall>k. y + 1 < k \<and> k \<le> y' \<longrightarrow> \<not> collides p r x k b"
      using less [of "y + 1"] by auto
    moreover have "k = y + 1 \<or> y + 1 < k" if "y < k" for k using that by linarith
    ultimately show ?thesis using False by (intro exI [of _ y']) (auto simp: ghost_loop.simps [of p r x y])
  qed
qed

section \<open>The invariant of the game\<close>

definition board_ok :: "grid \<Rightarrow> bool" where
  "board_ok b \<longleftrightarrow> grid_ok b \<and> cells_below 8 b \<and> (\<forall>row \<in> set b. \<not> full_row row)"

definition game_ok :: "tetris \<Rightarrow> bool" where
  "game_ok g \<longleftrightarrow> board_ok (board g) \<and> grid_ok (display g) \<and> cp g < 7 \<and> np g < 7 \<and> cr g < 4
     \<and> (\<not> game_over g \<longrightarrow> \<not> collides (cp g) (cr g) (cx g) (cy g) (board g))"

text \<open>Counters that are far from an overflow; a game of a million rows stays within them.\<close>

definition counters_ok :: "tetris \<Rightarrow> bool" where
  "counters_ok g \<longleftrightarrow> 0 \<le> score g \<and> score g \<le> 10 ^ 9 \<and> 0 \<le> total_lines g \<and> total_lines g \<le> 10 ^ 6
     \<and> level g = total_lines g sdiv 10"

definition nums_ok :: "tetris \<Rightarrow> bool" where
  "nums_ok g \<longleftrightarrow> 0 \<le> score g \<and> score g < 2147483648 \<and> 0 \<le> total_lines g \<and> total_lines g \<le> 10 ^ 6 + 4
     \<and> level g = total_lines g sdiv 10"

lemma counters_nums: "counters_ok g \<Longrightarrow> nums_ok g"
  by (simp add: counters_ok_def nums_ok_def)

lemma attempt_ok:
  assumes "game_ok g" "\<And>g'. m = Some g' \<Longrightarrow> game_ok g'"
  shows "game_ok (attempt m g)"
  using assms by (auto simp: attempt_def split: option.splits)

lemma try_move_ok: "game_ok g \<Longrightarrow> r < 4 \<Longrightarrow> try_move r x y g = Some g' \<Longrightarrow> game_ok g'"
  by (auto simp: try_move_def game_ok_def split: if_splits)

lemma or_else_some: "or_else a b = Some x \<Longrightarrow> a = Some x \<or> b = Some x"
  by (auto simp: or_else_def split: option.splits)

lemma input_ok:
  assumes "game_ok g"
  shows "\<exists>q g'. handle_input c g = Some (q, g') \<and> game_ok g' \<and> (counters_ok g \<longrightarrow> counters_ok g')"
proof -
  have cr: "cr g < 4" "(cr g + 1) mod 4 < 4" using assms by (simp_all add: game_ok_def)
  have move: "game_ok (attempt (try_move r x y g) g)" if "r < 4" for r x y
    by (rule attempt_ok [OF assms]) (rule try_move_ok [OF assms that])
  have turn: "game_ok (attempt (or_else (try_move r x y g) (or_else (try_move r x' y g) (try_move r x'' y g))) g)" if "r < 4" for r x x' x'' y
    by (rule attempt_ok [OF assms]) (auto dest!: or_else_some intro: try_move_ok [OF assms that])
  have keep: "counters_ok (attempt m g)" if "counters_ok g" "\<And>g'. m = Some g' \<Longrightarrow> \<exists>r x y. g' = g\<lparr>cr := r, cx := x, cy := y\<rparr>" for m
    using that by (cases m) (auto simp: attempt_def counters_ok_def)
  have moved: "\<exists>r x y. g' = g\<lparr>cr := r, cx := x, cy := y\<rparr>" if "try_move r x y g = Some g'" for r x y g'
    using that by (auto simp: try_move_def split: if_splits)
  obtain y where y: "ghost_loop (cp g) (cr g) (cx g) (cy g) (board g) = Some y" "cy g \<le> y"
      "\<forall>k. cy g < k \<and> k \<le> y \<longrightarrow> \<not> collides (cp g) (cr g) (cx g) k (board g)"
    using ghost_loop_spec [of "cp g" "cr g" "cx g" "cy g" "board g"] assms unfolding game_ok_def by blast
  have drop: "game_ok (g\<lparr>cy := y\<rparr>)" "counters_ok g \<longrightarrow> counters_ok (g\<lparr>cy := y\<rparr>)"
    using assms y(2,3) by (cases "y = cy g"; simp add: game_ok_def; fail)+ (simp add: counters_ok_def)
  show ?thesis
    unfolding handle_input_def Let_def y(1) bind.bind_lunit
    using assms drop move [OF cr(1)] turn [OF cr(2)]
    by (auto intro!: keep dest!: or_else_some intro: moved)
qed

lemma full_after_stamp:
  assumes "grid_ok b" "\<forall>row \<in> set b. \<not> full_row row"
  shows "length (filter full_row (stamp p r px py c ok b)) \<le> 4"
proof -
  let ?b = "stamp p r px py c ok b"
  have len: "length ?b = BH" "length b = BH" using assms(1) stamp_grid [OF assms(1)] by (simp_all add: grid_ok_def)
  have "{i. i < length ?b \<and> full_row (?b ! i)} \<subseteq> nat ` {py..py + 3}"
  proof
    fix i assume i: "i \<in> {i. i < length ?b \<and> full_row (?b ! i)}"
    have "py \<le> int i \<and> int i \<le> py + 3"
    proof (rule ccontr)
      assume "\<not> (py \<le> int i \<and> int i \<le> py + 3)"
      then have "?b ! i = b ! i" using stamp_other_rows [of i py p r px c ok b] i len by auto
      then show False using i assms(2) len by auto
    qed
    then show "i \<in> nat ` {py..py + 3}" by (intro image_eqI [of _ _ "int i"]) simp_all
  qed
  then have "card {i. i < length ?b \<and> full_row (?b ! i)} \<le> card (nat ` {py..py + 3})" by (intro card_mono) simp_all
  also have "\<dots> \<le> card {py..py + 3}" by (rule card_image_le) simp
  finally show ?thesis by (simp add: length_filter_conv_card)
qed

lemma cleared_board_ok:
  assumes "grid_ok b" "cells_below 8 b"
  shows "board_ok (replicate (length (filter full_row b)) (replicate BW 0) @ filter (\<lambda>row. \<not> full_row row) b)"
proof -
  have "length (filter full_row b) + length (filter (\<lambda>row. \<not> full_row row) b) = length b" by (rule sum_length_filter_compl)
  then show ?thesis using assms by (auto simp: board_ok_def grid_ok_def cells_below_def)
qed

lemma rand7_parts: "rand7 g = (n, g') \<Longrightarrow> n < 7 \<and> (\<exists>r. g' = g\<lparr>rng := r\<rparr>)"
  by (auto simp: rand7_def Let_def unat_mod)

lemma spawn_ok:
  assumes "board_ok (board g)" "grid_ok (display g)" "np g < 7"
  shows "game_ok (spawn g)" "nums_ok (spawn g) = nums_ok g"
proof -
  obtain n g1 where r: "rand7 (g\<lparr>cp := np g\<rparr>) = (n, g1)" by (cases "rand7 (g\<lparr>cp := np g\<rparr>)")
  obtain k where "n < 7" "g1 = g\<lparr>cp := np g, rng := k\<rparr>" using rand7_parts [OF r] by auto
  then show "game_ok (spawn g)" "nums_ok (spawn g) = nums_ok g"
    using assms r by (simp_all add: spawn_def Let_def game_ok_def nums_ok_def)
qed

lemma award_ok:
  assumes "counters_ok g" "0 \<le> n" "n \<le> 4"
  shows "\<exists>g'. award_lines n g = Some g' \<and> board g' = board g \<and> display g' = display g \<and> np g' = np g
    \<and> nums_ok g'"
proof -
  have l: "0 \<le> level g" "level g \<le> 10 ^ 5"
  proof -
    have "level g = total_lines g div 10" using assms(1) by (simp add: counters_ok_def signed_divide_int_def sgn_if)
    then show "0 \<le> level g" "level g \<le> 10 ^ 5" using assms(1) by (auto simp: counters_ok_def)
  qed
  have "n \<in> {0, 1, 2, 3, 4}" using assms(2,3) by auto
  then obtain pts :: int where pts: "get [0, 100, 300, 500, 800] (nat n) = Some pts" "0 \<le> pts" "pts \<le> 800"
    by (elim insertE) (simp_all add: get_def)
  have gain: "0 \<le> pts * (level g + 1)" "pts * (level g + 1) \<le> 800 * (10 ^ 5 + 1)"
    using pts l by (simp, intro mult_mono) simp_all
  have s: "0 \<le> score g" "score g \<le> 10 ^ 9" "0 \<le> total_lines g" "total_lines g \<le> 10 ^ 6" using assms(1) by (simp_all add: counters_ok_def)
  have "chk32 (pts * (level g + 1)) = Some (pts * (level g + 1))" "chk32 (score g + pts * (level g + 1)) = Some (score g + pts * (level g + 1))"
    "chk32 (total_lines g + n) = Some (total_lines g + n)"
    using gain s assms(2,3) by (simp_all add: chk32_def INT_MIN_def)
  then show ?thesis using pts(1) assms(2,3) gain s by (simp add: award_lines_def Let_def nums_ok_def)
qed

text \<open>The next piece after the current one has come to rest.\<close>

lemma rest_ok:
  assumes "game_ok g" "counters_ok g"
  shows "\<exists>cl g1 g2. clear_rows (lock_piece g) = Some (cl, g1) \<and> (if cl > 0 then award_lines cl g1 else Some g1) = Some g2
    \<and> game_ok (spawn g2) \<and> nums_ok g2"
proof -
  have b: "grid_ok (board g)" "cells_below 8 (board g)" "\<forall>row \<in> set (board g). \<not> full_row row" "cp g < 7"
    "grid_ok (display g)" "np g < 7"
    using assms(1) by (simp_all add: game_ok_def board_ok_def)
  have small: "unat (of_nat n :: u8) = n" if "n < 8" for n using that by (simp add: unat_of_nat take_bit_nat_eq_self)
  have c8: "cp g + 1 < 8" using b(4) by simp
  have u: "unat (of_nat (cp g + 1) :: u8) < 8" unfolding small [OF c8] by (rule c8)
  define b1 where "b1 = board (lock_piece g)"
  have b1: "grid_ok b1" "cells_below 8 b1" "length (filter full_row b1) \<le> 4"
    unfolding b1_def lock_piece_def using b full_after_stamp stamp_grid stamp_below [OF b(2,1) u] by simp_all
  define k where "k = length (filter full_row b1)"
  let ?b2 = "replicate k (replicate BW 0) @ filter (\<lambda>row. \<not> full_row row) b1"
  let ?g1 = "lock_piece g\<lparr>board := ?b2\<rparr>"
  have c: "clear_rows (lock_piece g) = Some (int k, ?g1)"
    using clear_rows_eq [of "lock_piece g"] b1(1) by (simp add: b1_def [symmetric] k_def grid_ok_def)
  have b2: "board_ok ?b2" unfolding k_def by (rule cleared_board_ok [OF b1(1,2)])
  have g1: "counters_ok ?g1" "display ?g1 = display g" "np ?g1 = np g" "board ?g1 = ?b2"
    using assms(2) by (simp_all add: lock_piece_def counters_ok_def)
  show ?thesis
  proof (cases "k = 0")
    case True
    then show ?thesis using c spawn_ok(1) [of ?g1] g1 b2 b(5,6) counters_nums [OF g1(1)] by auto
  next
    case False
    obtain g2 where g2: "award_lines (int k) ?g1 = Some g2" "board g2 = board ?g1" "display g2 = display ?g1" "np g2 = np ?g1"
        "nums_ok g2"
      using award_ok [OF g1(1), of "int k"] b1(3) by (auto simp: k_def)
    then have "game_ok (spawn g2)" using spawn_ok(1) [of g2] g1 b2 b(5,6) by simp
    then show ?thesis using c g2(1,5) False by auto
  qed
qed

lemma gravity_ok:
  assumes "game_ok g" "counters_ok g"
  shows "\<exists>g'. gravity g = Some g' \<and> game_ok g' \<and> nums_ok g'"
proof (cases "game_over g \<or> tick g + 1 < drop_interval g")
  case True
  then show ?thesis using assms(1) counters_nums [OF assms(2)]
    by (cases "game_over g") (simp_all add: gravity_def game_ok_def nums_ok_def)
next
  case False
  let ?g = "g\<lparr>tick := 0\<rparr>"
  have ok: "game_ok ?g" "counters_ok ?g" "cr ?g < 4" using assms by (simp_all add: game_ok_def counters_ok_def)
  have step: "gravity g = (case try_move (cr ?g) (cx ?g) (cy ?g + 1) ?g of
                 Some g' \<Rightarrow> Some g'
               | None \<Rightarrow> do {
                   (cl, g) \<leftarrow> clear_rows (lock_piece ?g);
                   g \<leftarrow> (if cl > 0 then award_lines cl g else Some g);
                   Some (spawn g) }) \<bind> (\<lambda>g. Some (g\<lparr>dirty := True\<rparr>))"
    using False by (simp add: gravity_def Let_def)
  have dirty: "game_ok (g'\<lparr>dirty := True\<rparr>) = game_ok g'" "nums_ok (g'\<lparr>dirty := True\<rparr>) = nums_ok g'" for g'
    by (simp_all add: game_ok_def nums_ok_def)
  show ?thesis
  proof (cases "try_move (cr ?g) (cx ?g) (cy ?g + 1) ?g")
    case None
    obtain cl g1 g2 where "clear_rows (lock_piece ?g) = Some (cl, g1)" "(if cl > 0 then award_lines cl g1 else Some g1) = Some g2"
        "game_ok (spawn g2)" "nums_ok g2"
      using rest_ok [OF ok(1,2)] by blast
    moreover from this have "nums_ok (spawn g2)" by (simp add: spawn_def rand7_def nums_ok_def Let_def)
    ultimately show ?thesis unfolding step None by (simp add: dirty)
  next
    case (Some g')
    moreover have "nums_ok g'" using Some counters_nums [OF ok(2)] by (auto simp: try_move_def nums_ok_def split: if_splits)
    ultimately show ?thesis unfolding step using try_move_ok [OF ok(1,3) Some] by (simp add: dirty)
  qed
qed

section \<open>Drawing the differences\<close>

definition cell_call :: "grid \<Rightarrow> nat \<times> nat \<Rightarrow> call" where
  "cell_call w = (\<lambda>(y, x). Rect (BOARD_X + int x * CELL) (BOARD_Y + int y * CELL) CELL CELL (w ! y ! x))"

text \<open>What a rectangle of one cell does to the cells on the screen.\<close>

definition paint_call :: "grid \<Rightarrow> call \<Rightarrow> grid" where
  "paint_call d c = (case c of
      Rect x y w h color \<Rightarrow> set_cell ((y - BOARD_Y) div CELL) ((x - BOARD_X) div CELL) color d
    | _ \<Rightarrow> d)"

lemma paint_cell_call: "paint_call d (cell_call w (y, x)) = set_cell (int y) (int x) (w ! y ! x) d"
  by (simp add: paint_call_def cell_call_def BOARD_X_def BOARD_Y_def CELL_def)

lemma on_board_nat: "on_board (int y) (int x) \<longleftrightarrow> y < BH \<and> x < BW"
  by (auto simp: on_board_def)

lemma set_cell_nth:
  assumes "grid_ok d" "y < BH" "x < BW" "y' < BH" "x' < BW"
  shows "set_cell (int y) (int x) c d ! y' ! x' = (if (y', x') = (y, x) then c else d ! y' ! x')"
  using cell_set_cell [of d "int y" "int x" "int y'" "int x'" c] assms by (simp add: on_board_nat cell_at_def)

lemma diff_cells:
  assumes "distinct cs" "\<forall>(y, x) \<in> set cs. y < BH \<and> x < BW" "grid_ok (display g)"
  shows "\<exists>D. foldl (diff_cell w) g cs = g\<lparr>display := D, calls := calls g @ map (cell_call w) (filter (\<lambda>(y, x). w ! y ! x \<noteq> display g ! y ! x) cs)\<rparr>
    \<and> grid_ok D \<and> (\<forall>y < BH. \<forall>x < BW. D ! y ! x = (if (y, x) \<in> set cs then w ! y ! x else display g ! y ! x))
    \<and> foldl paint_call (display g) (map (cell_call w) (filter (\<lambda>(y, x). w ! y ! x \<noteq> display g ! y ! x) cs)) = D"
  using assms
proof (induction cs arbitrary: g)
  case Nil
  then show ?case by (intro exI [of _ "display g"]) simp
next
  case (Cons c cs)
  obtain y x where c: "c = (y, x)" by (cases c)
  have yx: "y < BH" "x < BW" "(y, x) \<notin> set cs" using Cons.prems by (auto simp: c)
  define d where "d = (if w ! y ! x \<noteq> display g ! y ! x then set_cell (int y) (int x) (w ! y ! x) (display g) else display g)"
  define new where "new = (if w ! y ! x \<noteq> display g ! y ! x then [cell_call w (y, x)] else [])"
  let ?g = "g\<lparr>display := d, calls := calls g @ new\<rparr>"
  have step: "diff_cell w g c = ?g"
    by (simp add: c diff_cell_def d_def new_def draw_rect_def make_call_def cell_call_def)
  have gd: "grid_ok d" using Cons.prems(3) grid_set_cell yx by (simp add: d_def on_board_nat)
  have dn: "d ! y' ! x' = (if (y', x') = (y, x) then w ! y ! x else display g ! y' ! x')" if "y' < BH" "x' < BW" for y' x'
    using set_cell_nth [OF Cons.prems(3) yx(1,2) that] by (auto simp: d_def)
  have same: "filter (\<lambda>(y, x). w ! y ! x \<noteq> d ! y ! x) cs = filter (\<lambda>(y, x). w ! y ! x \<noteq> display g ! y ! x) cs"
  proof (rule filter_cong [OF refl])
    fix q assume q: "q \<in> set cs"
    obtain a b where ab: "q = (a, b)" by (cases q)
    have "a < BH" "b < BW" "(a, b) \<noteq> (y, x)" using q Cons.prems(2) yx(3) by (auto simp: ab)
    then show "(case q of (y, x) \<Rightarrow> w ! y ! x \<noteq> d ! y ! x) = (case q of (y, x) \<Rightarrow> w ! y ! x \<noteq> display g ! y ! x)"
      using dn [of a b] by (auto simp: ab)
  qed
  have fil: "map (cell_call w) (filter (\<lambda>(y, x). w ! y ! x \<noteq> display g ! y ! x) (c # cs))
      = new @ map (cell_call w) (filter (\<lambda>(y, x). w ! y ! x \<noteq> display g ! y ! x) cs)"
    by (simp add: c new_def)
  have paint: "foldl paint_call (display g) new = d" by (simp add: new_def d_def paint_cell_call)
  obtain D where D: "foldl (diff_cell w) ?g cs = ?g\<lparr>display := D, calls := calls ?g @ map (cell_call w) (filter (\<lambda>(y, x). w ! y ! x \<noteq> display ?g ! y ! x) cs)\<rparr>"
      "grid_ok D" "\<And>y x. y < BH \<Longrightarrow> x < BW \<Longrightarrow> D ! y ! x = (if (y, x) \<in> set cs then w ! y ! x else display ?g ! y ! x)"
      "foldl paint_call (display ?g) (map (cell_call w) (filter (\<lambda>(y, x). w ! y ! x \<noteq> display ?g ! y ! x) cs)) = D"
    using Cons.IH [of ?g] Cons.prems(1,2) gd by auto
  have "foldl (diff_cell w) g (c # cs) = g\<lparr>display := D, calls := calls g @ new @ map (cell_call w) (filter (\<lambda>(y, x). w ! y ! x \<noteq> display g ! y ! x) cs)\<rparr>"
    using D(1) same step by simp
  moreover have "D ! y' ! x' = (if (y', x') \<in> set (c # cs) then w ! y' ! x' else display g ! y' ! x')" if "y' < BH" "x' < BW" for y' x'
    using D(3) [OF that] dn [OF that] yx(3) by (auto simp: c)
  moreover have "foldl paint_call (display g) (new @ map (cell_call w) (filter (\<lambda>(y, x). w ! y ! x \<noteq> display g ! y ! x) cs)) = D"
    using D(4) same paint by simp
  ultimately show ?case using D(2) unfolding fil by blast
qed

lemma board_cells_set: "set board_cells = {(y, x). y < BH \<and> x < BW}" "distinct board_cells"
proof -
  have c: "board_cells = List.product [0..<BH] [0..<BW]" unfolding board_cells_def by (simp add: product_concat_map)
  show "set board_cells = {(y, x). y < BH \<and> x < BW}" by (auto simp: c)
  show "distinct board_cells" unfolding c by (rule distinct_product) simp_all
qed

lemma grid_eqI:
  assumes "grid_ok a" "grid_ok b" "\<And>y x. y < BH \<Longrightarrow> x < BW \<Longrightarrow> a ! y ! x = b ! y ! x"
  shows "a = b"
  using assms by (intro nth_equalityI) (auto simp: grid_ok_def intro!: nth_equalityI)

lemma wanted_grid:
  assumes "game_ok g"
  shows "\<exists>w. wanted g = Some w \<and> grid_ok w"
proof -
  have b: "grid_ok (locked_colors (board g))" using assms by (auto simp: game_ok_def board_ok_def grid_ok_def locked_colors_def)
  obtain y where "ghost_loop (cp g) (cr g) (cx g) (cy g) (board g) = Some y"
    using ghost_loop_spec [of "cp g" "cr g" "cx g" "cy g" "board g"] assms unfolding game_ok_def by blast
  then show ?thesis using b by (simp add: wanted_def Let_def stamp_grid)
qed

lemma render_board_spec:
  assumes "game_ok g"
  shows "\<exists>w new. wanted g = Some w \<and> grid_ok w \<and> render_board g = Some (g\<lparr>display := w, calls := calls g @ new\<rparr>)
    \<and> foldl paint_call (display g) new = w
    \<and> length new = card {(y, x). y < BH \<and> x < BW \<and> w ! y ! x \<noteq> display g ! y ! x}"
proof -
  obtain w where w: "wanted g = Some w" "grid_ok w" using wanted_grid [OF assms] by blast
  let ?f = "filter (\<lambda>(y, x). w ! y ! x \<noteq> display g ! y ! x) board_cells"
  obtain D where D: "foldl (diff_cell w) g board_cells = g\<lparr>display := D, calls := calls g @ map (cell_call w) ?f\<rparr>"
      "grid_ok D" "\<forall>y < BH. \<forall>x < BW. D ! y ! x = (if (y, x) \<in> set board_cells then w ! y ! x else display g ! y ! x)"
      "foldl paint_call (display g) (map (cell_call w) ?f) = D"
    using diff_cells [OF board_cells_set(2), of g w] assms by (auto simp: board_cells_set(1) game_ok_def)
  have "D = w" using D(3) by (intro grid_eqI [OF D(2) w(2)]) (simp add: board_cells_set(1))
  moreover have "length (map (cell_call w) ?f) = card {(y, x). y < BH \<and> x < BW \<and> w ! y ! x \<noteq> display g ! y ! x}"
  proof -
    have "length ?f = card (set ?f)" using distinct_card [of ?f] board_cells_set(2) by simp
    also have "set ?f = {(y, x). y < BH \<and> x < BW \<and> w ! y ! x \<noteq> display g ! y ! x}" by (auto simp: board_cells_set(1))
    finally show ?thesis by simp
  qed
  ultimately show ?thesis using w D by (intro exI [of _ w] exI [of _ "map (cell_call w) ?f"]) (simp add: render_board_def)
qed

section \<open>One round\<close>

definition same_game :: "tetris \<Rightarrow> tetris \<Rightarrow> bool" where
  "same_game g g' \<longleftrightarrow> board g' = board g \<and> display g' = display g \<and> cp g' = cp g \<and> np g' = np g \<and> cr g' = cr g \<and> cx g' = cx g
     \<and> cy g' = cy g \<and> game_over g' = game_over g"

lemma same_game_ok: "same_game g g' \<Longrightarrow> game_ok g' = game_ok g"
  by (simp add: same_game_def game_ok_def)

lemma same_game_trans: "same_game g g' \<Longrightarrow> same_game g' g'' \<Longrightarrow> same_game g g''"
  by (simp add: same_game_def)

lemma make_call_same [simp]: "same_game g (make_call c g') = same_game g g'" "score (make_call c g) = score g"
  "total_lines (make_call c g) = total_lines g" "level (make_call c g) = level g"
  by (simp_all add: same_game_def make_call_def)

lemma foldl_keeps: "(\<And>g x. P g \<Longrightarrow> P (f g x)) \<Longrightarrow> P g \<Longrightarrow> P (foldl f g xs)"
  by (induction xs arbitrary: g) auto

lemma draw_value_ok:
  assumes "12 \<le> length buf" "INT_MIN < n" "n < 2147483648"
  shows "\<exists>g'. draw_value buf y n g = Some g' \<and> same_game g g' \<and> score g' = score g \<and> total_lines g' = total_lines g \<and> level g' = level g"
  using itos_print [OF assms(2,3,1)] by (auto simp: draw_value_def draw_num_def draw_text_def draw_rect_def same_game_def make_call_def)

lemma draw_value_if:
  assumes "12 \<le> length buf" "INT_MIN < n" "n < 2147483648"
    "\<And>g'. same_game g' (upd g') \<and> score (upd g') = score g' \<and> total_lines (upd g') = total_lines g' \<and> level (upd g') = level g'"
  shows "\<exists>g'. (if P then do { g \<leftarrow> draw_value buf y n g; Some (upd g) } else Some g) = Some g' \<and> same_game g g'
    \<and> score g' = score g \<and> total_lines g' = total_lines g \<and> level g' = level g"
proof (cases P)
  case True
  obtain g1 where g1: "draw_value buf y n g = Some g1" "same_game g g1" "score g1 = score g" "total_lines g1 = total_lines g" "level g1 = level g"
    using draw_value_ok [OF assms(1-3), of y g] by blast
  then show ?thesis using True assms(4) [of g1] same_game_trans [OF g1(2), of "upd g1"] by auto
qed (simp add: same_game_def)

lemma sidebar_ok:
  assumes "12 \<le> length buf" "nums_ok g"
  shows "\<exists>g'. render_sidebar buf g = Some g' \<and> same_game g g'"
proof -
  let ?keep = "\<lambda>g'. same_game g g' \<and> score g' = score g \<and> total_lines g' = total_lines g \<and> level g' = level g"
  have lv: "INT_MIN < level g + 1" "level g + 1 < 2147483648"
    using assms(2) by (auto simp: nums_ok_def INT_MIN_def signed_divide_int_def sgn_if)
  have n: "INT_MIN < score g" "score g < 2147483648" "INT_MIN < total_lines g" "total_lines g < 2147483648"
    using assms(2) by (simp_all add: nums_ok_def INT_MIN_def)
  define g0 where "g0 = sidebar_frame g"
  have "?keep (foldl (\<lambda>g (y, str, color). draw_text SIDEBAR_X y (cstr str) color g) g xs)" for xs
    by (rule foldl_keeps [where P = ?keep]) (auto simp: draw_text_def same_game_def make_call_def)
  then have g0: "?keep g0" by (auto simp: g0_def sidebar_frame_def same_game_def)
  obtain g1 where g1: "(if score g0 \<noteq> prev_score g0
            then do { g \<leftarrow> draw_value buf 34 (score g0) g0; Some (g\<lparr>prev_score := score g\<rparr>) } else Some g0) = Some g1" "?keep g1"
    using draw_value_if [OF assms(1), of "score g0" "\<lambda>g. g\<lparr>prev_score := score g\<rparr>" "score g0 \<noteq> prev_score g0" 34 g0] n g0 same_game_trans
    by (auto simp: same_game_def)
  obtain g2 where g2: "(if total_lines g1 \<noteq> prev_lines g1
            then do { g \<leftarrow> draw_value buf 58 (total_lines g1) g1; Some (g\<lparr>prev_lines := total_lines g\<rparr>) } else Some g1) = Some g2" "?keep g2"
    using draw_value_if [OF assms(1), of "total_lines g1" "\<lambda>g. g\<lparr>prev_lines := total_lines g\<rparr>" "total_lines g1 \<noteq> prev_lines g1" 58 g1] n g1(2)
    by (auto simp: same_game_def)
  obtain g3 where g3: "(if level g2 \<noteq> prev_level g2
            then do { g \<leftarrow> draw_value buf 82 (level g2 + 1) g2; Some (g\<lparr>prev_level := level g\<rparr>) } else Some g2) = Some g3" "?keep g3"
    using draw_value_if [OF assms(1), of "level g2 + 1" "\<lambda>g. g\<lparr>prev_level := level g\<rparr>" "level g2 \<noteq> prev_level g2" 82 g2] lv g2(2)
    by (auto simp: same_game_def)
  have nxt: "same_game g (draw_next g3)" unfolding draw_next_def
    by (rule foldl_keeps) (use g3(2) in \<open>auto simp: draw_rect_def\<close>)
  show ?thesis
    unfolding render_sidebar_def Let_def g0_def [symmetric] g1(1) g2(1) g3(1) bind.bind_lunit
    using nxt g3(2) by (auto simp: same_game_def)
qed

lemma render_ok:
  assumes "game_ok g" "nums_ok g" "12 \<le> length buf"
  shows "\<exists>g'. render buf g = Some g' \<and> game_ok g'"
proof -
  obtain w new where w: "grid_ok w" "render_board g = Some (g\<lparr>display := w, calls := calls g @ new\<rparr>)"
    using render_board_spec [OF assms(1)] by blast
  let ?g = "g\<lparr>display := w, calls := calls g @ new\<rparr>"
  have ok: "game_ok ?g" "nums_ok ?g" using assms(1,2) w(1) by (simp_all add: game_ok_def nums_ok_def)
  obtain g1 where g1: "render_sidebar buf ?g = Some g1" "same_game ?g g1" using sidebar_ok [OF assms(3) ok(2)] by blast
  have "game_ok g1" using same_game_ok [OF g1(2)] ok(1) by simp
  then have "game_ok (make_call Flush (if game_over g1 then draw_text (BOARD_X + 10) (BOARD_Y + 95) (cstr ''GAME OVER'') COL_TEXT g1 else g1))"
    by (auto simp: game_ok_def make_call_def draw_text_def)
  then show ?thesis using w(2) g1(1) by (simp add: render_def Let_def)
qed

lemma drain_ok:
  "game_ok g \<Longrightarrow> counters_ok g \<Longrightarrow> \<exists>q g'. drain_events es g = Some (q, g') \<and> game_ok g' \<and> counters_ok g'"
proof (induction es arbitrary: g)
  case (Cons e es)
  obtain q g1 where g1: "handle_input (ev_c e) g = Some (q, g1)" "game_ok g1" "counters_ok g1"
    using input_ok [OF Cons.prems(1), of "ev_c e"] Cons.prems(2) by blast
  have "game_ok (g1\<lparr>dirty := True\<rparr>)" "counters_ok (g1\<lparr>dirty := True\<rparr>)" using g1 by (simp_all add: game_ok_def counters_ok_def)
  then show ?case using Cons.IH [of "g1\<lparr>dirty := True\<rparr>"] Cons.IH [OF Cons.prems] g1 by auto
qed (auto intro: exI [of _ False])

lemma round_ok:
  assumes "game_ok g" "counters_ok g" "12 \<le> length buf"
  shows "\<exists>q g'. game_round buf es closed g = Some (q, g') \<and> game_ok g'"
proof -
  obtain q g1 where g1: "drain_events es g = Some (q, g1)" "game_ok g1" "counters_ok g1" using drain_ok [OF assms(1,2)] by blast
  obtain g2 where g2: "gravity g1 = Some g2" "game_ok g2" "nums_ok g2" using gravity_ok [OF g1(2,3)] by blast
  obtain g3 where g3: "render buf g2 = Some g3" "game_ok g3" using render_ok [OF g2(2,3) assms(3)] by blast
  have "game_ok (g3\<lparr>dirty := False\<rparr>)" using g3(2) by (simp add: game_ok_def)
  then show ?thesis using g1(1,2) g2(1,2) g3(1) by (simp add: game_round_def) blast
qed

section \<open>Properties\<close>

text \<open>C14: \<^verbatim>\<open>clear_rows\<close>, which shifts the board down once for every full row, removes
  exactly the full rows, keeps the others in order, puts as many empty rows on top, and returns
  their number.\<close>

theorem clear_rows_removes_full_rows:
  assumes "length (board g) = BH"
  shows "clear_rows g = Some (int (length (filter full_row (board g))),
     g\<lparr>board := replicate (length (filter full_row (board g))) (replicate BW 0) @ filter (\<lambda>row. \<not> full_row row) (board g)\<rparr>)"
  by (rule clear_rows_eq [OF assms])

text \<open>C16: Drawing only the cells that changed gives the same picture as drawing all of them: the
  calls of \<^verbatim>\<open>render_board\<close> turn the cells on the screen into the wanted ones, one call for
  every cell that differs.\<close>

theorem diff_render_eq_full_render:
  assumes "game_ok g"
  shows "\<exists>w new. wanted g = Some w \<and> render_board g = Some (g\<lparr>display := w, calls := calls g @ new\<rparr>)
    \<and> foldl paint_call (display g) new = w
    \<and> length new = card {(y, x). y < BH \<and> x < BW \<and> w ! y ! x \<noteq> display g ! y ! x}"
  using render_board_spec [OF assms] by blast

text \<open>C15: While the counters are far from an overflow a round of the main loop returns whatever keys
  arrive (the falling loops end and at most four rows are paid for), and afterwards again no row of the board
  is full and the current piece neither leaves the board nor overlaps it, unless the game is over.\<close>

theorem round_keeps_game:
  assumes "game_ok g" "counters_ok g" "12 \<le> length buf"
  shows "\<exists>q g'. game_round buf es closed g = Some (q, g') \<and> (\<forall>row \<in> set (board g'). \<not> full_row row)
    \<and> (game_over g' \<or> \<not> collides (cp g') (cr g') (cx g') (cy g') (board g')) \<and> game_ok g'"
  using round_ok [OF assms, of es closed] by (auto simp: game_ok_def board_ok_def)

definition demo_game :: tetris where
  "demo_game = \<lparr>board = replicate 18 (replicate 10 0) @ [0 # replicate 9 1, replicate 10 2], cp = 1, cr = 0, cx = 3, cy = 0, np = 2,
     score = 0, total_lines = 0, level = 0, game_over = False, drop_interval = 20, rng = 7,
     display = replicate 20 (replicate 10 8), prev_score = -1, prev_lines = -1, prev_level = -1, prev_np = -1,
     sidebar_drawn = False, calls = [], tick = 0, dirty = False\<rparr>"

definition fresh_game :: tetris where
  "fresh_game = demo_game\<lparr>board := replicate 20 (replicate 10 0)\<rparr>"

theorem clear_rows_removes_full_rows_witness:
  "clear_rows demo_game = Some (1, demo_game\<lparr>board := replicate 19 (replicate 10 0) @ [0 # replicate 9 1]\<rparr>)"
proof -
  have "filter full_row (replicate n (replicate 10 0)) = []" "filter (\<lambda>row. \<not> full_row row) (replicate n (replicate 10 0)) = replicate n (replicate 10 0)" for n
    by (simp_all add: full_row_def list_all_iff filter_replicate)
  moreover have "full_row (replicate 10 2)" "\<not> full_row (0 # replicate 9 1)" by (simp_all add: full_row_def list_all_iff)
  moreover have "replicate 19 (replicate 10 (0 :: u8)) = replicate 10 0 # replicate 18 (replicate 10 0)"
    using replicate_Suc [of 18 "replicate 10 (0 :: u8)"] by simp
  ultimately show ?thesis
    using clear_rows_removes_full_rows [of demo_game] by (simp add: demo_game_def BH_def BW_def)
qed

lemma fresh_game_ok: "game_ok fresh_game" "counters_ok fresh_game"
proof -
  have "\<not> collides 1 0 3 0 (replicate 20 (replicate 10 0))" by code_simp
  then show "game_ok fresh_game"
    by (auto simp: game_ok_def board_ok_def grid_ok_def cells_below_def fresh_game_def demo_game_def BH_def BW_def full_row_def list_all_iff)
  show "counters_ok fresh_game" by (simp add: counters_ok_def fresh_game_def demo_game_def)
qed

theorem diff_render_eq_full_render_witness:
  "\<exists>w new. wanted fresh_game = Some w \<and> foldl paint_call (replicate 20 (replicate 10 8)) new = w"
proof -
  have "display fresh_game = replicate 20 (replicate 10 8)" by (simp add: fresh_game_def demo_game_def)
  then show ?thesis using diff_render_eq_full_render [OF fresh_game_ok(1)] by metis
qed

theorem round_keeps_game_witness:
  "\<exists>q g'. game_round (replicate 12 0) [zero_event\<lparr>ev_c := 119\<rparr>, zero_event\<lparr>ev_c := 32\<rparr>] False fresh_game = Some (q, g') \<and> game_ok g'"
  using round_keeps_game [OF fresh_game_ok, of "replicate 12 0" "[zero_event\<lparr>ev_c := 119\<rparr>, zero_event\<lparr>ev_c := 32\<rparr>]" False] by auto

end
