(* ===== verification/Brainfuck.thy ===== *)
theory Brainfuck
  imports Strings
begin

text \<open>
  The interpreter of \<^verbatim>\<open>user-space/programs/bf.c\<close>, and the language it is meant to
  implement: structured programs with a big-step semantics. The characters that
  \<^verbatim>\<open>sys_read\<close> will deliver are a list (a read beyond it waits for ever), those given to
  \<^verbatim>\<open>sys_write\<close> are collected.
\<close>

section \<open>Model\<close>

record bf =
  tape :: "u8 list"
  bf_ptr :: nat
  input :: "u8 list"
  out :: "u8 list"

definition bf_start :: "u8 list \<Rightarrow> bf" where
  "bf_start inp = \<lparr>tape = replicate 256 0, bf_ptr = 0, input = inp, out = []\<rparr>"

definition cell :: "bf \<Rightarrow> u8" where "cell s = tape s ! bf_ptr s"

definition set_tape :: "u8 \<Rightarrow> bf \<Rightarrow> bf" where "set_tape c s = s\<lparr>tape := (tape s)[bf_ptr s := c]\<rparr>"

text \<open>\<^verbatim>\<open>(ptr + 1) & 0xFF\<close> and \<^verbatim>\<open>(ptr - 1) & 0xFF\<close>.\<close>

definition move_ptr :: "int \<Rightarrow> bf \<Rightarrow> bf" where
  "move_ptr d s = s\<lparr>bf_ptr := nat ((int (bf_ptr s) + d) AND 0xFF)\<rparr>"

text \<open>The instructions without brackets, by their character; any other character does nothing.\<close>

definition simple_op :: "u8 \<Rightarrow> bf \<Rightarrow> bf option" where
  "simple_op c s =
     (if c = 62 then Some (move_ptr 1 s)
      else if c = 60 then Some (move_ptr (- 1) s)
      else if c = 43 then Some (set_tape (cell s + 1) s)
      else if c = 45 then Some (set_tape (cell s - 1) s)
      else if c = 46 then Some (s\<lparr>out := out s @ [cell s]\<rparr>)
      else if c = 44 then (case input s of [] \<Rightarrow> None | ch # inp \<Rightarrow> Some (set_tape ch (s\<lparr>input := inp\<rparr>)))
      else Some s)"

text \<open>The two searches for the matching bracket; reading outside the program is a fault.\<close>

function skip_forward :: "u8 list \<Rightarrow> nat \<Rightarrow> nat \<Rightarrow> nat option" where
  "skip_forward program pc depth =
     (if depth = 0 then Some pc
      else if pc + 1 < length program then
        let c = program ! (pc + 1); d = (if c = 91 then depth + 1 else depth)
        in skip_forward program (pc + 1) (if c = 93 then d - 1 else d)
      else None)"
  by pat_completeness auto
termination by (relation "measure (\<lambda>(program, pc, depth). length program - pc)") auto

fun skip_back :: "u8 list \<Rightarrow> nat \<Rightarrow> nat \<Rightarrow> nat option" where
  "skip_back program pc 0 = Some pc"
| "skip_back program 0 (Suc depth) = None"
| "skip_back program (Suc pc) (Suc depth) =
     (if pc < length program then
        let c = program ! pc; d = (if c = 93 then Suc depth + 1 else Suc depth)
        in skip_back program pc (if c = 91 then d - 1 else d)
      else None)"

declare skip_forward.simps [simp del]

definition bf_step :: "u8 list \<Rightarrow> nat \<Rightarrow> bf \<Rightarrow> (nat \<times> bf) option" where
  "bf_step program pc s =
     do {
       c \<leftarrow> get program pc;
       (pc, s) \<leftarrow>
         (if c = 91 then
            (if cell s = 0 then do { pc \<leftarrow> skip_forward program pc 1; Some (pc, s) } else Some (pc, s))
          else if c = 93 then
            (if cell s \<noteq> 0 then do { pc \<leftarrow> skip_back program pc 1; Some (pc, s) } else Some (pc, s))
          else do { s \<leftarrow> simple_op c s; Some (pc, s) });
       Some (pc + 1, s)
     }"

partial_function (option) bf_loop :: "u8 list \<Rightarrow> nat \<Rightarrow> nat \<Rightarrow> bf \<Rightarrow> bf option" where
  "bf_loop program n pc s =
     (if pc < n then do { (pc, s) \<leftarrow> bf_step program pc s; bf_loop program n pc s } else Some s)"

text \<open>\<^verbatim>\<open>main\<close> from the answer of \<^verbatim>\<open>sys_read\<close> on: the first bytes of the
  array hold the file, the others are 0.\<close>

definition bf_main :: "u8 list \<Rightarrow> u8 list \<Rightarrow> bf option" where
  "bf_main file inp =
     (let text = take 4096 file; program = text @ replicate (4096 - length text) 0
      in do { s \<leftarrow> bf_loop program (length text) 0 (bf_start inp); Some (s\<lparr>out := out s @ [10]\<rparr>) })"

section \<open>The language\<close>

datatype prog = Done | Op u8 prog | Loop prog prog

text \<open>Every character but the brackets is an instruction or a comment.\<close>

fun plain :: "prog \<Rightarrow> bool" where
  "plain Done \<longleftrightarrow> True"
| "plain (Op c p) \<longleftrightarrow> c \<noteq> 91 \<and> c \<noteq> 93 \<and> plain p"
| "plain (Loop b p) \<longleftrightarrow> plain b \<and> plain p"

fun code :: "prog \<Rightarrow> u8 list" where
  "code Done = []"
| "code (Op c p) = c # code p"
| "code (Loop b p) = 91 # code b @ 93 # code p"

inductive exec :: "prog \<Rightarrow> bf \<Rightarrow> bf \<Rightarrow> bool" where
  exec_done: "exec Done s s"
| exec_op: "simple_op c s = Some s1 \<Longrightarrow> exec p s1 s2 \<Longrightarrow> exec (Op c p) s s2"
| exec_exit: "cell s = 0 \<Longrightarrow> exec p s s1 \<Longrightarrow> exec (Loop b p) s s1"
| exec_loop: "cell s \<noteq> 0 \<Longrightarrow> exec b s s1 \<Longrightarrow> exec (Loop b p) s1 s2 \<Longrightarrow> exec (Loop b p) s s2"

section \<open>The brackets match\<close>

lemma skip_forward_code:
  assumes "program = pre @ x # code p @ post" "plain p" "0 < d"
  shows "skip_forward program (length pre) d = skip_forward program (length pre + length (code p)) d"
  using assms
proof (induction p arbitrary: pre x post d)
  case Done
  then show ?case by simp
next
  case (Op c p)
  have nth: "program ! (length pre + 1) = c" "length pre + 1 < length program" using Op.prems by (simp_all add: nth_append)
  have "skip_forward program (length pre) d = skip_forward program (length pre + 1) d"
    using Op.prems(2,3) nth by (subst skip_forward.simps) (simp add: Let_def)
  also have "\<dots> = skip_forward program (length pre + 1 + length (code p)) d"
    using Op.IH [of "pre @ [x]" c post d] Op.prems by simp
  finally show ?case by (simp add: add.assoc)
next
  case (Loop b p)
  let ?i = "length pre + 1"
  have program: "program = (pre @ [x]) @ 91 # code b @ 93 # code p @ post" using Loop.prems by simp
  have l: "length (pre @ [x]) = ?i" by simp
  have "skip_forward program (length pre) d = skip_forward program ?i (d + 1)"
    using Loop.prems(3) by (subst skip_forward.simps) (simp add: program nth_append)
  also have "\<dots> = skip_forward program (?i + length (code b)) (d + 1)"
    using Loop.IH(1) [of "pre @ [x]" 91 "93 # code p @ post" "d + 1"] program Loop.prems(2) unfolding l by simp
  also have "\<dots> = skip_forward program (?i + length (code b) + 1) d"
  proof -
    have "program ! (?i + length (code b) + 1) = 93" by (simp add: program nth_append)
    moreover have "?i + length (code b) + 1 < length program" by (simp add: program)
    ultimately show ?thesis by (subst skip_forward.simps) simp
  qed
  also have "\<dots> = skip_forward program (?i + length (code b) + 1 + length (code p)) d"
    using Loop.IH(2) [of "pre @ [x, 91] @ code b" 93 post d] program Loop.prems by simp
  finally show ?case by (simp add: ac_simps)
qed

lemma skip_back_code:
  assumes "program = pre @ code p @ x # post" "plain p" "0 < d"
  shows "skip_back program (length pre + length (code p)) d = skip_back program (length pre) d"
  using assms
proof (induction p arbitrary: pre x post d)
  case Done
  then show ?case by simp
next
  case (Op c p)
  obtain e where d: "d = Suc e" using Op.prems(3) by (cases d) auto
  have "skip_back program (length (pre @ [c]) + length (code p)) d = skip_back program (length (pre @ [c])) d"
    using Op.prems by (intro Op.IH [of _ x post]) simp_all
  also have "\<dots> = skip_back program (length pre) d" using Op.prems by (simp add: d nth_append)
  finally show ?case by simp
next
  case (Loop b p)
  obtain e where d: "d = Suc e" using Loop.prems(3) by (cases d) auto
  have program: "program = pre @ 91 # code b @ 93 # code p @ x # post" using Loop.prems by simp
  let ?pre = "pre @ 91 # code b @ [93]"
  have "skip_back program (length ?pre + length (code p)) d = skip_back program (length ?pre) d"
    using Loop.prems program by (intro Loop.IH(2) [of _ x post]) simp_all
  also have "\<dots> = skip_back program (length (pre @ [91]) + length (code b)) (Suc d)"
    by (simp add: d program nth_append)
  also have "\<dots> = skip_back program (length (pre @ [91])) (Suc d)"
    using Loop.prems program by (intro Loop.IH(1) [of _ 93 "code p @ x # post"]) simp_all
  also have "\<dots> = skip_back program (length pre) d" by (simp add: d program nth_append)
  finally show ?case by (simp add: ac_simps)
qed

lemma get_mid: "xs = pre @ c # post \<Longrightarrow> get xs (length pre) = Some c"
  by (simp add: get_def)

text \<open>What one step does at each character of a program with matched brackets.\<close>

lemma step_op:
  assumes "program = pre @ c # post" "c \<noteq> 91" "c \<noteq> 93"
  shows "bf_step program (length pre) s = map_option (\<lambda>s. (length pre + 1, s)) (simple_op c s)"
  using assms get_mid [OF assms(1)] by (cases "simple_op c s") (simp_all add: bf_step_def)

lemma step_enter:
  assumes "program = pre @ 91 # code b @ 93 # post" "cell s \<noteq> 0"
  shows "bf_step program (length pre) s = Some (length pre + 1, s)"
  using assms(2) get_mid [OF assms(1)] by (simp add: bf_step_def)

lemma step_skip:
  assumes program: "program = pre @ 91 # code b @ 93 # post" and "cell s = 0" "plain b"
  shows "bf_step program (length pre) s = Some (length pre + 1 + length (code b) + 1, s)"
proof -
  let ?i = "length pre + 1 + length (code b)"
  have "skip_forward program (length pre) 1 = skip_forward program (length pre + length (code b)) 1"
    using assms by (intro skip_forward_code [of _ _ 91 _ "93 # post"]) simp_all
  also have "\<dots> = Some ?i"
  proof -
    have "program ! (length pre + length (code b) + 1) = 93" "length pre + length (code b) + 1 < length program"
      by (simp_all add: program nth_append)
    then show ?thesis by (subst skip_forward.simps) (simp add: skip_forward.simps)
  qed
  finally show ?thesis using assms(2) get_mid [OF program] by (simp add: bf_step_def)
qed

lemma step_close:
  assumes program: "program = pre @ 91 # code b @ 93 # post" and "plain b"
  shows "bf_step program (length pre + 1 + length (code b)) s =
    Some (if cell s = 0 then length pre + 1 + length (code b) + 1 else length pre + 1, s)"
proof -
  let ?i = "length pre + 1 + length (code b)"
  have split: "program = (pre @ 91 # code b) @ 93 # post" using program by simp
  have at: "get program ?i = Some 93" using get_mid [OF split] by simp
  have "skip_back program ?i 1 = skip_back program (length pre + 1) 1"
    using skip_back_code [of program "pre @ [91]" b 93 post 1] program assms(2) by simp
  also have "\<dots> = Some (length pre)" by (simp add: program)
  finally show ?thesis using at by (simp add: bf_step_def)
qed

section \<open>The interpreter and the semantics\<close>

text \<open>The loop, with the number of its rounds.\<close>

fun bf_rounds :: "u8 list \<Rightarrow> nat \<Rightarrow> nat \<Rightarrow> nat \<Rightarrow> bf \<Rightarrow> bf option" where
  "bf_rounds program n 0 pc s = (if pc < n then None else Some s)"
| "bf_rounds program n (Suc k) pc s =
     (if pc < n then do { (pc, s) \<leftarrow> bf_step program pc s; bf_rounds program n k pc s } else Some s)"

lemma bf_loop_rounds:
  assumes "bf_loop program n pc s = Some s'"
  shows "\<exists>k. bf_rounds program n k pc s = Some s'"
  using assms
proof (induction rule: bf_loop.raw_induct [rotated, consumes 1])
  case (1 loop program n pc s s')
  show ?case
  proof (cases "pc < n")
    case True
    then obtain pc1 s1 where step: "bf_step program pc s = Some (pc1, s1)" "loop program n pc1 s1 = Some s'"
      using 1(2) by (auto split: bind_splits)
    then obtain k where "bf_rounds program n k pc1 s1 = Some s'" using 1(1) by blast
    then have "bf_rounds program n (Suc k) pc s = Some s'" using True step(1) by simp
    then show ?thesis by blast
  next
    case False
    then have "bf_rounds program n 0 pc s = Some s'" using 1(2) by simp
    then show ?thesis by blast
  qed
qed

lemma rounds_loop: "bf_rounds program n k pc s = Some s' \<Longrightarrow> bf_loop program n pc s = Some s'"
  by (induction k arbitrary: pc s) (subst bf_loop.simps, auto split: if_splits bind_splits)+

lemma bf_loop_step:
  "bf_step program pc s = Some (pc', s') \<Longrightarrow> pc < n \<Longrightarrow> bf_loop program n pc s = bf_loop program n pc' s'"
  by (subst bf_loop.simps) simp

lemma exec_bf_loop:
  assumes "exec p s s'" "plain p" "program = pre @ code p @ post" "length pre + length (code p) \<le> n"
  shows "bf_loop program n (length pre) s = bf_loop program n (length pre + length (code p)) s'"
  using assms
proof (induction arbitrary: pre post rule: exec.induct)
  case (exec_done s)
  then show ?case by simp
next
  case (exec_op c s s1 p s2)
  have "bf_step program (length pre) s = Some (length pre + 1, s1)"
    using exec_op.prems exec_op.hyps step_op [of program pre c "code p @ post" s] by simp
  then have "bf_loop program n (length pre) s = bf_loop program n (length pre + 1) s1"
    using exec_op.prems by (intro bf_loop_step) simp_all
  also have "\<dots> = bf_loop program n (length pre + 1 + length (code p)) s2"
    using exec_op.IH [of "pre @ [c]" post] exec_op.prems by simp
  finally show ?case by (simp add: add.assoc)
next
  case (exec_exit s p s1 b)
  let ?i = "length pre + 1 + length (code b)"
  have "bf_loop program n (length pre) s = bf_loop program n (?i + 1) s"
    using exec_exit step_skip [of program pre b "code p @ post" s] by (intro bf_loop_step) simp_all
  also have "\<dots> = bf_loop program n (?i + 1 + length (code p)) s1"
    using exec_exit.IH [of "pre @ 91 # code b @ [93]" post] exec_exit.prems by (simp add: ac_simps)
  finally show ?case by (simp add: ac_simps)
next
  case (exec_loop s b s1 p s2)
  let ?i = "length pre + 1 + length (code b)"
  have program: "program = pre @ 91 # code b @ 93 # code p @ post" using exec_loop.prems by simp
  have inside: "length pre < n" "?i < n" "plain b" using exec_loop.prems by simp_all
  have "bf_loop program n (length pre) s = bf_loop program n (length pre + 1) s"
    by (rule bf_loop_step [OF step_enter [OF program exec_loop.hyps(1)] inside(1)])
  also have "\<dots> = bf_loop program n ?i s1"
    using exec_loop.IH(1) [of "pre @ [91]" "93 # code p @ post"] exec_loop.prems by simp
  also have "\<dots> = bf_loop program n (length pre) s1"
  proof (cases "cell s1 = 0")
    case True
    then show ?thesis
      using bf_loop_step [OF step_skip [OF program True inside(3)] inside(1)]
        bf_loop_step [OF step_close [OF program inside(3)] inside(2), of s1] by simp
  next
    case False
    then show ?thesis
      using bf_loop_step [OF step_enter [OF program False] inside(1)]
        bf_loop_step [OF step_close [OF program inside(3)] inside(2), of s1] by simp
  qed
  also have "\<dots> = bf_loop program n (length pre + length (code (Loop b p))) s2"
    using exec_loop.IH(2) exec_loop.prems by blast
  finally show ?case .
qed

lemma rounds_exec:
  "bf_rounds program n k (length pre) s = Some s' \<Longrightarrow> plain p \<Longrightarrow> program = pre @ code p @ post
    \<Longrightarrow> length pre + length (code p) \<le> n
    \<Longrightarrow> \<exists>s1 j. j \<le> k \<and> exec p s s1 \<and> bf_rounds program n j (length pre + length (code p)) s1 = Some s'"
proof (induction "(k, p)" arbitrary: k p pre post s rule: wf_induct_rule [OF wf_lex_prod [OF wf_less_than wf_measure [of size]]])
  case (1 k p)
  note IH = 1(1) and prems = 1(2-5)
  show ?case
  proof (cases p)
    case Done
    then show ?thesis using prems(1) exec_done by auto
  next
    case (Op c q)
    then have "length pre < n" using prems(4) by simp
    then obtain k' where k: "k = Suc k'" using prems(1) by (cases k) auto
    have c: "c \<noteq> 91" "c \<noteq> 93" "plain q" using prems(2) Op by simp_all
    have program: "program = pre @ c # code q @ post" using prems(3) Op by simp
    obtain s1 where s1: "simple_op c s = Some s1" "bf_rounds program n k' (length (pre @ [c])) s1 = Some s'"
      using prems(1) step_op [OF program c(1,2), of s] \<open>length pre < n\<close> by (auto simp: k split: bind_splits)
    have "\<exists>s2 j. j \<le> k' \<and> exec q s1 s2 \<and> bf_rounds program n j (length (pre @ [c]) + length (code q)) s2 = Some s'"
      by (rule IH [OF _ s1(2) c(3)]) (use k Op prems(3,4) in simp_all)
    then show ?thesis using exec_op [OF s1(1)] by (auto simp: k Op add.assoc intro: le_SucI)
  next
    case (Loop b q)
    let ?i = "length pre + 1 + length (code b)"
    have program: "program = pre @ 91 # code b @ 93 # code q @ post" using prems(3) Loop by simp
    have inside: "length pre < n" "?i < n" "plain b" "plain q" using prems(2,4) Loop by simp_all
    then obtain k' where k: "k = Suc k'" using prems(1) by (cases k) auto
    have after: "\<exists>s2 j'. j' \<le> j \<and> exec q t s2 \<and> bf_rounds program n j' (length pre + length (code p)) s2 = Some s'"
      if "bf_rounds program n j (?i + 1) t = Some s'" "j < k" for j t
    proof -
      have "bf_rounds program n j (length (pre @ 91 # code b @ [93])) t = Some s'" using that(1) by simp
      from IH [OF _ this inside(4)] show ?thesis using that(2) program prems(4) by (simp add: Loop ac_simps)
    qed
    show ?thesis
    proof (cases "cell s = 0")
      case True
      have "bf_rounds program n k' (?i + 1) s = Some s'"
        using prems(1) step_skip [OF program True inside(3)] inside(1) by (simp add: k)
      from after [OF this] obtain s2 j' where "j' \<le> k'" "exec q s s2"
          "bf_rounds program n j' (length pre + length (code p)) s2 = Some s'" by (auto simp: k)
      moreover have "exec p s s2" using exec_exit [OF True \<open>exec q s s2\<close>] by (simp add: Loop)
      ultimately show ?thesis by (auto simp: k intro: le_SucI)
    next
      case False
      have "bf_rounds program n k' (length (pre @ [91])) s = Some s'"
        using prems(1) step_enter [OF program False] inside(1) by (simp add: k)
      then obtain s1 j where j: "j \<le> k'" "exec b s s1" "bf_rounds program n j (length (pre @ [91]) + length (code b)) s1 = Some s'"
        using IH [of k' b "pre @ [91]" s "93 # code q @ post"] k program inside by auto
      then obtain j1 where j1: "j = Suc j1" using inside(2) by (cases j) auto
      have rest: "\<exists>s2 j'. j' \<le> j \<and> exec p s1 s2 \<and> bf_rounds program n j' (length pre + length (code p)) s2 = Some s'"
      proof (cases "cell s1 = 0")
        case True
        have "bf_rounds program n j1 (?i + 1) s1 = Some s'"
          using j(3) step_close [OF program inside(3), of s1] inside(2) True by (simp add: j1)
        from after [OF this] obtain s2 j' where "j' \<le> j1" "exec q s1 s2"
            "bf_rounds program n j' (length pre + length (code p)) s2 = Some s'" using j(1) by (auto simp: k j1)
        moreover have "exec p s1 s2" using exec_exit [OF True \<open>exec q s1 s2\<close>] by (simp add: Loop)
        ultimately show ?thesis by (auto simp: j1 intro: le_SucI)
      next
        case False
        have "bf_rounds program n j1 (length pre + 1) s1 = Some s'"
          using j(3) step_close [OF program inside(3), of s1] inside(2) False by (simp add: j1)
        then have "bf_rounds program n j (length pre) s1 = Some s'"
          using step_enter [OF program False] inside(1) by (simp add: j1)
        then show ?thesis using IH [of j p pre s1 post] j(1) prems(2-4) k by simp
      qed
      then obtain s2 j' where r: "j' \<le> j" "exec p s1 s2" "bf_rounds program n j' (length pre + length (code p)) s2 = Some s'"
        by blast
      have "exec p s s2" using exec_loop [OF False j(2)] r(2) by (simp add: Loop)
      moreover have "j' \<le> k" using r(1) j(1) by (simp add: k)
      ultimately show ?thesis using r(3) by blast
    qed
  qed
qed

lemma take_code [simp]: "length (code p) \<le> 4096 \<Longrightarrow> take 4096 (code p) = code p"
  by simp

lemma rounds_end: "bf_rounds program n k n s = Some s' \<Longrightarrow> s' = s"
  by (cases k) simp_all


text \<open>The program \<^verbatim>\<open>,[.-]\<close> with the input 2 prints 2 and 1.\<close>

lemmas exec_simps = simple_op_def bf_start_def cell_def set_tape_def


section \<open>Unmatched brackets\<close>

lemma skip_forward_lost:
  "0 < depth \<Longrightarrow> 93 \<notin> set (drop (pc + 1) program) \<Longrightarrow> skip_forward program pc depth = None"
proof (induction program pc depth rule: skip_forward.induct)
  case (1 program pc depth)
  show ?case
  proof (cases "pc + 1 < length program")
    case True
    then have drop: "drop (pc + 1) program = program ! (pc + 1) # drop (pc + 1 + 1) program"
      by (simp add: Cons_nth_drop_Suc)
    then show ?thesis using 1 True by (subst skip_forward.simps) (auto simp: Let_def)
  next
    case False
    then show ?thesis using 1(2) by (subst skip_forward.simps) simp
  qed
qed

text \<open>C0: a file whose first character opens a loop that is never closed sends the
  search of \<^verbatim>\<open>bf.c\<close> out of the program array, whatever follows: there is no
  test against \<^verbatim>\<open>size\<close>, nor against the end of the array.\<close>
theorem unmatched_bracket_leaves_program:
  assumes "93 \<notin> set text"
  shows "bf_main (91 # text) inp = None"
proof -
  let ?program = "91 # take 4095 text @ replicate (4095 - length (take 4095 text)) 0"
  have "93 \<notin> set (drop (0 + 1) ?program)" using assms by (auto dest: in_set_takeD)
  then have "skip_forward ?program 0 1 = None" by (rule skip_forward_lost [rotated]) simp
  moreover have "cell (bf_start inp) = 0" by (simp add: exec_simps)
  ultimately have "bf_step ?program 0 (bf_start inp) = None" by (simp add: bf_step_def get_def)
  then have "bf_loop ?program (Suc (length (take 4095 text))) 0 (bf_start inp) = None"
    by (subst bf_loop.simps) simp
  then show ?thesis by (simp add: bf_main_def Let_def take_Cons')
qed

theorem unmatched_bracket_leaves_program_witness: "bf_main [91, 43] [] = None"
  by (rule unmatched_bracket_leaves_program) simp

end
