(* ===== verification/Spec2Isabelle.thy ===== *)
theory Spec2Isabelle
  imports Prelude Strings Descriptors Frame Kmalloc PageTable EventQueue Stdin Font Canvas Mouse Vga Exceptions Window Terminal Process Scheduler Ata Fat16 FileSystem Syscall SyscallLaws Keyboard StatusBar Desktop Compositor System UserCalls UserHeap Shell Calculator Tetris Brainfuck
begin

text \<open>
  A verification development for AdamOS, a small 32-bit operating system for the PC written in C:
  a kernel with a heap, paged virtual memory, a preemptive scheduler, a FAT16 file system, a window
  manager and system calls (\<^verbatim>\<open>src/kernel-space\<close>), the library that kernel and
  programs share (\<^verbatim>\<open>src/shared\<close>), and the programs that run on it
  (\<^verbatim>\<open>src/user-space\<close>).

  \<^bold>\<open>The program and its model.\<close> The kernel is driven by four interrupts. The timer
  (\<^verbatim>\<open>drivers/timer.c\<close>) lets the scheduler choose a process, hands mouse movements and
  clicks to the window manager, and composes a frame: background, icons, windows in stacking order,
  status bar, pointer. The keyboard (\<^verbatim>\<open>drivers/keyboard.c\<close>) and the mouse
  (\<^verbatim>\<open>drivers/mouse.c\<close>) feed the input buffer of the terminal and the event queues of
  the windows. Programs enter by \<^verbatim>\<open>int 0x80\<close> (\<^verbatim>\<open>cpu/syscall.c\<close>) and work
  on files, processes and windows. Every static variable of the code is a field of a record of the
  model, every function a definition from the state to the new state; the records of the components
  nest as the code uses them: \<open>kheap\<close> (\<^verbatim>\<open>kmalloc.c\<close>) in \<open>wm\<close> and in \<open>fat16\<close>,
  \<open>vm\<close> (frames, page tables, \<^verbatim>\<open>sti\<close> and paging flags), \<open>terminal\<close>, \<open>stdin_buffer\<close> and
  \<open>wm\<close> in \<open>kernel\<close>, this with the disk in \<open>os\<close>, and all of it with the screen, the mouse,
  the keyboard and the icons in \<open>machine\<close>.

  A function that may touch memory it does not own, follow a null pointer, overflow a signed integer
  or loop for ever has a result of type \<open>'a option\<close> with \<open>None\<close> for all of these; so every
  theorem of the form \<open>f x = Some y\<close> says that the code returns and does nothing of the kind.
  Integers of fixed width are words, C's \<open>int\<close> is the HOL type with the wrap-around or the
  overflow written out (\<open>chk32\<close> in \<open>Strings\<close> is the check of a signed result).
  Memory that the code reads before writing it is an argument (named \<open>stale\<close>, \<open>old\<close>,
  \<open>buf\<close>, \<open>beyond\<close>).

  \<^bold>\<open>Theories\<close>, from the bottom up.

  \<^item> \<open>Prelude\<close>: types, C arithmetic, list and word lemmas, the automation for computations
    in the option type, and the locale \<open>invariant_system\<close> (what holds initially and is kept by
    every step holds in every reachable state).
  \<^item> \<open>Strings\<close> (\<^verbatim>\<open>shared/string.c\<close>, \<^verbatim>\<open>mem.c\<close>, \<^verbatim>\<open>math.c\<close>):
    every function on strings, bytes and integers over buffers of known length; printing and
    reading numbers, splitting with \<^verbatim>\<open>strtok\<close>.
  \<^item> \<open>Frame\<close> (\<^verbatim>\<open>kernel/frame.c\<close>): the bitmap of frames, the set of used frames it
    stands for, the locale \<open>frame_allocator\<close>.
  \<^item> \<open>Kmalloc\<close> (\<^verbatim>\<open>kernel/kmalloc.c\<close>): the heap as headers in memory and as the
    list of blocks they form, the locale \<open>heap_allocator\<close>.
  \<^item> \<open>PageTable\<close> (\<^verbatim>\<open>kernel/page-table.c\<close>, \<^verbatim>\<open>kernel.c\<close>): directories,
    tables and translation; mapping, deep copies, loading a program, freeing. \<open>walk\<close> and
    \<open>translate\<close> are the documented behaviour of the processor's page walk.
  \<^item> \<open>EventQueue\<close> (\<^verbatim>\<open>kernel/event.c\<close>) with the locale \<open>bounded_queue\<close>, and
    \<open>Stdin\<close> (\<^verbatim>\<open>kernel/stdin.c\<close>): the two rings.
  \<^item> \<open>Font\<close>, \<open>Canvas\<close>, \<open>Vga\<close> (\<^verbatim>\<open>lib/font.c\<close>,
    \<^verbatim>\<open>drivers/vga-graphics.c\<close>): the locale \<open>canvas\<close> holds the proofs about lines,
    rectangles and glyphs once, for the screen and for the buffers of windows.
  \<^item> \<open>Mouse\<close>, \<open>Window\<close>, \<open>Terminal\<close> (\<^verbatim>\<open>drivers/mouse.c\<close>,
    \<^verbatim>\<open>kernel/window.c\<close>, \<^verbatim>\<open>drivers/terminal.c\<close>, \<^verbatim>\<open>screen-temp.c\<close>).
  \<^item> \<open>Process\<close>, \<open>Scheduler\<close> (\<^verbatim>\<open>kernel/process-control-block.c\<close>,
    \<^verbatim>\<open>scheduler.c\<close>): the list of processes, switching, sleeping, waiting, killing.
  \<^item> \<open>Ata\<close> with the locale \<open>block_device\<close>, \<open>Fat16\<close>, \<open>FileSystem\<close>
    (\<^verbatim>\<open>drivers/ata-disk.c\<close>, \<^verbatim>\<open>lib/fat16.c\<close>): the operations as they are
    written, and then the view of a volume as directory entries, cluster entries and contents.
  \<^item> \<open>Syscall\<close>, \<open>SyscallLaws\<close> (\<^verbatim>\<open>cpu/syscall.c\<close>): the handlers, and what
    all of them keep and each of them does.
  \<^item> \<open>Keyboard\<close>, \<open>StatusBar\<close>, \<open>Desktop\<close>, \<open>Compositor\<close>
    (\<^verbatim>\<open>drivers/keyboard.c\<close>, \<^verbatim>\<open>lib/status-bar.c\<close>, \<^verbatim>\<open>lib/desktop.c\<close>,
    \<^verbatim>\<open>drivers/timer.c\<close> and the compositor of \<^verbatim>\<open>kernel/window.c\<close>).
  \<^item> \<open>System\<close> (\<^verbatim>\<open>kernel/kernel.c\<close>): \<^verbatim>\<open>kernel_main\<close>, and the step
    relation of the whole machine with one rule for each interrupt.
  \<^item> \<open>Descriptors\<close>, \<open>Exceptions\<close> (\<^verbatim>\<open>cpu/gdt.c\<close>, \<^verbatim>\<open>idt.c\<close>,
    \<^verbatim>\<open>exceptions.c\<close>): the tables the processor reads, the interrupt controllers, and the report of the
    exception handler.
  \<^item> \<open>UserHeap\<close> (\<^verbatim>\<open>user-space/lib/malloc.c\<close>), \<open>UserCalls\<close> and the programs \<open>Shell\<close>,
    \<open>Calculator\<close>, \<open>Tetris\<close>, \<open>Brainfuck\<close> (\<^verbatim>\<open>user-space/programs\<close>):
    the system calls that a program makes are recorded as values of \<open>call\<close> when they only draw, and are
    functions in the record \<open>sys\<close> when the program depends on their answers; what it relies on is
    then a hypothesis (\<open>reads_stream\<close>, the shape of what \<open>SyscallLaws\<close> proves of the kernel's read,
    and \<open>writes_append\<close>).

  \<^bold>\<open>What is proved.\<close> Memory: the heap hands out disjoint regions and takes them back,
  the frame allocator the lowest free frame, and mapping a page changes the translation of that page
  only. Storage: a file that is written reads back, the directory is a list of entries, reading follows
  the chain of clusters, a descriptor is a stream. Processes: every ready process is chosen, a switch
  restores what an earlier one saved, fork and exit do what their callers rely on; the list of
  processes and the typing of descriptors are invariants of the machine. Graphics: a frame shows for
  every pixel what is on top there; the fast paths equal the slow ones; windows stay stacked. Input:
  a key reaches the input buffer or the focused window and wakes the reader. Programs: the interpreter
  implements its language by a big-step semantics, the game never lets a piece leave the board and draws
  only what changed, the calculator evaluates from left to right, and the shell finds its way back.
  Boot: every vector has the gate it needs, and the lines that are enabled raise those vectors.
  Where the code does not do what it means to, the failing case is a theorem too (a request that
  corrupts the heap, a full directory, closing a standard descriptor, a tick before the heap exists,
  a user heap that gives a live block away).

  \<^bold>\<open>Loops and bounds.\<close> Loops that follow pointers or clusters (\<open>find_block\<close>,
  \<open>coalesce_loop\<close>, \<open>malloc_search\<close>, \<open>read_chain\<close>), Bresenham's loop, the falling piece,
  \<open>cat_loop\<close> and the interpreter are \<open>partial_function (option)\<close>; that they return is proved
  from the structure they run over, never assumed. Loops with a counter recurse on it or fold over the
  range that it runs through, with the bounds of the code (32768 frames, 64 events, 256 characters,
  16 descriptors, 512 bytes in a sector, 4096 characters of a program). The search for the next process
  makes at most as many steps as \<^verbatim>\<open>process_queue_size\<close> says, as in the code. One bound is the
  model's own: \<open>sbrk_loop\<close> takes at most 1048576 pages, as many as an address space of 4 GB has,
  so that it is reached only by a loop whose page address has wrapped around, which in the code never ends.

  \<^bold>\<open>Not modelled.\<close> The boot sector, the interrupt stubs and the system call stubs are
  assembly: the handlers are modelled from the saved registers on, and the programs through what they
  pass to the stubs. Programming the timer chip, the VBE mode and the mouse
  is device output without a state that the kernel reads again. The translation look-aside buffer,
  and the functions that dump a structure to the screen are left out. Floating point (\<^verbatim>\<open>ftos\<close>, \<^verbatim>\<open>stof\<close>, sine and
  cosine, \<^verbatim>\<open>render.c\<close>, \<^verbatim>\<open>obj.c\<close>, \<^verbatim>\<open>obj_viewer.c\<close>) is
  not modelled, as no theory of the libraries used here has the binary32 format of IEEE 754. The
  fonts of \<^verbatim>\<open>font.c\<close> that no code refers to are data without use.
\<close>

end
